(* ===== verification/Prelude.thy ===== *)
theory Prelude
  imports Complex_Main "HOL-Library.Word" "HOL-Library.AList"
begin

text \<open>
  What every component of the development shares: JavaScript strings and numbers as the
  source uses them, the little of \<open>Set\<close> and \<open>Array\<close> the source calls, the collections of
  facts the component proofs draw on, and the interface locales.

  \<^item> A JavaScript string is a list of UTF-16 code units, \<open>jstr\<close>, so that \<open>length\<close> is
    the source's \<open>.length\<close> and a slice can cut a surrogate pair, as it can in the source.
    \<open>js ''abc''\<close> is the literal \<open>"abc"\<close>.
  \<^item> A JavaScript number is a \<open>jsnum\<close>: NaN, the two infinities or an exact rational.
    The rounding of IEEE doubles and the sign of zero are not modelled.
\<close>

section \<open>Collections of facts\<close>

named_theorems store_simps \<open>what reading a text store gives after a write\<close>
named_theorems frame_simps \<open>fields an operation leaves alone\<close>
named_theorems out_simps \<open>what an operation hands to its callback\<close>

section \<open>Strings\<close>

type_synonym code_unit = "16 word"
type_synonym jstr = "code_unit list"

definition js :: "string \<Rightarrow> jstr" where
  "js s = map of_char s"

lemma of_char_nat_less: "(of_char c :: nat) < 256"
  using of_char_mod_256 [of c, where 'a = nat] by (metis mod_less_divisor zero_less_numeral)

lemma unat_of_char_16: "unat (of_char c :: 16 word) = of_char c"
proof -
  have "(of_char c :: 16 word) = of_nat (of_char c)" by (simp add: of_nat_of_char)
  moreover have "(of_char c :: nat) < 2 ^ 16"
    by (rule less_trans [OF of_char_nat_less]) simp
  ultimately show ?thesis by (simp add: unat_of_nat take_bit_nat_eq_self)
qed

lemma js_Nil [simp]: "js [] = []"
  by (simp add: js_def)

lemma js_eq_iff [simp]: "js s = js t \<longleftrightarrow> s = t"
proof -
  have "inj (of_char :: char \<Rightarrow> 16 word)"
    by (rule injI) (metis of_char_eq_iff unat_of_char_16)
  then show ?thesis by (simp add: js_def inj_map_eq_map)
qed

lemma js_eq_Nil_iff [simp]: "js s = [] \<longleftrightarrow> s = []" "[] = js s \<longleftrightarrow> s = []"
  by (auto simp: js_def)

lemma length_js [simp]: "length (js s) = length s"
  by (simp add: js_def)

lemma js_append: "js (s @ t) = js s @ js t"
  by (simp add: js_def)

text \<open>\<open>s.slice(i, j)\<close> for the non-negative indices the source passes.\<close>

definition slice :: "'a list \<Rightarrow> nat \<Rightarrow> nat \<Rightarrow> 'a list" where
  "slice s i j = drop i (take j s)"

lemma slice_0 [simp]: "slice s 0 j = take j s"
  by (simp add: slice_def)

lemma slice_append_slice: "i \<le> j \<Longrightarrow> j \<le> k \<Longrightarrow> slice s i j @ slice s j k = slice s i k"
  by (simp add: slice_def drop_take) (metis add_diff_assoc2 drop_drop le_add_diff_inverse2
      ordered_cancel_comm_monoid_diff_class.add_diff_inverse take_add)

lemma slice_all: "length s \<le> j \<Longrightarrow> slice s i j = drop i s"
  by (simp add: slice_def)

lemma length_slice: "length (slice s i j) = min j (length s) - i"
  by (simp add: slice_def min.commute)

text \<open>\<open>String.prototype.trim\<close>: white space and line terminators off both ends.\<close>

definition is_js_space :: "code_unit \<Rightarrow> bool" where
  "is_js_space c \<longleftrightarrow> c \<in> {9, 10, 11, 12, 13, 32, 160, 0x1680, 0x2028, 0x2029, 0x202F, 0x205F, 0x3000, 0xFEFF}
     \<or> (0x2000 \<le> c \<and> c \<le> 0x200A)"

definition trim_by :: "('a \<Rightarrow> bool) \<Rightarrow> 'a list \<Rightarrow> 'a list" where
  "trim_by sp s = rev (dropWhile sp (rev (dropWhile sp s)))"

definition js_trim :: "jstr \<Rightarrow> jstr" where
  "js_trim s = trim_by is_js_space s"

lemma all_dropWhile_iff: "(\<forall>c\<in>set (dropWhile sp s). sp c) \<longleftrightarrow> (\<forall>c\<in>set s. sp c)"
  by (induction s) auto

lemma trim_by_eq_Nil_iff: "trim_by sp s = [] \<longleftrightarrow> (\<forall>c\<in>set s. sp c)"
  by (simp add: trim_by_def all_dropWhile_iff)

lemma length_trim_by: "length (trim_by sp s) \<le> length s"
  unfolding trim_by_def by (metis length_dropWhile_le length_rev order_trans)

lemma trim_by_hd_last:
  assumes "trim_by sp s \<noteq> []"
  shows "\<not> sp (hd (trim_by sp s))" "\<not> sp (last (trim_by sp s))"
proof -
  let ?d = "dropWhile sp s" let ?r = "dropWhile sp (rev ?d)"
  from assms have r: "?r \<noteq> []" by (simp add: trim_by_def)
  then show "\<not> sp (last (trim_by sp s))"
    by (simp add: trim_by_def last_rev hd_dropWhile)
  from r have d: "?d \<noteq> []" by (metis dropWhile.simps(1) rev.simps(1))
  then have n: "\<not> sp (last (rev ?d))" by (simp add: last_rev hd_dropWhile)
  have "last ?r = last (rev ?d)" using r
    by (metis append_self_conv2 last_appendR takeWhile_dropWhile_id)
  with n show "\<not> sp (hd (trim_by sp s))" by (simp add: trim_by_def hd_rev)
qed

lemma trim_by_trim_by [simp]: "trim_by sp (trim_by sp s) = trim_by sp s"
proof (cases "trim_by sp s = []")
  case True
  show ?thesis unfolding True by (simp add: trim_by_def)
next
  case False
  note ends = trim_by_hd_last [OF False]
  let ?t = "trim_by sp s"
  from False ends(1) have "dropWhile sp ?t = ?t" by (cases ?t) auto
  moreover from False ends(2) have "dropWhile sp (rev ?t) = rev ?t"
    by (cases "rev ?t") (auto simp: last_rev)
  ultimately show ?thesis by (simp add: trim_by_def [of sp ?t])
qed

text \<open>\<open>[...s]\<close>: the code points of a string; an unpaired surrogate stands for itself.\<close>

definition is_high_surrogate :: "code_unit \<Rightarrow> bool" where
  "is_high_surrogate c \<longleftrightarrow> 0xD800 \<le> c \<and> c < 0xDC00"

definition is_low_surrogate :: "code_unit \<Rightarrow> bool" where
  "is_low_surrogate c \<longleftrightarrow> 0xDC00 \<le> c \<and> c < 0xE000"

fun code_points :: "jstr \<Rightarrow> nat list" where
  "code_points [] = []"
| "code_points [c] = [unat c]"
| "code_points (c # d # s) =
     (if is_high_surrogate c \<and> is_low_surrogate d
      then (0x10000 + (unat c - 0xD800) * 0x400 + (unat d - 0xDC00)) # code_points s
      else unat c # code_points (d # s))"

lemma length_code_points_le: "length (code_points s) \<le> length s"
  by (induction s rule: code_points.induct) auto

lemma code_points_eq_Nil_iff [simp]: "code_points s = [] \<longleftrightarrow> s = []"
  by (cases s rule: code_points.cases) auto

section \<open>Numbers\<close>

datatype jsnum = JNaN | JNegInf | JNum rat | JPosInf

fun js_lt :: "jsnum \<Rightarrow> jsnum \<Rightarrow> bool" where
  "js_lt JNaN _ = False"
| "js_lt _ JNaN = False"
| "js_lt _ JNegInf = False"
| "js_lt JNegInf _ = True"
| "js_lt JPosInf _ = False"
| "js_lt _ JPosInf = True"
| "js_lt (JNum a) (JNum b) = (a < b)"

text \<open>\<open>Math.max\<close> and \<open>Math.min\<close>: NaN if either argument is.\<close>

definition js_max :: "jsnum \<Rightarrow> jsnum \<Rightarrow> jsnum" where
  "js_max a b = (if a = JNaN \<or> b = JNaN then JNaN else if js_lt a b then b else a)"

definition js_min :: "jsnum \<Rightarrow> jsnum \<Rightarrow> jsnum" where
  "js_min a b = (if a = JNaN \<or> b = JNaN then JNaN else if js_lt b a then b else a)"

fun js_div :: "jsnum \<Rightarrow> jsnum \<Rightarrow> jsnum" where
  "js_div (JNum a) (JNum b) =
     (if b \<noteq> 0 then JNum (a / b) else if a = 0 then JNaN else if 0 < a then JPosInf else JNegInf)"
| "js_div (JNum a) JPosInf = JNum 0"
| "js_div (JNum a) JNegInf = JNum 0"
| "js_div JPosInf (JNum b) = (if 0 \<le> b then JPosInf else JNegInf)"
| "js_div JNegInf (JNum b) = (if 0 \<le> b then JNegInf else JPosInf)"
| "js_div _ _ = JNaN"

text \<open>\<open>===\<close> on numbers: NaN differs from everything, itself included.\<close>

definition js_num_eq :: "jsnum \<Rightarrow> jsnum \<Rightarrow> bool" where
  "js_num_eq a b \<longleftrightarrow> a \<noteq> JNaN \<and> a = b"

fun is_integer :: "jsnum \<Rightarrow> bool" where
  "is_integer (JNum q) = (of_int \<lfloor>q\<rfloor> = q)"
| "is_integer _ = False"

section \<open>Capped texts and sets kept in insertion order\<close>

lemma take_append_take [simp]: "take n (take n xs @ ys) = take n (xs @ ys)"
  by (cases "length xs \<le> n") simp_all

lemma cap_cut: "(if length xs > n then take n xs else xs) = take n xs"
  by simp

definition set_add :: "'a list \<Rightarrow> 'a \<Rightarrow> 'a list" where
  "set_add xs x = (if x \<in> set xs then xs else xs @ [x])"

lemma set_set_add [simp]: "set (set_add xs x) = insert x (set xs)"
  by (auto simp: set_add_def)

lemma distinct_set_add [simp]: "distinct (set_add xs x) = distinct xs"
  by (auto simp: set_add_def)

section \<open>Interfaces\<close>

text \<open>
  A component that takes one input at a time. Whatever single steps keep, runs keep.
\<close>

locale step_machine =
  fixes step :: "'s \<Rightarrow> 'i \<Rightarrow> 's"
    and inv :: "'s \<Rightarrow> bool"
    and ok :: "'i \<Rightarrow> bool"
  assumes inv_step: "inv s \<Longrightarrow> ok i \<Longrightarrow> inv (step s i)"
begin

lemma inv_run: "inv s \<Longrightarrow> list_all ok is \<Longrightarrow> inv (foldl step s is)"
  by (induction "is" arbitrary: s) (auto intro: inv_step)

lemma inv_prefix: "inv s \<Longrightarrow> list_all ok is \<Longrightarrow> inv (foldl step s (take n is))"
  by (rule inv_run) (auto simp: list_all_iff dest: in_set_takeD)

end

text \<open>
  A system of steps that the environment chooses. What single steps keep holds wherever the system
  can get, and where a measure falls it comes to rest.
\<close>

locale step_system =
  fixes step :: "'s \<Rightarrow> 's \<Rightarrow> bool"
    and inv :: "'s \<Rightarrow> bool"
  assumes inv_step: "inv s \<Longrightarrow> step s t \<Longrightarrow> inv t"
begin

lemma inv_reach: "step\<^sup>*\<^sup>* s t \<Longrightarrow> inv s \<Longrightarrow> inv t"
  by (induction rule: rtranclp_induct) (auto intro: inv_step)

lemma comes_to_rest:
  assumes "wf r" "inv s"
    and progress: "\<And>s. inv s \<Longrightarrow> \<not> rest s \<Longrightarrow> \<exists>t. step s t \<and> (m t, m s) \<in> r"
  shows "\<exists>t. step\<^sup>*\<^sup>* s t \<and> inv t \<and> rest t"
  using assms(1,2)
proof (induction "m s" arbitrary: s rule: wf_induct_rule)
  case (less s)
  show ?case
  proof (cases "rest s")
    case False
    then obtain t where t: "step s t" "(m t, m s) \<in> r" using progress less.prems by blast
    from less.hyps [OF t(2) inv_step [OF less.prems t(1)]]
    obtain u where "step\<^sup>*\<^sup>* t u" "inv u" "rest u" by blast
    with t(1) show ?thesis by (auto intro: converse_rtranclp_into_rtranclp)
  qed (use less.prems in auto)
qed

end

text \<open>
  A store of growing texts, one cell per persona and round, each cut off at \<open>cap\<close>.
\<close>

locale text_store =
  fixes get :: "'t \<Rightarrow> 'k \<Rightarrow> nat \<Rightarrow> 'c list"
    and app :: "'t \<Rightarrow> 'k \<Rightarrow> nat \<Rightarrow> 'c list \<Rightarrow> 't"
    and cap :: nat
  assumes get_app: "get (app t p r d) q k = (if q = p \<and> k = r then take cap (get t p r @ d) else get t q k)"
begin

lemma get_app_same: "get (app t p r d) p r = take cap (get t p r @ d)"
  by (simp add: get_app)

lemma get_app_other: "(q, k) \<noteq> (p, r) \<Longrightarrow> get (app t p r d) q k = get t q k"
  by (auto simp: get_app)

lemma capped_app: "(\<And>q k. length (get t q k) \<le> cap) \<Longrightarrow> length (get (app t p r d) q k) \<le> cap"
  by (simp del: take_append add: get_app)

lemma get_run_same:
  "length (get t p r) \<le> cap \<Longrightarrow>
   get (foldl (\<lambda>t d. app t p r d) t ds) p r = take cap (get t p r @ concat ds)"
proof (induction ds arbitrary: t)
  case Nil
  then show ?case by simp
next
  case (Cons d ds)
  have "length (get (app t p r d) p r) \<le> cap" by (simp del: take_append add: get_app)
  from Cons.IH [OF this] show ?case by (simp del: take_append add: get_app)
qed

lemma get_run_other:
  "(q, k) \<noteq> (p, r) \<Longrightarrow> get (foldl (\<lambda>t d. app t p r d) t ds) q k = get t q k"
  by (induction ds arbitrary: t) (auto simp: get_app)

end

text \<open>
  A rule that says where the next piece of a text ends: it moves on and stays in range.
\<close>

locale chunker =
  fixes next_end :: "'c list \<Rightarrow> nat \<Rightarrow> nat"
  assumes advances: "pos < length t \<Longrightarrow> pos < next_end t pos"
    and in_range: "pos < length t \<Longrightarrow> next_end t pos \<le> length t"

text \<open>
  A condition watched across a sequence of values: it fires when it becomes true.
\<close>

definition rising :: "('a \<Rightarrow> bool) \<Rightarrow> 'a \<Rightarrow> 'a \<Rightarrow> bool" where
  "rising pr prev cur \<longleftrightarrow> \<not> pr prev \<and> pr cur"

fun rises :: "('a \<Rightarrow> bool) \<Rightarrow> 'a \<Rightarrow> 'a list \<Rightarrow> nat" where
  "rises pr prev [] = 0"
| "rises pr prev (x # xs) = (if rising pr prev x then 1 else 0) + rises pr x xs"

lemma rises_while_true: "pr prev \<Longrightarrow> list_all pr xs \<Longrightarrow> rises pr prev xs = 0"
  by (induction xs arbitrary: prev) (auto simp: rising_def)

lemma rises_never: "list_all (\<lambda>x. \<not> pr x) xs \<Longrightarrow> rises pr prev xs = 0"
  by (induction xs arbitrary: prev) (auto simp: rising_def)

end
