(* ===== verification/Personas.thy ===== *)
theory Personas
  imports Prelude
begin

text \<open>
  The frontend's identity layer: \<open>design/tokens.ts\<close> (the persona ids, the palette and the
  accent of each persona), \<open>personas/registry.ts\<close> (names, roles, seating order, the
  moderator) and \<open>data/topicPresets.ts\<close>. A TypeScript \<open>Record<PersonaId, T>\<close> is a function on
  the datatype of ids; that it has an entry for every id is then a matter of type.
\<close>

section \<open>Persona ids\<close>

datatype persona_id = Skeptic | Optimist | Expert | Contrarian | Moderator

definition PERSONA_IDS :: "persona_id list" where
  "PERSONA_IDS = [Skeptic, Optimist, Expert, Contrarian, Moderator]"

text \<open>The string that stands for an id on the wire.\<close>

fun persona_name :: "persona_id \<Rightarrow> string" where
  "persona_name Skeptic = ''skeptic''"
| "persona_name Optimist = ''optimist''"
| "persona_name Expert = ''expert''"
| "persona_name Contrarian = ''contrarian''"
| "persona_name Moderator = ''moderator''"

lemma persona_name_inj [simp]: "persona_name p = persona_name q \<longleftrightarrow> p = q"
  by (cases p; cases q) simp_all

lemma PERSONA_IDS_distinct: "distinct PERSONA_IDS"
  by (simp add: PERSONA_IDS_def)

lemma PERSONA_IDS_all [simp]: "p \<in> set PERSONA_IDS"
  by (cases p) (simp_all add: PERSONA_IDS_def)

instantiation persona_id :: enum
begin

definition enum_persona_id :: "persona_id list" where
  "enum_persona_id = PERSONA_IDS"

definition enum_all_persona_id :: "(persona_id \<Rightarrow> bool) \<Rightarrow> bool" where
  "enum_all_persona_id P = list_all P PERSONA_IDS"

definition enum_ex_persona_id :: "(persona_id \<Rightarrow> bool) \<Rightarrow> bool" where
  "enum_ex_persona_id P = list_ex P PERSONA_IDS"

instance
  by standard
    (auto simp: enum_persona_id_def enum_all_persona_id_def enum_ex_persona_id_def
      PERSONA_IDS_distinct list_all_iff list_ex_iff)

end

text \<open>Ids are ordered as they are listed.\<close>

fun persona_rank :: "persona_id \<Rightarrow> nat" where
  "persona_rank Skeptic = 0"
| "persona_rank Optimist = 1"
| "persona_rank Expert = 2"
| "persona_rank Contrarian = 3"
| "persona_rank Moderator = 4"

lemma persona_rank_inj [simp]: "persona_rank p = persona_rank q \<longleftrightarrow> p = q"
  by (cases p; cases q) simp_all

instantiation persona_id :: linorder
begin

definition less_eq_persona_id :: "persona_id \<Rightarrow> persona_id \<Rightarrow> bool" where
  "less_eq_persona_id p q \<longleftrightarrow> persona_rank p \<le> persona_rank q"

definition less_persona_id :: "persona_id \<Rightarrow> persona_id \<Rightarrow> bool" where
  "less_persona_id p q \<longleftrightarrow> persona_rank p < persona_rank q"

instance
  by standard (auto simp: less_eq_persona_id_def less_persona_id_def simp flip: persona_rank_inj)

end

section \<open>The registry\<close>

record persona_meta =
  meta_id :: persona_id
  displayName :: jstr
  meta_role :: jstr

fun personaMeta :: "persona_id \<Rightarrow> persona_meta" where
  "personaMeta Skeptic = \<lparr>meta_id = Skeptic, displayName = js ''The Skeptic'', meta_role = js ''Stress-tests the claim''\<rparr>"
| "personaMeta Optimist = \<lparr>meta_id = Optimist, displayName = js ''The Optimist'', meta_role = js ''Argues the upside''\<rparr>"
| "personaMeta Expert = \<lparr>meta_id = Expert, displayName = js ''Domain Expert'', meta_role = js ''Brings the evidence''\<rparr>"
| "personaMeta Contrarian = \<lparr>meta_id = Contrarian, displayName = js ''The Contrarian'', meta_role = js ''Reframes the problem''\<rparr>"
| "personaMeta Moderator = \<lparr>meta_id = Moderator, displayName = js ''The Moderator'', meta_role = js ''Synthesizes the verdict''\<rparr>"

definition PANELISTS :: "persona_id list" where
  "PANELISTS = [Skeptic, Optimist, Expert, Contrarian]"

definition MODERATOR_ID :: persona_id where
  [simp]: "MODERATOR_ID = Moderator"

lemma length_PANELISTS [simp]: "length PANELISTS = 4"
  by (simp add: PANELISTS_def)

lemma PANELISTS_distinct [simp]: "distinct PANELISTS"
  by (simp add: PANELISTS_def)

lemma set_PANELISTS: "set PANELISTS = UNIV - {Moderator}"
  by (auto simp: PANELISTS_def) (metis persona_id.exhaust)

lemma PANELISTS_nth_neq_Moderator [simp]: "i < 4 \<Longrightarrow> PANELISTS ! i \<noteq> Moderator"
  using nth_mem [of i PANELISTS] by (simp add: set_PANELISTS)

lemma panelist_index: "p \<noteq> Moderator \<Longrightarrow> \<exists>i<4. p = PANELISTS ! i"
  by (metis DiffI UNIV_I empty_iff in_set_conv_nth insert_iff length_PANELISTS set_PANELISTS)

section \<open>Design tokens\<close>

record palette =
  pal_bg :: string
  pal_panel :: string
  pal_panelBorder :: string
  pal_ink :: string
  pal_muted :: string
  pal_danger :: string

definition palette_tokens :: palette where
  "palette_tokens = \<lparr>pal_bg = ''#0B1020'', pal_panel = ''#141A2E'', pal_panelBorder = ''#243049'',
     pal_ink = ''#E6ECFF'', pal_muted = ''#8A93B2'', pal_danger = ''#FF6B7A''\<rparr>"

fun personaAccent :: "persona_id \<Rightarrow> string" where
  "personaAccent Skeptic = ''#36D6FF''"
| "personaAccent Optimist = ''#FFC24B''"
| "personaAccent Expert = ''#34E0A1''"
| "personaAccent Contrarian = ''#C77DFF''"
| "personaAccent Moderator = ''#9FB4FF''"

definition accentOf :: "persona_id \<Rightarrow> string" where
  "accentOf p = personaAccent p"

lemma accentOf_inj: "accentOf p = accentOf q \<longleftrightarrow> p = q"
  by (cases p; cases q) (simp_all add: accentOf_def)

section \<open>Topic presets\<close>

record topic_preset =
  preset_label :: jstr
  preset_question :: jstr

definition TOPIC_PRESETS :: "topic_preset list" where
  "TOPIC_PRESETS =
    [\<lparr>preset_label = js ''Four-day week'',
      preset_question = js ''Should companies switch to a four-day work week?''\<rparr>,
     \<lparr>preset_label = js ''Remote-first'',
      preset_question = js ''Should a growing startup stay remote-first or require an office?''\<rparr>,
     \<lparr>preset_label = js ''AI code review'',
      preset_question = js ''Should AI-generated code be allowed to merge without a human review?''\<rparr>,
     \<lparr>preset_label = js ''Universal basic income'',
      preset_question = js ''Would a universal basic income do more good than harm?''\<rparr>]"

end
