(* ===== verification/Protocol.thy ===== *)
theory Protocol
  imports Personas
begin

text \<open>
  The wire protocol: \<open>lib/protocol.ts\<close>, with the two Go definitions it mirrors
  (\<open>backend/internal/protocol/event.go\<close> and \<open>inbound.go\<close>) beside it.

  \<open>zod\<close> is third-party code: \<open>debateEventSchema.safeParse\<close> is the parameter \<open>safe_parse\<close>, and
  \<open>zod_documented\<close> states what the schemas of the source mean in zod's documentation.
  \<open>JSON.parse\<close> is the parameter \<open>json_parse\<close>, \<open>None\<close> where it throws; nothing is assumed of it.
\<close>

section \<open>Events\<close>

record error_event =
  ee_persona :: "persona_id option"
  ee_error :: jstr

datatype debate_event =
    TokenEvent (ev_persona: persona_id) (ev_round: nat) (ev_delta: jstr)
  | PersonaDoneEvent persona_id nat
  | RoundCompleteEvent nat
  | VerdictEvent jstr
  | ErrorEvent error_event

definition MAX_ROUNDS :: nat where "MAX_ROUNDS = 8"
definition MIN_ROUNDS :: nat where "MIN_ROUNDS = 2"
definition DEFAULT_ROUNDS :: nat where "DEFAULT_ROUNDS = 2"
definition MAX_WIRE_ROUND :: nat where "MAX_WIRE_ROUND = MAX_ROUNDS + 1"

fun wf_event :: "debate_event \<Rightarrow> bool" where
  "wf_event (TokenEvent _ r _) = (1 \<le> r \<and> r \<le> MAX_WIRE_ROUND)"
| "wf_event (PersonaDoneEvent _ r) = (1 \<le> r \<and> r \<le> MAX_WIRE_ROUND)"
| "wf_event (RoundCompleteEvent r) = (1 \<le> r \<and> r \<le> MAX_WIRE_ROUND)"
| "wf_event (VerdictEvent _) = True"
| "wf_event (ErrorEvent _) = True"

section \<open>The schemas\<close>

datatype json =
    JNull
  | JBool bool
  | JNumber jsnum
  | JStr jstr
  | JArr "json list"
  | JObj "(jstr \<times> json) list"

text \<open>Of duplicate keys the last counts, as after \<open>JSON.parse\<close>.\<close>

definition obj_get :: "(jstr \<times> json) list \<Rightarrow> string \<Rightarrow> json option" where
  "obj_get kvs k = map_of (rev kvs) (js k)"

fun personaIdSchema :: "json \<Rightarrow> persona_id option" where
  "personaIdSchema (JStr s) = List.find (\<lambda>p. s = js (persona_name p)) PERSONA_IDS"
| "personaIdSchema _ = None"

fun roundSchema :: "json \<Rightarrow> nat option" where
  "roundSchema (JNumber (JNum q)) =
     (if is_integer (JNum q) \<and> 0 < q \<and> q \<le> of_nat MAX_WIRE_ROUND then Some (nat \<lfloor>q\<rfloor>) else None)"
| "roundSchema _ = None"

text \<open>\<open>z.string().default("")\<close>: an absent key gives the default, anything but a string fails.\<close>

fun stringDefault :: "json option \<Rightarrow> jstr option" where
  "stringDefault None = Some []"
| "stringDefault (Some (JStr s)) = Some s"
| "stringDefault (Some _) = None"

definition tokenSchema :: "(jstr \<times> json) list \<Rightarrow> debate_event option" where
  "tokenSchema kvs =
    (case Option.bind (obj_get kvs ''persona'') personaIdSchema of None \<Rightarrow> None | Some p \<Rightarrow>
     case Option.bind (obj_get kvs ''round'') roundSchema of None \<Rightarrow> None | Some r \<Rightarrow>
     case stringDefault (obj_get kvs ''delta'') of None \<Rightarrow> None | Some d \<Rightarrow>
     Some (TokenEvent p r d))"

definition personaDoneSchema :: "(jstr \<times> json) list \<Rightarrow> debate_event option" where
  "personaDoneSchema kvs =
    (case Option.bind (obj_get kvs ''persona'') personaIdSchema of None \<Rightarrow> None | Some p \<Rightarrow>
     case Option.bind (obj_get kvs ''round'') roundSchema of None \<Rightarrow> None | Some r \<Rightarrow>
     Some (PersonaDoneEvent p r))"

definition roundCompleteSchema :: "(jstr \<times> json) list \<Rightarrow> debate_event option" where
  "roundCompleteSchema kvs =
    (case Option.bind (obj_get kvs ''round'') roundSchema of None \<Rightarrow> None | Some r \<Rightarrow>
     Some (RoundCompleteEvent r))"

definition verdictSchema :: "(jstr \<times> json) list \<Rightarrow> debate_event option" where
  "verdictSchema kvs = map_option VerdictEvent (stringDefault (obj_get kvs ''verdict''))"

definition errorSchema :: "(jstr \<times> json) list \<Rightarrow> debate_event option" where
  "errorSchema kvs =
    (case stringDefault (obj_get kvs ''error'') of None \<Rightarrow> None | Some m \<Rightarrow>
     case obj_get kvs ''persona'' of
       None \<Rightarrow> Some (ErrorEvent \<lparr>ee_persona = None, ee_error = m\<rparr>)
     | Some j \<Rightarrow> (case personaIdSchema j of None \<Rightarrow> None
         | Some p \<Rightarrow> Some (ErrorEvent \<lparr>ee_persona = Some p, ee_error = m\<rparr>)))"

text \<open>\<open>z.discriminatedUnion("type", ...)\<close>.\<close>

fun debateEventSchema :: "json \<Rightarrow> debate_event option" where
  "debateEventSchema (JObj kvs) =
    (case obj_get kvs ''type'' of
       Some (JStr t) \<Rightarrow>
         if t = js ''token'' then tokenSchema kvs
         else if t = js ''persona_done'' then personaDoneSchema kvs
         else if t = js ''round_complete'' then roundCompleteSchema kvs
         else if t = js ''verdict'' then verdictSchema kvs
         else if t = js ''error'' then errorSchema kvs
         else None
     | _ \<Rightarrow> None)"
| "debateEventSchema _ = None"

type_synonym safe_parser = "json \<Rightarrow> jstr list + debate_event"

definition zod_documented :: "safe_parser \<Rightarrow> bool" where
  "zod_documented safe_parse \<longleftrightarrow>
    (\<forall>j. case safe_parse j of
       Inr e \<Rightarrow> debateEventSchema j = Some e
     | Inl issues \<Rightarrow> issues \<noteq> [] \<and> debateEventSchema j = None)"

datatype parse_result = ParseOk debate_event | ParseErr jstr

definition parseEvent :: "(jstr \<Rightarrow> json option) \<Rightarrow> safe_parser \<Rightarrow> jstr \<Rightarrow> parse_result" where
  "parseEvent json_parse safe_parse raw =
    (case json_parse raw of
       None \<Rightarrow> ParseErr (js ''frame is not valid JSON'')
     | Some json \<Rightarrow>
        (case safe_parse json of
           Inl issues \<Rightarrow> ParseErr (case issues of [] \<Rightarrow> js ''invalid event'' | m # _ \<Rightarrow> m)
         | Inr e \<Rightarrow> ParseOk e))"

section \<open>What the backend sends\<close>

record go_event =
  ge_type :: string
  ge_persona :: string
  ge_round :: nat
  ge_delta :: jstr
  ge_error :: jstr
  ge_verdict :: jstr

definition go_blank :: "string \<Rightarrow> go_event" where
  "go_blank t = \<lparr>ge_type = t, ge_persona = '''', ge_round = 0, ge_delta = [], ge_error = [], ge_verdict = []\<rparr>"

definition go_Token :: "string \<Rightarrow> nat \<Rightarrow> jstr \<Rightarrow> go_event" where
  "go_Token persona rnd delta = (go_blank ''token'')\<lparr>ge_round := rnd, ge_delta := delta, ge_persona := persona\<rparr>"

definition go_PersonaDone :: "string \<Rightarrow> nat \<Rightarrow> go_event" where
  "go_PersonaDone persona rnd = (go_blank ''persona_done'')\<lparr>ge_round := rnd, ge_persona := persona\<rparr>"

definition go_RoundComplete :: "nat \<Rightarrow> go_event" where
  "go_RoundComplete rnd = (go_blank ''round_complete'')\<lparr>ge_round := rnd\<rparr>"

definition go_Error :: "string \<Rightarrow> jstr \<Rightarrow> go_event" where
  "go_Error persona msg = (go_blank ''error'')\<lparr>ge_persona := persona, ge_error := msg\<rparr>"

definition go_Verdict :: "jstr \<Rightarrow> go_event" where
  "go_Verdict text = (go_blank ''verdict'')\<lparr>ge_verdict := text\<rparr>"

text \<open>\<open>encoding/json\<close> on the struct: every field but \<open>type\<close> is left out when it is zero.\<close>

definition go_marshal :: "go_event \<Rightarrow> json" where
  "go_marshal e = JObj
    ([(js ''type'', JStr (js (ge_type e)))]
     @ (if ge_persona e = '''' then [] else [(js ''persona'', JStr (js (ge_persona e)))])
     @ (if ge_round e = 0 then [] else [(js ''round'', JNumber (JNum (of_nat (ge_round e))))])
     @ (if ge_delta e = [] then [] else [(js ''delta'', JStr (ge_delta e))])
     @ (if ge_error e = [] then [] else [(js ''error'', JStr (ge_error e))])
     @ (if ge_verdict e = [] then [] else [(js ''verdict'', JStr (ge_verdict e))]))"

text \<open>The backend's constructor call for each event the frontend knows.\<close>

fun go_of_event :: "debate_event \<Rightarrow> go_event" where
  "go_of_event (TokenEvent p r d) = go_Token (persona_name p) r d"
| "go_of_event (PersonaDoneEvent p r) = go_PersonaDone (persona_name p) r"
| "go_of_event (RoundCompleteEvent r) = go_RoundComplete r"
| "go_of_event (VerdictEvent v) = go_Verdict v"
| "go_of_event (ErrorEvent e) =
     go_Error (case ee_persona e of None \<Rightarrow> '''' | Some p \<Rightarrow> persona_name p) (ee_error e)"

section \<open>The outbound message\<close>

fun show_nat :: "nat \<Rightarrow> string" where
  "show_nat n = (if n < 10 then [char_of (48 + n)] else show_nat (n div 10) @ [char_of (48 + n mod 10)])"

declare show_nat.simps [simp del]

definition MAX_QUESTION_RUNES :: nat where "MAX_QUESTION_RUNES = 1000"

text \<open>The rounds of a message are a whole number: \<open>buildAsk\<close> has checked that.\<close>

record ask_message =
  ask_question :: jstr
  ask_rounds :: "nat option"

datatype build_ask_result = AskOk ask_message | AskErr jstr

definition runeCount :: "jstr \<Rightarrow> nat" where
  "runeCount s = length (code_points s)"

definition valid_rounds :: "jsnum \<Rightarrow> bool" where
  "valid_rounds n \<longleftrightarrow> (case n of
      JNum q \<Rightarrow> is_integer n \<and> \<not> q < of_nat MIN_ROUNDS \<and> \<not> q > of_nat MAX_ROUNDS \<and> \<lfloor>q\<rfloor> mod 2 = 0
    | _ \<Rightarrow> False)"

fun rounds_nat :: "jsnum \<Rightarrow> nat" where
  "rounds_nat (JNum q) = nat \<lfloor>q\<rfloor>"
| "rounds_nat _ = 0"

definition buildAsk :: "jstr \<Rightarrow> jsnum option \<Rightarrow> build_ask_result" where
  "buildAsk question rounds =
    (let trimmed = js_trim question in
     if trimmed = [] then AskErr (js ''Ask a question to convene the council.'')
     else if runeCount trimmed > MAX_QUESTION_RUNES
       then AskErr (js (''Question must be '' @ show_nat MAX_QUESTION_RUNES @ '' characters or fewer.''))
     else if (case rounds of None \<Rightarrow> False | Some n \<Rightarrow> \<not> valid_rounds n)
       then AskErr (js (''Rounds must be an even number between '' @ show_nat MIN_ROUNDS @ '' and '' @ show_nat MAX_ROUNDS @ ''.''))
     else AskOk \<lparr>ask_question = trimmed, ask_rounds = map_option rounds_nat rounds\<rparr>)"

section \<open>The message on the wire\<close>

text \<open>\<open>JSON.stringify\<close> of a string: short escapes, \<open>\uXXXX\<close> for the other control
  characters and for unpaired surrogates.\<close>

definition hex_digit :: "nat \<Rightarrow> code_unit" where
  "hex_digit d = word_of_nat (if d < 10 then 48 + d else 87 + d)"

definition unicode_escape :: "code_unit \<Rightarrow> jstr" where
  "unicode_escape c = (let n = unat c in
     [92, 117, hex_digit (n div 4096), hex_digit (n div 256 mod 16), hex_digit (n div 16 mod 16), hex_digit (n mod 16)])"

definition json_escape1 :: "code_unit \<Rightarrow> jstr" where
  "json_escape1 c =
    (if c = 8 then [92, 98] else if c = 9 then [92, 116] else if c = 10 then [92, 110]
     else if c = 12 then [92, 102] else if c = 13 then [92, 114]
     else if c = 34 then [92, 34] else if c = 92 then [92, 92]
     else if c < 32 \<or> is_high_surrogate c \<or> is_low_surrogate c then unicode_escape c
     else [c])"

fun json_escape :: "jstr \<Rightarrow> jstr" where
  "json_escape [] = []"
| "json_escape [c] = json_escape1 c"
| "json_escape (c # d # s) =
    (if is_high_surrogate c \<and> is_low_surrogate d then c # d # json_escape s
     else json_escape1 c @ json_escape (d # s))"

definition stringify_ask :: "ask_message \<Rightarrow> jstr" where
  "stringify_ask m =
     js ''{\"type\":\"ask\",\"question\":\"'' @ json_escape (ask_question m) @ js ''\"''
     @ (case ask_rounds m of None \<Rightarrow> [] | Some n \<Rightarrow> js ('',\"rounds\":'' @ show_nat n)) @ js ''}''"

text \<open>The bytes of the text frame: UTF-8 of the UTF-16 string.\<close>

definition unit_bytes :: "code_unit \<Rightarrow> nat" where
  "unit_bytes c = (if c < 0x80 then 1 else if c < 0x800 then 2 else 3)"

fun utf8_length :: "jstr \<Rightarrow> nat" where
  "utf8_length [] = 0"
| "utf8_length [c] = unit_bytes c"
| "utf8_length (c # d # s) =
    (if is_high_surrogate c \<and> is_low_surrogate d then 4 + utf8_length s
     else unit_bytes c + utf8_length (d # s))"

section \<open>The backend's check of the message\<close>

text \<open>A Go string of valid UTF-8, as \<open>encoding/json\<close> makes it: a list of runes; an unpaired
  surrogate escape has become U+FFFD. \<open>utf8.ValidString\<close> holds of every such string.\<close>

definition go_runes :: "jstr \<Rightarrow> nat list" where
  "go_runes s = map (\<lambda>c. if 0xD800 \<le> c \<and> c < 0xE000 then 0xFFFD else c) (code_points s)"

text \<open>\<open>unicode.IsSpace\<close>.\<close>

definition go_is_space :: "nat \<Rightarrow> bool" where
  "go_is_space c \<longleftrightarrow> c \<in> {9, 10, 11, 12, 13, 32, 0x85, 0xA0, 0x1680, 0x2028, 0x2029, 0x202F, 0x205F, 0x3000}
     \<or> (0x2000 \<le> c \<and> c \<le> 0x200A)"

record go_client_message =
  cm_type :: string
  cm_question :: "nat list"
  cm_rounds :: int

definition go_Validate :: "go_client_message \<Rightarrow> string option" where
  "go_Validate m =
    (if cm_type m \<noteq> ''ask'' then Some ''type must be \"ask\"''
     else let trimmed = trim_by go_is_space (cm_question m) in
     if trimmed = [] then Some ''question must be non-empty''
     else if length trimmed > 1000 then Some ''question is too long''
     else if cm_rounds m \<noteq> 0 \<and> (cm_rounds m < 2 \<or> cm_rounds m > 8 \<or> cm_rounds m mod 2 \<noteq> 0)
       then Some ''invalid round number, choose an even number between 2 and 8''
     else None)"

text \<open>What the backend reads from the message: a missing \<open>rounds\<close> is Go's zero.\<close>

definition go_read_ask :: "ask_message \<Rightarrow> go_client_message" where
  "go_read_ask m = \<lparr>cm_type = ''ask'', cm_question = go_runes (ask_question m),
     cm_rounds = (case ask_rounds m of None \<Rightarrow> 0 | Some n \<Rightarrow> int n)\<rparr>"

section \<open>Inbound: parsing\<close>

lemma personaIdSchema_name [simp]: "personaIdSchema (JStr (js (persona_name p))) = Some p"
  by (cases p) (simp_all add: PERSONA_IDS_def)

lemma roundSchema_of_nat [simp]:
  "roundSchema (JNumber (JNum (of_nat r))) = (if 1 \<le> r \<and> r \<le> MAX_WIRE_ROUND then Some r else None)"
  by auto

lemma roundSchema_bounds: "roundSchema j = Some r \<Longrightarrow> 1 \<le> r \<and> r \<le> MAX_WIRE_ROUND"
proof (induction j rule: roundSchema.induct)
  case (1 q)
  then have q: "of_int \<lfloor>q\<rfloor> = q" "0 < q" "q \<le> of_nat MAX_WIRE_ROUND" and r: "r = nat \<lfloor>q\<rfloor>"
    by (auto split: if_splits)
  from q(1,2) have "0 < \<lfloor>q\<rfloor>" by (metis of_int_0_less_iff)
  moreover from q(1,3) have "\<lfloor>q\<rfloor> \<le> int MAX_WIRE_ROUND" by (metis floor_mono floor_of_nat)
  ultimately show ?case using r by linarith
qed auto

lemmas schema_defs = tokenSchema_def personaDoneSchema_def roundCompleteSchema_def
  verdictSchema_def errorSchema_def

lemma debateEventSchema_wf: "debateEventSchema j = Some e \<Longrightarrow> wf_event e"
  by (induction j rule: debateEventSchema.induct)
    (auto simp: schema_defs bind_eq_Some_conv dest: roundSchema_bounds
      split: option.splits json.splits if_splits)

lemma find_persona [simp]: "List.find ((=) p) PERSONA_IDS = Some p"
  by (cases p) (simp_all add: PERSONA_IDS_def)

lemma persona_name_nonempty [simp]: "persona_name p \<noteq> []"
  by (cases p) simp_all

lemma debateEventSchema_marshal: "wf_event e \<Longrightarrow> debateEventSchema (go_marshal (go_of_event e)) = Some e"
  by (cases e)
    (auto simp: go_marshal_def go_blank_def go_Token_def go_PersonaDone_def go_RoundComplete_def
      go_Verdict_def go_Error_def schema_defs obj_get_def split: option.splits)

lemma zod_documentedD: "zod_documented sp \<Longrightarrow> sp j = Inr e \<Longrightarrow> debateEventSchema j = Some e"
  unfolding zod_documented_def by (drule spec [of _ j]) simp

lemma parseEvent_Ok_wf:
  assumes "zod_documented sp" and "parseEvent jp sp raw = ParseOk e"
  shows "wf_event e"
proof -
  from assms(2) obtain j where "sp j = Inr e"
    by (auto simp: parseEvent_def split: option.splits sum.splits list.splits)
  with assms(1) show ?thesis by (blast intro: debateEventSchema_wf zod_documentedD)
qed

lemma parse_marshalled:
  assumes "zod_documented safe_parse" and "wf_event e"
    and "json_parse raw = Some (go_marshal (go_of_event e))"
  shows "parseEvent json_parse safe_parse raw = ParseOk e"
proof -
  have "debateEventSchema (go_marshal (go_of_event e)) = Some e"
    using assms(2) by (rule debateEventSchema_marshal)
  with assms(1) have "safe_parse (go_marshal (go_of_event e)) = Inr e"
    by (cases "safe_parse (go_marshal (go_of_event e))")
      (auto simp: zod_documented_def dest!: spec [of _ "go_marshal (go_of_event e)"])
  with assms(3) show ?thesis by (simp add: parseEvent_def)
qed

text \<open>A parser that behaves as documented, for the witnesses.\<close>

definition zod_reference :: safe_parser where
  "zod_reference j = (case debateEventSchema j of Some e \<Rightarrow> Inr e | None \<Rightarrow> Inl [js ''Invalid input''])"

lemma zod_reference_documented: "zod_documented zod_reference"
  by (simp add: zod_documented_def zod_reference_def split: option.splits)

section \<open>Outbound: what the user interface lets through\<close>

lemma valid_rounds_nat:
  "valid_rounds n \<Longrightarrow> 2 \<le> rounds_nat n \<and> rounds_nat n \<le> 8 \<and> even (rounds_nat n)"
proof (cases n)
  case (JNum q)
  assume "valid_rounds n"
  with JNum have q: "2 \<le> q" "q \<le> 8" and e: "\<lfloor>q\<rfloor> mod 2 = 0"
    by (auto simp: valid_rounds_def MIN_ROUNDS_def MAX_ROUNDS_def)
  from q have f: "2 \<le> \<lfloor>q\<rfloor>" "\<lfloor>q\<rfloor> \<le> 8" by linarith+
  with e have "even (nat \<lfloor>q\<rfloor>)" by (simp only: even_nat_iff) (simp add: even_iff_mod_2_eq_zero)
  moreover from f have "2 \<le> nat \<lfloor>q\<rfloor> \<and> nat \<lfloor>q\<rfloor> \<le> 8" by linarith
  ultimately show ?thesis by (simp only: JNum rounds_nat.simps)
qed (auto simp: valid_rounds_def)

lemma buildAsk_OkD:
  assumes "buildAsk q r = AskOk m"
  shows "ask_question m = js_trim q" "js_trim q \<noteq> []" "runeCount (js_trim q) \<le> 1000"
    "\<And>n. ask_rounds m = Some n \<Longrightarrow> 2 \<le> n \<and> n \<le> 8 \<and> even n"
  using assms
  by (auto simp: buildAsk_def Let_def MAX_QUESTION_RUNES_def dest: valid_rounds_nat
      split: if_splits option.splits)

lemma length_go_runes [simp]: "length (go_runes s) = runeCount s"
  by (simp add: go_runes_def runeCount_def)

section \<open>The size of the frame\<close>

lemma surrogate_bytes [simp]:
  "is_high_surrogate c \<Longrightarrow> unit_bytes c = 3" "is_low_surrogate c \<Longrightarrow> unit_bytes c = 3"
  by (auto simp: is_high_surrogate_def is_low_surrogate_def unit_bytes_def word_less_nat_alt word_le_nat_alt)

lemma low_not_high: "is_low_surrogate c \<Longrightarrow> \<not> is_high_surrogate c"
  by (auto simp: is_high_surrogate_def is_low_surrogate_def)

lemma unit_bytes_bounds: "1 \<le> unit_bytes c" "unit_bytes c \<le> 3"
  by (simp_all add: unit_bytes_def)

lemma utf8_length_Cons: "\<not> is_high_surrogate c \<Longrightarrow> utf8_length (c # s) = unit_bytes c + utf8_length s"
  by (cases s) simp_all

lemma utf8_length_append: "utf8_length (xs @ ys) \<le> utf8_length xs + utf8_length ys"
proof (induction xs rule: utf8_length.induct)
  case (2 c)
  show ?case by (cases ys) (simp_all add: utf8_length_Cons low_not_high)
qed auto

lemma utf8_length_ascii: "\<forall>c\<in>set xs. c < 0x80 \<Longrightarrow> utf8_length xs = length xs"
proof (induction xs)
  case (Cons c xs)
  then have "\<not> is_high_surrogate c" by (auto simp: is_high_surrogate_def word_less_nat_alt word_le_nat_alt)
  with Cons show ?case by (simp add: utf8_length_Cons unit_bytes_def)
qed simp

lemma utf8_length_le: "utf8_length xs \<le> 3 * length xs"
proof (induction xs rule: utf8_length.induct)
  case (3 c d s)
  then show ?case using unit_bytes_bounds(2) [of c] by auto
qed (use unit_bytes_bounds(2) in auto)

lemma hex_digit_ascii: "d < 16 \<Longrightarrow> hex_digit d < 0x80"
  by (simp add: hex_digit_def word_less_nat_alt unat_of_nat take_bit_nat_eq_self)

lemma utf8_unicode_escape: "utf8_length (unicode_escape c) = 6"
proof -
  have "unat c < 65536" using unsigned_less [of c, where 'a = nat] by simp
  then have "unat c div 4096 < 16" by simp
  then have "\<forall>x\<in>set (unicode_escape c). x < 0x80"
    by (auto simp: unicode_escape_def Let_def hex_digit_ascii)
  from utf8_length_ascii [OF this] show ?thesis by (simp add: unicode_escape_def Let_def)
qed

lemma utf8_json_escape1: "utf8_length (json_escape1 c) \<le> 6"
  using unit_bytes_bounds(2) [of c]
  by (auto simp: json_escape1_def utf8_unicode_escape unit_bytes_def is_high_surrogate_def)

lemma utf8_json_escape: "utf8_length (json_escape s) \<le> 6 * runeCount s"
proof (induction s rule: json_escape.induct)
  case (2 c)
  then show ?case using utf8_json_escape1 [of c] by (simp add: runeCount_def)
next
  case (3 c d s)
  show ?case
  proof (cases "is_high_surrogate c \<and> is_low_surrogate d")
    case True
    then show ?thesis using "3.IH"(1) by (simp add: runeCount_def)
  next
    case False
    with "3.IH"(2) utf8_json_escape1 [of c] utf8_length_append [of "json_escape1 c" "json_escape (d # s)"]
    show ?thesis by (auto simp: runeCount_def)
  qed
qed (simp add: runeCount_def)

lemma stringify_ask_bytes:
  assumes "buildAsk q r = AskOk m"
  shows "utf8_length (stringify_ask m) \<le> 6100"
proof -
  note ok = buildAsk_OkD [OF assms]
  let ?q = "json_escape (ask_question m)"
  let ?r = "case ask_rounds m of None \<Rightarrow> [] | Some n \<Rightarrow> js ('',\"rounds\":'' @ show_nat n)"
  have q: "utf8_length ?q \<le> 6000"
    using utf8_json_escape [of "ask_question m"] ok(1,3) by simp
  have "length ?r \<le> 11"
    by (auto split: option.splits dest!: ok(4) simp: show_nat.simps)
  then have r: "utf8_length ?r \<le> 33" using utf8_length_le [of ?r] by linarith
  have head: "utf8_length (js ''{\"type\":\"ask\",\"question\":\"'') = 26"
    by (simp add: js_def unit_bytes_def is_high_surrogate_def)
  have quote: "utf8_length (js ''\"'') = 1" and close: "utf8_length (js ''}'') = 1"
    by (simp_all add: js_def unit_bytes_def)
  show ?thesis unfolding stringify_ask_def
    using utf8_length_append [of "js ''{\"type\":\"ask\",\"question\":\"''" "?q @ js ''\"'' @ ?r @ js ''}''"]
      utf8_length_append [of ?q "js ''\"'' @ ?r @ js ''}''"]
      utf8_length_append [of "js ''\"''" "?r @ js ''}''"] utf8_length_append [of ?r "js ''}''"]
      q r head quote close by linarith
qed

section \<open>Properties\<close>

text \<open>C33. Whatever the socket delivers, a frame that parses is a well-formed event: its
  persona is one of the five ids and its round, if it has one, is between 1 and
  \<open>MAX_ROUNDS + 1\<close>. The hypothesis is that zod does what its documentation says.\<close>

theorem parsed_event_wf:
  assumes "zod_documented safe_parse" and "parseEvent json_parse safe_parse raw = ParseOk e"
  shows "wf_event e"
  using assms by (rule parseEvent_Ok_wf)

theorem parsed_event_wf_witness:
  "zod_documented zod_reference \<and> wf_event (RoundCompleteEvent 2)"
  using parsed_event_wf [OF zod_reference_documented,
      of "\<lambda>_. Some (go_marshal (go_of_event (RoundCompleteEvent 2)))" "[]" "RoundCompleteEvent 2"]
    zod_reference_documented
  by (simp add: parseEvent_def zod_reference_def debateEventSchema_marshal MAX_WIRE_ROUND_def MAX_ROUNDS_def)

text \<open>C32. Every event the backend can send survives the wire: encoding it in Go, with the
  empty fields left out, and parsing the result in the frontend gives the event back.\<close>

theorem wire_roundtrip:
  assumes "zod_documented safe_parse" and "wf_event e"
    and "json_parse raw = Some (go_marshal (go_of_event e))"
  shows "parseEvent json_parse safe_parse raw = ParseOk e"
  using assms by (rule parse_marshalled)

theorem wire_roundtrip_witness:
  "parseEvent (\<lambda>_. Some (go_marshal (go_of_event (TokenEvent Expert 1 (js ''hi''))))) zod_reference []
     = ParseOk (TokenEvent Expert 1 (js ''hi''))"
  by (rule wire_roundtrip [OF zod_reference_documented]) (simp_all add: MAX_WIRE_ROUND_def MAX_ROUNDS_def)

text \<open>C34. The frontend's check of a question agrees with the backend's on everything it lets
  through, except a question made only of characters that Go trims and JavaScript does not.\<close>

theorem accepted_ask_is_valid_for_backend:
  assumes "buildAsk question rounds = AskOk m"
  shows "go_Validate (go_read_ask m) = None \<longleftrightarrow> (\<exists>c\<in>set (go_runes (ask_question m)). \<not> go_is_space c)"
proof -
  note ok = buildAsk_OkD [OF assms]
  let ?t = "trim_by go_is_space (go_runes (ask_question m))"
  have "length ?t \<le> 1000"
    using length_trim_by [of go_is_space "go_runes (ask_question m)"] ok(1,3) by simp
  moreover have "?t = [] \<longleftrightarrow> \<not> (\<exists>c\<in>set (go_runes (ask_question m)). \<not> go_is_space c)"
    by (auto simp: trim_by_eq_Nil_iff)
  moreover have "ask_rounds m = Some n \<Longrightarrow> 2 \<le> n \<and> n \<le> 8 \<and> int n mod 2 = 0" for n
    using ok(4) [of n] by (auto simp: even_iff_mod_2_eq_zero [symmetric])
  ultimately show ?thesis
    by (auto simp: go_Validate_def go_read_ask_def Let_def split: option.splits)
qed

theorem accepted_ask_is_valid_for_backend_witness:
  "go_Validate (go_read_ask \<lparr>ask_question = js ''why?'', ask_rounds = Some 4\<rparr>) = None"
proof -
  have "buildAsk (js '' why? '') (Some (JNum 4)) = AskOk \<lparr>ask_question = js ''why?'', ask_rounds = Some 4\<rparr>"
    by (simp add: buildAsk_def js_trim_def trim_by_def js_def is_js_space_def runeCount_def
        is_high_surrogate_def valid_rounds_def MIN_ROUNDS_def MAX_ROUNDS_def MAX_QUESTION_RUNES_def)
  from accepted_ask_is_valid_for_backend [OF this] show ?thesis
    by (simp add: js_def go_runes_def is_high_surrogate_def go_is_space_def)
qed

text \<open>The exception of \<open>accepted_ask_is_valid_for_backend\<close> is real: the question \<open>"\u0085"\<close> (NEXT LINE) is accepted by
  the frontend and rejected by the backend as empty.\<close>

theorem frontend_accepts_what_backend_rejects:
  "buildAsk [0x85] None = AskOk \<lparr>ask_question = [0x85], ask_rounds = None\<rparr>
   \<and> go_Validate (go_read_ask \<lparr>ask_question = [0x85], ask_rounds = None\<rparr>) = Some ''question must be non-empty''"
  by (simp add: buildAsk_def js_trim_def trim_by_def is_js_space_def runeCount_def MAX_QUESTION_RUNES_def
      go_Validate_def go_read_ask_def go_runes_def go_is_space_def)

text \<open>C35. No accepted question makes a frame the backend's read limit of 8 KiB refuses, however
  many of its characters need an escape or several bytes.\<close>

theorem ask_fits_read_limit:
  assumes "buildAsk question rounds = AskOk m"
  shows "utf8_length (stringify_ask m) \<le> 8 * 1024"
  using stringify_ask_bytes [OF assms] by simp

theorem ask_fits_read_limit_witness:
  "utf8_length (stringify_ask \<lparr>ask_question = js ''why?'', ask_rounds = None\<rparr>) \<le> 8 * 1024"
proof -
  have "buildAsk (js ''why?'') None = AskOk \<lparr>ask_question = js ''why?'', ask_rounds = None\<rparr>"
    by (simp add: buildAsk_def js_trim_def trim_by_def js_def is_js_space_def runeCount_def
        is_high_surrogate_def MAX_QUESTION_RUNES_def)
  from ask_fits_read_limit [OF this] show ?thesis .
qed

end
