(* ===== verification/Ws_Client.thy ===== *)
theory Ws_Client
  imports Protocol
begin

text \<open>
  \<open>lib/wsClient.ts\<close>: the wrapper around one WebSocket. The sockets the browser has made and
  the clients \<open>createWsClient\<close> has returned live in a store, \<open>ws_world\<close>, because the point of
  \<open>dispose\<close> is aliasing: a socket outlives the client variable that held it, and whether its
  late events still reach the callbacks depends on the handlers set on the socket itself.

  A client is its one closure variable \<open>socket\<close>. A socket's \<open>handlers\<close> are the four \<open>on...\<close>
  properties, which the source always sets and clears together: \<open>Some (c, m)\<close> are the closures
  of client \<open>c\<close>, whose \<open>onopen\<close> sends \<open>m\<close>. An operation returns the new store and the calls
  it makes to \<open>onEvent\<close>, \<open>onStatus\<close> and \<open>onError\<close>, in order.

  \<open>new WebSocket(url)\<close> throws for a URL that is not one; the URL is the deployment's (\<open>defaultUrl\<close>), the
  same at every call, and is taken to be valid, so that the constructor returns.
\<close>

section \<open>State\<close>

datatype ws_status = WsIdle | WsConnecting | WsOpen | WsClosed | WsError

record ws_socket =
  handlers :: "(nat \<times> jstr) option"
  sent :: "jstr list"
  close_called :: bool

record ws_world =
  sockets :: "nat \<Rightarrow> ws_socket option"
  next_socket :: nat
  clients :: "nat \<Rightarrow> nat option"
  next_client :: nat

datatype client_call = OnStatus ws_status | OnEvent debate_event | OnError jstr

datatype frame = TextFrame jstr | BinaryFrame

definition MAX_FRAME_CHARS :: nat where "MAX_FRAME_CHARS = 256 * 1024"

definition ws_init :: ws_world where
  "ws_init = \<lparr>sockets = (\<lambda>_. None), next_socket = 0, clients = (\<lambda>_. None), next_client = 0\<rparr>"

section \<open>Operations\<close>

text \<open>\<open>defaultUrl\<close>: the environment's URL, if there is one.\<close>

definition defaultUrl :: "jstr option \<Rightarrow> jstr" where
  "defaultUrl fromEnv = (case fromEnv of Some u \<Rightarrow> u | None \<Rightarrow> js ''ws://localhost:8080/ws'')"

definition createWsClient :: "ws_world \<Rightarrow> nat \<times> ws_world" where
  "createWsClient w = (next_client w,
     w\<lparr>clients := (clients w)(next_client w := None), next_client := next_client w + 1\<rparr>)"

definition upd_socket :: "nat \<Rightarrow> (ws_socket \<Rightarrow> ws_socket) \<Rightarrow> ws_world \<Rightarrow> ws_world" where
  "upd_socket n f w = w\<lparr>sockets := (sockets w)(n := map_option f (sockets w n))\<rparr>"

definition detach :: "nat \<Rightarrow> ws_world \<Rightarrow> ws_world" where
  "detach n = upd_socket n (\<lambda>s. s\<lparr>handlers := None\<rparr>)"

definition ws_ask :: "nat \<Rightarrow> jstr \<Rightarrow> jsnum option \<Rightarrow> ws_world \<Rightarrow> ws_world \<times> client_call list" where
  "ws_ask c question rounds w =
    (case buildAsk question rounds of
       AskErr e \<Rightarrow> (w, [OnError e])
     | AskOk message \<Rightarrow>
        (case clients w c of
           Some _ \<Rightarrow> (w, [OnError (js ''a debate is already in progress'')])
         | None \<Rightarrow>
            (let n = next_socket w;
                 s = \<lparr>handlers = Some (c, stringify_ask message), sent = [], close_called = False\<rparr>
             in (w\<lparr>sockets := (sockets w)(n := Some s), next_socket := n + 1,
                    clients := (clients w)(c := Some n)\<rparr>,
                 [OnStatus WsConnecting]))))"

definition ws_close :: "nat \<Rightarrow> ws_world \<Rightarrow> ws_world" where
  "ws_close c w =
    (case clients w c of
       None \<Rightarrow> w
     | Some n \<Rightarrow> upd_socket n (\<lambda>s. s\<lparr>close_called := True\<rparr>) w)"

definition ws_dispose :: "nat \<Rightarrow> ws_world \<Rightarrow> ws_world" where
  "ws_dispose c w =
    (case clients w c of
       None \<Rightarrow> w
     | Some dead \<Rightarrow>
        upd_socket dead (\<lambda>s. s\<lparr>close_called := True\<rparr>)
          (detach dead (w\<lparr>clients := (clients w)(c := None)\<rparr>)))"

section \<open>Events the browser delivers to a socket\<close>

definition handlers_of :: "nat \<Rightarrow> ws_world \<Rightarrow> (nat \<times> jstr) option" where
  "handlers_of n w = Option.bind (sockets w n) handlers"

definition socket_send :: "nat \<Rightarrow> jstr \<Rightarrow> ws_world \<Rightarrow> ws_world" where
  "socket_send n m = upd_socket n (\<lambda>s. s\<lparr>sent := sent s @ [m]\<rparr>)"

definition on_open :: "nat \<Rightarrow> ws_world \<Rightarrow> ws_world \<times> client_call list" where
  "on_open n w =
    (case handlers_of n w of
       None \<Rightarrow> (w, [])
     | Some (c, m) \<Rightarrow>
        (case clients w c of None \<Rightarrow> w | Some k \<Rightarrow> socket_send k m w, [OnStatus WsOpen]))"

text \<open>The body of \<open>onmessage\<close>: every frame makes exactly one call.\<close>

definition receive_frame :: "(jstr \<Rightarrow> json option) \<Rightarrow> safe_parser \<Rightarrow> frame \<Rightarrow> client_call" where
  "receive_frame json_parse safe_parse f =
    (case f of
       BinaryFrame \<Rightarrow> OnError (js ''received a non-text frame'')
     | TextFrame data \<Rightarrow>
        if length data > MAX_FRAME_CHARS then OnError (js ''frame too large'')
        else (case parseEvent json_parse safe_parse data of
                ParseErr e \<Rightarrow> OnError e
              | ParseOk event \<Rightarrow> OnEvent event))"

definition on_message ::
    "(jstr \<Rightarrow> json option) \<Rightarrow> safe_parser \<Rightarrow> nat \<Rightarrow> frame \<Rightarrow> ws_world \<Rightarrow> ws_world \<times> client_call list" where
  "on_message json_parse safe_parse n f w =
    (case handlers_of n w of
       None \<Rightarrow> (w, [])
     | Some _ \<Rightarrow> (w, [receive_frame json_parse safe_parse f]))"

definition on_error :: "nat \<Rightarrow> ws_world \<Rightarrow> ws_world \<times> client_call list" where
  "on_error n w = (w, case handlers_of n w of None \<Rightarrow> [] | Some _ \<Rightarrow> [OnStatus WsError])"

definition on_close :: "nat \<Rightarrow> ws_world \<Rightarrow> ws_world \<times> client_call list" where
  "on_close n w =
    (case handlers_of n w of
       None \<Rightarrow> (w, [])
     | Some (c, _) \<Rightarrow>
        ((case clients w c of
            None \<Rightarrow> w
          | Some k \<Rightarrow> (detach k w)\<lparr>clients := (clients w)(c := None)\<rparr>),
         [OnStatus WsClosed]))"

section \<open>All inputs of the store\<close>

text \<open>Only a client that \<open>createWsClient\<close> has returned can be asked.\<close>

datatype socket_event = SockOpen | SockMessage frame | SockError | SockClose

datatype ws_input =
    CreateClient
  | AskInput nat jstr "jsnum option"
  | CloseInput nat
  | DisposeInput nat
  | SocketInput nat socket_event

fun on_socket ::
    "(jstr \<Rightarrow> json option) \<Rightarrow> safe_parser \<Rightarrow> nat \<Rightarrow> socket_event \<Rightarrow> ws_world \<Rightarrow> ws_world \<times> client_call list" where
  "on_socket json_parse safe_parse n SockOpen w = on_open n w"
| "on_socket json_parse safe_parse n (SockMessage f) w = on_message json_parse safe_parse n f w"
| "on_socket json_parse safe_parse n SockError w = on_error n w"
| "on_socket json_parse safe_parse n SockClose w = on_close n w"

fun ws_step :: "(jstr \<Rightarrow> json option) \<Rightarrow> safe_parser \<Rightarrow> ws_world \<Rightarrow> ws_input \<Rightarrow> ws_world" where
  "ws_step json_parse safe_parse w CreateClient = snd (createWsClient w)"
| "ws_step json_parse safe_parse w (AskInput c q r) =
     (if c < next_client w then fst (ws_ask c q r w) else w)"
| "ws_step json_parse safe_parse w (CloseInput c) = ws_close c w"
| "ws_step json_parse safe_parse w (DisposeInput c) = ws_dispose c w"
| "ws_step json_parse safe_parse w (SocketInput n e) = fst (on_socket json_parse safe_parse n e w)"

section \<open>The invariant\<close>

text \<open>A socket with handlers is the one its client holds, and only sockets that exist are held.\<close>

definition ws_inv :: "ws_world \<Rightarrow> bool" where
  "ws_inv w \<longleftrightarrow>
     (\<forall>n c m. handlers_of n w = Some (c, m) \<longrightarrow> clients w c = Some n)
   \<and> (\<forall>n. sockets w n \<noteq> None \<longleftrightarrow> n < next_socket w)
   \<and> (\<forall>c n. clients w c = Some n \<longrightarrow> n < next_socket w)
   \<and> (\<forall>c \<ge> next_client w. clients w c = None)"

lemma handlers_of_upd_socket:
  "handlers_of k (upd_socket n f w) =
    (if k = n then Option.bind (sockets w n) (\<lambda>s. handlers (f s)) else handlers_of k w)"
  by (auto simp: handlers_of_def upd_socket_def split: option.splits bind_splits)

lemma handlers_of_detach: "handlers_of k (detach n w) = (if k = n then None else handlers_of k w)"
  by (auto simp: detach_def handlers_of_upd_socket split: bind_splits)

lemma handlers_of_keep:
  assumes "\<And>s. handlers (f s) = handlers s"
  shows "handlers_of k (upd_socket n f w) = handlers_of k w"
  using assms by (simp add: handlers_of_upd_socket) (simp add: handlers_of_def)

lemma handlers_of_clients [simp]: "handlers_of k (w\<lparr>clients := cs\<rparr>) = handlers_of k w"
  by (simp add: handlers_of_def)

lemma upd_socket_frame [simp]:
  "clients (upd_socket n f w) = clients w" "next_socket (upd_socket n f w) = next_socket w"
  "next_client (upd_socket n f w) = next_client w"
  "sockets (upd_socket n f w) k = None \<longleftrightarrow> sockets w k = None"
  by (auto simp: upd_socket_def)

lemma detach_frame [simp]:
  "clients (detach n w) = clients w" "next_socket (detach n w) = next_socket w"
  "next_client (detach n w) = next_client w" "sockets (detach n w) k = None \<longleftrightarrow> sockets w k = None"
  by (simp_all add: detach_def)

lemma ws_inv_init: "ws_inv ws_init"
  by (simp add: ws_inv_def ws_init_def handlers_of_def)

lemma ws_inv_keep:
  assumes "ws_inv w" "\<And>s. handlers (f s) = handlers s"
  shows "ws_inv (upd_socket n f w)"
  using assms(1) unfolding ws_inv_def by (simp add: handlers_of_keep [OF assms(2)])

lemma ws_inv_create: "ws_inv w \<Longrightarrow> ws_inv (snd (createWsClient w))"
  unfolding ws_inv_def createWsClient_def handlers_of_def by simp fastforce

text \<open>Letting go of a client's socket together with its handlers.\<close>

lemma ws_inv_release:
  assumes "ws_inv w" "clients w c = Some n"
  shows "ws_inv ((detach n w)\<lparr>clients := (clients w)(c := None)\<rparr>)"
  using assms unfolding ws_inv_def by (simp add: handlers_of_detach) (metis option.inject)

lemma ws_dispose_release:
  "clients w c = Some n \<Longrightarrow> ws_dispose c w =
    upd_socket n (\<lambda>s. s\<lparr>close_called := True\<rparr>) ((detach n w)\<lparr>clients := (clients w)(c := None)\<rparr>)"
  by (simp add: ws_dispose_def detach_def upd_socket_def)

lemma ws_inv_dispose: "ws_inv w \<Longrightarrow> ws_inv (ws_dispose c w)"
  by (cases "clients w c")
    (simp_all add: ws_dispose_release ws_inv_keep ws_inv_release, simp add: ws_dispose_def)

lemma handlers_of_new:
  "handlers_of k (w\<lparr>sockets := (sockets w)(n \<mapsto> s), next_socket := m\<rparr>) =
    (if k = n then handlers s else handlers_of k w)"
  by (simp add: handlers_of_def)

lemma ws_inv_ask:
  assumes "ws_inv w" "c < next_client w"
  shows "ws_inv (fst (ws_ask c q r w))"
proof (cases "buildAsk q r")
  case (AskOk m)
  show ?thesis
  proof (cases "clients w c")
    case None
    with assms AskOk show ?thesis
      unfolding ws_inv_def ws_ask_def Let_def
      by (simp add: handlers_of_new) (metis less_Suc_eq nat_neq_iff option.distinct(1))
  qed (simp add: ws_ask_def AskOk assms)
qed (simp add: ws_ask_def assms)

lemma ws_inv_socket: "ws_inv w \<Longrightarrow> ws_inv (fst (on_socket jp sp n e w))"
  by (cases e)
    (auto simp: on_open_def on_message_def on_error_def on_close_def socket_send_def
      intro: ws_inv_keep ws_inv_release split: option.splits)

lemma ws_inv_close: "ws_inv w \<Longrightarrow> ws_inv (ws_close c w)"
  by (auto simp: ws_close_def intro: ws_inv_keep split: option.splits)

lemma ws_inv_step: "ws_inv w \<Longrightarrow> ws_inv (ws_step jp sp w i)"
  by (cases i) (auto simp: ws_inv_create ws_inv_ask ws_inv_close ws_inv_dispose ws_inv_socket)

interpretation ws: step_machine "ws_step jp sp" ws_inv "\<lambda>_. True" for jp sp
  by unfold_locales (rule ws_inv_step)

section \<open>A socket without handlers is silent for good\<close>

lemma handlers_of_step:
  assumes "n < next_socket w" "handlers_of n w = None"
  shows "handlers_of n (ws_step jp sp w i) = None"
proof (cases i)
  case (AskInput c q r)
  then show ?thesis using assms
    by (auto simp: ws_ask_def Let_def handlers_of_new split: build_ask_result.splits option.splits)
next
  case (SocketInput k e)
  then show ?thesis using assms
    by (cases e) (auto simp: on_open_def on_message_def on_error_def on_close_def socket_send_def
        handlers_of_keep handlers_of_detach split: option.splits)
next
  case (DisposeInput c)
  then show ?thesis using assms
    by (auto simp: ws_dispose_def handlers_of_keep handlers_of_detach split: option.splits)
next
  case (CloseInput c)
  then show ?thesis using assms
    by (auto simp: ws_close_def handlers_of_keep split: option.splits)
qed (use assms in \<open>simp add: createWsClient_def handlers_of_def\<close>)

lemma next_socket_step: "next_socket w \<le> next_socket (ws_step jp sp w i)"
proof (cases i)
  case (SocketInput k e)
  then show ?thesis
    by (cases e) (auto simp: on_open_def on_message_def on_error_def on_close_def socket_send_def
        split: option.splits)
qed (auto simp: ws_ask_def Let_def ws_close_def ws_dispose_def createWsClient_def
      split: build_ask_result.splits option.splits)

lemma handlers_of_run:
  "n < next_socket w \<Longrightarrow> handlers_of n w = None \<Longrightarrow> handlers_of n (foldl (ws_step jp sp) w is) = None"
proof (induction "is" arbitrary: w)
  case (Cons i "is")
  then show ?case
    using handlers_of_step [of n w jp sp i] next_socket_step [of w jp sp i] by simp
qed simp

lemma silent_socket: "handlers_of n w = None \<Longrightarrow> on_socket jp sp n e w = (w, [])"
  by (cases e) (simp_all add: on_open_def on_message_def on_error_def on_close_def)

lemma dispose_handlers: "clients w c = Some n \<Longrightarrow> handlers_of n (ws_dispose c w) = None"
  by (simp add: ws_dispose_def handlers_of_keep handlers_of_detach)

lemma dispose_next_socket [simp]: "next_socket (ws_dispose c w) = next_socket w"
  by (simp add: ws_dispose_def split: option.splits)

section \<open>Properties\<close>

text \<open>After \<open>dispose\<close> the socket the client held never calls a callback again, whatever
  else happens: other clients, later asks of the same client, late events of that socket. So
  a superseded session cannot reach the one that replaced it.\<close>

lemma disposed_socket_is_silent:
  assumes "clients (foldl (ws_step jp sp) ws_init before) c = Some n"
  shows "on_socket jp sp n e (foldl (ws_step jp sp) (ws_dispose c (foldl (ws_step jp sp) ws_init before)) after)
    = (foldl (ws_step jp sp) (ws_dispose c (foldl (ws_step jp sp) ws_init before)) after, [])"
proof (rule silent_socket, rule handlers_of_run)
  let ?w = "foldl (ws_step jp sp) ws_init before"
  have "ws_inv ?w" by (rule ws.inv_run [OF ws_inv_init]) (simp add: list_all_iff)
  with assms show "n < next_socket (ws_dispose c ?w)" by (simp add: ws_inv_def)
  show "handlers_of n (ws_dispose c ?w) = None" using assms by (rule dispose_handlers)
qed

text \<open>A client sends exactly one message per socket it opens, on that socket, when it
  opens, and the message is the validated question.\<close>

lemma open_sends_the_ask:
  assumes "c < next_client (foldl (ws_step jp sp) ws_init is)"
    and "clients (foldl (ws_step jp sp) ws_init is) c = None"
    and "buildAsk q r = AskOk m"
  shows "let w = foldl (ws_step jp sp) ws_init is; n = next_socket w;
             w1 = fst (ws_ask c q r w); (w2, calls) = on_open n w1
         in snd (ws_ask c q r w) = [OnStatus WsConnecting] \<and> clients w1 c = Some n
          \<and> calls = [OnStatus WsOpen] \<and> map_option sent (sockets w2 n) = Some [stringify_ask m]
          \<and> (\<forall>k. k \<noteq> n \<longrightarrow> sockets w2 k = sockets w k)"
  using assms
  by (auto simp: ws_ask_def on_open_def handlers_of_def Let_def socket_send_def upd_socket_def)

text \<open>C36. Every frame makes exactly one call, and the connection stays as it was. The call delivers an
  event if and only if the frame is a text of at most 256 Ki code units that parses as that event, which
  is then well formed; in particular an event the backend marshalled arrives as itself. Any other frame is
  an advisory error: it says that the frame is not a text, that it is too large, or why it does not parse.\<close>

theorem frame_is_validated:
  assumes "zod_documented sp" and "handlers_of n w = Some h"
  shows "\<exists>call. on_message jp sp n f w = (w, [call])
     \<and> (\<forall>e. call = OnEvent e \<longleftrightarrow>
          (\<exists>data. f = TextFrame data \<and> length data \<le> 262144 \<and> parseEvent jp sp data = ParseOk e))
     \<and> (\<forall>e. call = OnEvent e \<longrightarrow> wf_event e)
     \<and> (\<forall>data e. f = TextFrame data \<and> length data \<le> 262144 \<and> wf_event e
          \<and> jp data = Some (go_marshal (go_of_event e)) \<longrightarrow> call = OnEvent e)
     \<and> (\<forall>m. call = OnError m \<longleftrightarrow>
          (f = BinaryFrame \<and> m = js ''received a non-text frame'')
          \<or> (\<exists>data. f = TextFrame data \<and> 262144 < length data \<and> m = js ''frame too large'')
          \<or> (\<exists>data. f = TextFrame data \<and> length data \<le> 262144 \<and> parseEvent jp sp data = ParseErr m))
     \<and> (\<forall>st. call \<noteq> OnStatus st)"
proof (intro exI conjI)
  show "on_message jp sp n f w = (w, [receive_frame jp sp f])"
    using assms(2) by (simp add: on_message_def)
  show "\<forall>e. receive_frame jp sp f = OnEvent e \<longrightarrow> wf_event e"
    using parseEvent_Ok_wf [OF assms(1)]
    by (auto simp: receive_frame_def split: frame.splits parse_result.splits if_splits)
  show "\<forall>data e. f = TextFrame data \<and> length data \<le> 262144 \<and> wf_event e
      \<and> jp data = Some (go_marshal (go_of_event e)) \<longrightarrow> receive_frame jp sp f = OnEvent e"
    using parse_marshalled [OF assms(1)] by (auto simp: receive_frame_def MAX_FRAME_CHARS_def)
qed (auto simp: receive_frame_def MAX_FRAME_CHARS_def split: frame.splits parse_result.splits)

theorem frame_is_validated_witness:
  "\<exists>w. snd (on_message (\<lambda>_. None) zod_reference 0 (TextFrame []) w) = [OnError (js ''frame is not valid JSON'')]
    \<and> snd (on_message (\<lambda>_. Some (go_marshal (go_of_event (RoundCompleteEvent 2)))) zod_reference 0 (TextFrame []) w)
      = [OnEvent (RoundCompleteEvent 2)]"
proof -
  let ?w = "ws_init\<lparr>sockets := [0 \<mapsto> \<lparr>handlers = Some (0, []), sent = [], close_called = False\<rparr>]\<rparr>"
  have att: "handlers_of 0 ?w = Some (0, [])" by (simp add: handlers_of_def)
  let ?jp = "\<lambda>_. Some (go_marshal (go_of_event (RoundCompleteEvent 2)))"
  obtain call where call: "on_message (\<lambda>_. None) zod_reference 0 (TextFrame []) ?w = (?w, [call])"
    and error: "\<forall>m. call = OnError m \<longleftrightarrow> (TextFrame [] = BinaryFrame \<and> m = js ''received a non-text frame'')
        \<or> (\<exists>data. TextFrame [] = TextFrame data \<and> 262144 < length data \<and> m = js ''frame too large'')
        \<or> (\<exists>data. TextFrame [] = TextFrame data \<and> length data \<le> 262144 \<and> parseEvent (\<lambda>_. None) zod_reference data = ParseErr m)"
    using frame_is_validated [OF zod_reference_documented att, of "\<lambda>_. None" "TextFrame []"] by (elim exE conjE)
  have "call = OnError (js ''frame is not valid JSON'')" by (subst spec [OF error]) (simp add: parseEvent_def)
  with call have 1: "snd (on_message (\<lambda>_. None) zod_reference 0 (TextFrame []) ?w) = [OnError (js ''frame is not valid JSON'')]"
    by simp
  obtain call where call: "on_message ?jp zod_reference 0 (TextFrame []) ?w = (?w, [call])"
    and event: "\<forall>data e. TextFrame [] = TextFrame data \<and> length data \<le> 262144 \<and> wf_event e
        \<and> ?jp data = Some (go_marshal (go_of_event e)) \<longrightarrow> call = OnEvent e"
    using frame_is_validated [OF zod_reference_documented att, of ?jp "TextFrame []"] by (elim exE conjE)
  have "call = OnEvent (RoundCompleteEvent 2)"
    by (rule event [rule_format, of "[]"]) (simp add: MAX_WIRE_ROUND_def MAX_ROUNDS_def)
  with call 1 show ?thesis by auto
qed

end
