(* ===== verification/Debate_Reducer.thy ===== *)
theory Debate_Reducer
  imports Ws_Client
begin

text \<open>
  \<open>state/debateReducer.ts\<close>: the pure function every view's state comes from. A persona's rounds
  are an association list from round to text, as \<open>Object.keys\<close> of them is read by the views;
  the transcript itself is a function on the ids, \<open>None\<close> for an absent key.
\<close>

section \<open>State and inputs\<close>

datatype debate_phase =
  PhIdle | PhConnecting | PhDebating | PhModerating | PhDone | PhStopped | PhError

record debate_error =
  de_persona :: "persona_id option"
  de_message :: jstr

type_synonym rounds_text = "(nat \<times> jstr) list"
type_synonym transcript = "persona_id \<Rightarrow> rounds_text option"

record debate_state =
  phase :: debate_phase
  currentRound :: nat
  transcript :: transcript
  activeSpeakers :: "persona_id list"
  verdict :: jstr
  errors :: "debate_error list"

datatype debate_input =
    Wire debate_event
  | StatusInput ws_status
  | TransportInput jstr
  | CancelInput

definition MAX_ERRORS :: nat where "MAX_ERRORS = 50"
definition MAX_CELL_CHARS :: nat where "MAX_CELL_CHARS = 200000"

definition initialState :: debate_state where
  "initialState = \<lparr>phase = PhIdle, currentRound = 0, transcript = (\<lambda>_. None), activeSpeakers = [],
     verdict = [], errors = []\<rparr>"

definition TERMINAL :: "debate_phase set" where
  "TERMINAL = {PhDone, PhStopped, PhError}"

section \<open>The reducer\<close>

definition withActive :: "persona_id list \<Rightarrow> persona_id \<Rightarrow> persona_id list" where
  "withActive active p = (if p \<in> set active then active else active @ [p])"

definition withoutActive :: "persona_id list \<Rightarrow> persona_id \<Rightarrow> persona_id list" where
  "withoutActive active p = filter (\<lambda>q. q \<noteq> p) active"

definition withError :: "debate_error list \<Rightarrow> debate_error \<Rightarrow> debate_error list" where
  "withError errs err =
    (let next = errs @ [err]
     in if length next > MAX_ERRORS then drop (length next - MAX_ERRORS) next else next)"

definition appendDelta :: "transcript \<Rightarrow> persona_id \<Rightarrow> nat \<Rightarrow> jstr \<Rightarrow> transcript" where
  "appendDelta t p r delta =
    (let personaRounds = (case t p of None \<Rightarrow> [] | Some rs \<Rightarrow> rs);
         existing = (case map_of personaRounds r of None \<Rightarrow> [] | Some x \<Rightarrow> x);
         combined = existing @ delta;
         capped = (if length combined > MAX_CELL_CHARS then take MAX_CELL_CHARS combined else combined)
     in t(p := Some (AList.update r capped personaRounds)))"

fun reduceStatus :: "debate_state \<Rightarrow> ws_status \<Rightarrow> debate_state" where
  "reduceStatus state WsConnecting = initialState\<lparr>phase := PhConnecting\<rparr>"
| "reduceStatus state WsClosed =
    (if phase state \<in> TERMINAL then state
     else state\<lparr>phase := PhError, activeSpeakers := [],
       errors := withError (errors state)
         \<lparr>de_persona = None, de_message = js ''connection closed before a verdict''\<rparr>\<rparr>)"
| "reduceStatus state _ = state"

fun reduceEvent :: "debate_state \<Rightarrow> debate_event \<Rightarrow> debate_state" where
  "reduceEvent state (TokenEvent p r delta) =
     state\<lparr>phase := (if p = Moderator then PhModerating else PhDebating),
       currentRound := r,
       transcript := appendDelta (transcript state) p r delta,
       activeSpeakers := withActive (activeSpeakers state) p\<rparr>"
| "reduceEvent state (PersonaDoneEvent p r) =
     state\<lparr>activeSpeakers := withoutActive (activeSpeakers state) p\<rparr>"
| "reduceEvent state (RoundCompleteEvent r) = state\<lparr>currentRound := r\<rparr>"
| "reduceEvent state (VerdictEvent v) =
     state\<lparr>phase := PhDone, verdict := v,
       activeSpeakers := withoutActive (activeSpeakers state) Moderator\<rparr>"
| "reduceEvent state (ErrorEvent e) =
    (let terminal = (ee_persona e = None \<or> ee_persona e = Some Moderator);
         active = (if terminal then [] else withoutActive (activeSpeakers state) (the (ee_persona e)));
         errs = withError (errors state)
           \<lparr>de_persona = ee_persona e,
            de_message = (if ee_error e = [] then js ''an error occurred'' else ee_error e)\<rparr>
     in state\<lparr>phase := (if terminal then PhError else phase state), activeSpeakers := active, errors := errs\<rparr>)"

fun reduceControl :: "debate_state \<Rightarrow> debate_input \<Rightarrow> debate_state" where
  "reduceControl state (TransportInput m) =
     state\<lparr>errors := withError (errors state) \<lparr>de_persona = None, de_message = m\<rparr>\<rparr>"
| "reduceControl state CancelInput =
     (if phase state \<in> TERMINAL then state else state\<lparr>phase := PhStopped, activeSpeakers := []\<rparr>)"
| "reduceControl state (StatusInput st) = reduceStatus state st"
| "reduceControl state (Wire e) = state"

fun debateReducer :: "debate_state \<Rightarrow> debate_input \<Rightarrow> debate_state" where
  "debateReducer state (Wire e) = reduceEvent state e"
| "debateReducer state i = reduceControl state i"

text \<open>\<open>buildState\<close> of the tests: a run from the initial state.\<close>

definition buildState :: "debate_input list \<Rightarrow> debate_state" where
  "buildState inputs = foldl debateReducer initialState inputs"

section \<open>Cells of the transcript\<close>

definition cell :: "transcript \<Rightarrow> persona_id \<Rightarrow> nat \<Rightarrow> jstr" where
  "cell t p r = (case t p of None \<Rightarrow> [] | Some rs \<Rightarrow> (case map_of rs r of None \<Rightarrow> [] | Some x \<Rightarrow> x))"

lemma cell_appendDelta [store_simps]:
  "cell (appendDelta t p r d) q k = (if q = p \<and> k = r then take MAX_CELL_CHARS (cell t p r @ d) else cell t q k)"
  by (simp add: cell_def appendDelta_def Let_def AList.update_conv' cap_cut split: option.splits)

interpretation cells: text_store cell appendDelta MAX_CELL_CHARS
  by unfold_locales (rule cell_appendDelta)

lemma appendDelta_apply: "appendDelta t p r d q =
    (if q = p then Some (AList.update r (take MAX_CELL_CHARS (cell t p r @ d)) (case t p of None \<Rightarrow> [] | Some rs \<Rightarrow> rs)) else t q)"
  by (simp add: cell_def appendDelta_def Let_def cap_cut split: option.splits)

lemma appendDelta_append [simp]:
  "appendDelta (appendDelta t p r d) p r d' = appendDelta t p r (d @ d')"
  by (rule ext) (simp add: appendDelta_apply cell_appendDelta del: take_append)

section \<open>Bounds and coherence\<close>

fun ok_input :: "debate_input \<Rightarrow> bool" where
  "ok_input (Wire e) = wf_event e"
| "ok_input _ = True"

definition rounds_ok :: "rounds_text \<Rightarrow> bool" where
  "rounds_ok rs \<longleftrightarrow> distinct (map fst rs) \<and> rs \<noteq> [] \<and> fst ` set rs \<subseteq> {1..MAX_WIRE_ROUND}"

lemma rounds_ok_update:
  "1 \<le> r \<Longrightarrow> r \<le> MAX_WIRE_ROUND \<Longrightarrow> rs = [] \<or> rounds_ok rs \<Longrightarrow> rounds_ok (AList.update r x rs)"
  unfolding rounds_ok_def by (auto simp only: distinct_update dom_update update_nonempty) auto

definition reducer_inv :: "debate_state \<Rightarrow> bool" where
  "reducer_inv s \<longleftrightarrow>
     length (errors s) \<le> MAX_ERRORS
   \<and> (\<forall>p r. length (cell (transcript s) p r) \<le> MAX_CELL_CHARS)
   \<and> (\<forall>p rs. transcript s p = Some rs \<longrightarrow> rounds_ok rs)
   \<and> distinct (activeSpeakers s)
   \<and> (\<forall>p\<in>set (activeSpeakers s). transcript s p \<noteq> None)
   \<and> (phase s \<in> {PhDebating, PhModerating} \<longrightarrow> 1 \<le> currentRound s)
   \<and> currentRound s \<le> MAX_WIRE_ROUND"

lemma length_withError: "length (withError errs e) \<le> MAX_ERRORS"
  by (simp add: withError_def Let_def MAX_ERRORS_def)

lemma withError_last: "withError errs e \<noteq> [] \<and> last (withError errs e) = e"
  by (simp add: withError_def Let_def MAX_ERRORS_def last_drop)

lemma set_withActive [simp]: "set (withActive a p) = insert p (set a)"
  by (auto simp: withActive_def)

lemma distinct_withActive [simp]: "distinct (withActive a p) = distinct a"
  by (auto simp: withActive_def)

lemma set_withoutActive [simp]: "set (withoutActive a p) = set a - {p}"
  by (auto simp: withoutActive_def)

lemma distinct_withoutActive [simp]: "distinct a \<Longrightarrow> distinct (withoutActive a p)"
  by (simp add: withoutActive_def)

lemma reducer_inv_initial: "reducer_inv initialState"
  by (simp add: reducer_inv_def initialState_def cell_def)

lemma reducer_inv_appendDelta:
  assumes "reducer_inv s" "1 \<le> r" "r \<le> MAX_WIRE_ROUND"
  shows "\<forall>p' r'. length (cell (appendDelta (transcript s) p r d) p' r') \<le> MAX_CELL_CHARS"
    "\<forall>q rs. appendDelta (transcript s) p r d q = Some rs \<longrightarrow> rounds_ok rs"
proof -
  from assms(1) have cells: "\<forall>p r. length (cell (transcript s) p r) \<le> MAX_CELL_CHARS"
    and rounds: "\<forall>p rs. transcript s p = Some rs \<longrightarrow> rounds_ok rs"
    by (simp_all add: reducer_inv_def)
  from cells show "\<forall>p' r'. length (cell (appendDelta (transcript s) p r d) p' r') \<le> MAX_CELL_CHARS"
    by (simp add: cells.capped_app)
  have "(case transcript s p of None \<Rightarrow> [] | Some rs \<Rightarrow> rs) = [] \<or> rounds_ok (case transcript s p of None \<Rightarrow> [] | Some rs \<Rightarrow> rs)"
    using rounds by (simp split: option.splits)
  from rounds_ok_update [OF assms(2,3) this] rounds
  show "\<forall>q rs. appendDelta (transcript s) p r d q = Some rs \<longrightarrow> rounds_ok rs"
    by (simp add: appendDelta_apply)
qed

lemma reducer_inv_step:
  assumes "reducer_inv s" "ok_input i"
  shows "reducer_inv (debateReducer s i)"
proof (cases i)
  case (Wire e)
  show ?thesis
  proof (cases e)
    case (TokenEvent p r d)
    with assms Wire have r: "1 \<le> r" "r \<le> MAX_WIRE_ROUND" by auto
    have "\<forall>q\<in>insert p (set (activeSpeakers s)). appendDelta (transcript s) p r d q \<noteq> None"
      using assms(1) by (auto simp: appendDelta_apply reducer_inv_def)
    with reducer_inv_appendDelta [OF assms(1) r] assms(1) r show ?thesis
      by (simp add: Wire TokenEvent reducer_inv_def)
  next
    case (VerdictEvent v)
    with assms(1) Wire show ?thesis by (simp add: reducer_inv_def)
  next
    case (ErrorEvent e)
    with assms(1) Wire show ?thesis by (auto simp: reducer_inv_def Let_def length_withError)
  qed (use assms Wire in \<open>auto simp: reducer_inv_def\<close>)
next
  case (StatusInput st)
  then show ?thesis using assms(1) reducer_inv_initial
    by (cases st) (auto simp: reducer_inv_def length_withError)
qed (use assms(1) in \<open>auto simp: reducer_inv_def length_withError\<close>)

interpretation reducer: step_machine debateReducer reducer_inv ok_input
  by unfold_locales (rule reducer_inv_step)

section \<open>What the transcript holds\<close>

text \<open>The deltas an input sequence carries for one cell, and whether it starts a session.\<close>

fun deltas_for :: "persona_id \<Rightarrow> nat \<Rightarrow> debate_input list \<Rightarrow> jstr list" where
  "deltas_for p r [] = []"
| "deltas_for p r (Wire (TokenEvent q k d) # is) =
     (if q = p \<and> k = r then d # deltas_for p r is else deltas_for p r is)"
| "deltas_for p r (i # is) = deltas_for p r is"

lemma deltas_for_append: "deltas_for p r (is @ ks) = deltas_for p r is @ deltas_for p r ks"
  by (induction p r "is" rule: deltas_for.induct) auto

lemma transcript_step:
  "i \<noteq> StatusInput WsConnecting \<Longrightarrow> cell (transcript (debateReducer s i)) p r =
    (case i of Wire (TokenEvent q k d) \<Rightarrow>
       if q = p \<and> k = r then take MAX_CELL_CHARS (cell (transcript s) p r @ d) else cell (transcript s) p r
     | _ \<Rightarrow> cell (transcript s) p r)"
proof (cases i)
  case (Wire e)
  then show ?thesis by (cases e) (auto simp: store_simps Let_def)
next
  case (StatusInput st)
  then show "i \<noteq> StatusInput WsConnecting \<Longrightarrow> ?thesis" by (cases st) auto
qed auto

lemma transcript_run:
  "StatusInput WsConnecting \<notin> set is \<Longrightarrow> length (cell (transcript s) p r) \<le> MAX_CELL_CHARS \<Longrightarrow>
   cell (transcript (foldl debateReducer s is)) p r =
     take MAX_CELL_CHARS (cell (transcript s) p r @ concat (deltas_for p r is))"
proof (induction "is" arbitrary: s)
  case (Cons i "is")
  let ?c = "cell (transcript (debateReducer s i)) p r"
  have i: "?c = take MAX_CELL_CHARS (cell (transcript s) p r @ concat (deltas_for p r [i]))"
    using Cons.prems
    by (subst transcript_step) (auto split: debate_input.splits debate_event.splits simp del: take_append)
  then have "length ?c \<le> MAX_CELL_CHARS" by (simp del: take_append)
  with Cons.IH [OF _ this] Cons.prems(1) i show ?case
    using deltas_for_append [of p r "[i]" "is"] by (simp del: take_append)
qed simp

section \<open>Properties\<close>

text \<open>C30. Whatever arrives, in whatever order, the debate state stays bounded and coherent: at
  most 50 errors, no cell over 200000 code units, no speaker listed twice, every active
  speaker has spoken, rounds between 1 and 9 as soon as a debate runs.\<close>

theorem debate_state_bounded:
  assumes "list_all ok_input inputs"
  shows "let s = buildState inputs in
      length (errors s) \<le> 50
    \<and> (\<forall>p r. length (cell (transcript s) p r) \<le> 200000)
    \<and> distinct (activeSpeakers s)
    \<and> (\<forall>p\<in>set (activeSpeakers s). transcript s p \<noteq> None)
    \<and> (phase s \<in> {PhDebating, PhModerating} \<longrightarrow> 1 \<le> currentRound s)
    \<and> currentRound s \<le> 9"
  using reducer.inv_run [OF reducer_inv_initial assms]
  unfolding buildState_def reducer_inv_def Let_def MAX_ERRORS_def MAX_CELL_CHARS_def
    MAX_WIRE_ROUND_def MAX_ROUNDS_def by simp

theorem debate_state_bounded_witness:
  "distinct (activeSpeakers (buildState [Wire (TokenEvent Expert 1 []), Wire (TokenEvent Expert 1 [])]))"
  using debate_state_bounded [of "[Wire (TokenEvent Expert 1 []), Wire (TokenEvent Expert 1 [])]"]
  by (simp add: Let_def MAX_WIRE_ROUND_def MAX_ROUNDS_def)

text \<open>C31. A cell of the transcript is the concatenation of the deltas of its persona and round
  since the session began, cut off at the cap; how the personas' tokens interleave does not
  matter.\<close>

theorem transcript_is_the_tokens:
  assumes "StatusInput WsConnecting \<notin> set inputs"
  shows "cell (transcript (foldl debateReducer initialState (before @ StatusInput WsConnecting # inputs))) p r
    = take 200000 (concat (deltas_for p r inputs))"
proof -
  let ?s = "debateReducer (foldl debateReducer initialState before) (StatusInput WsConnecting)"
  have "cell (transcript ?s) p r = []" by (simp add: initialState_def cell_def)
  with transcript_run [OF assms, of ?s p r] show ?thesis
    by (simp add: MAX_CELL_CHARS_def)
qed

theorem transcript_is_the_tokens_witness:
  "cell (transcript (foldl debateReducer initialState
     [StatusInput WsConnecting, Wire (TokenEvent Expert 1 (js ''a'')), Wire (TokenEvent Skeptic 1 (js ''x'')),
      Wire (TokenEvent Expert 1 (js ''b''))])) Expert 1 = js ''ab''"
  using transcript_is_the_tokens [of "[Wire (TokenEvent Expert 1 (js ''a'')), Wire (TokenEvent Skeptic 1 (js ''x'')),
      Wire (TokenEvent Expert 1 (js ''b''))]" "[]" Expert 1]
  by (simp add: js_def)

text \<open>How a session ends: a socket error followed by a close, which the browser fires at
  the end of every session, leaves a finished, stopped or failed debate untouched and turns
  any other into a failed one with nobody speaking and the reason as its last error.\<close>

theorem close_ends_unfinished_debates_only:
  "let s' = foldl debateReducer s [StatusInput WsError, StatusInput WsClosed] in
   if phase s \<in> {PhDone, PhStopped, PhError} then s' = s
   else phase s' = PhError \<and> activeSpeakers s' = [] \<and> errors s' \<noteq> []
     \<and> last (errors s') = \<lparr>de_persona = None, de_message = js ''connection closed before a verdict''\<rparr>
     \<and> transcript s' = transcript s \<and> verdict s' = verdict s"
  by (simp add: Let_def TERMINAL_def withError_last)

text \<open>One persona's failure does not end the debate: the phase, the other speakers and the
  transcript stay; the failure is recorded last. A session-level or moderator failure ends it.\<close>

lemma persona_error_is_not_fatal:
  "let s' = debateReducer s (Wire (ErrorEvent e)) in
   errors s' \<noteq> [] \<and> de_persona (last (errors s')) = ee_persona e \<and> transcript s' = transcript s
   \<and> (case ee_persona e of
        Some p \<Rightarrow> (if p = Moderator then phase s' = PhError \<and> activeSpeakers s' = []
                   else phase s' = phase s \<and> set (activeSpeakers s') = set (activeSpeakers s) - {p})
      | None \<Rightarrow> phase s' = PhError \<and> activeSpeakers s' = [])"
  by (simp add: Let_def withError_last split: option.splits)

end
