(* ===== verification/Stage_Hooks.thy ===== *)
theory Stage_Hooks
  imports Debate_Reducer
begin

text \<open>
  The hooks that watch the phase or a media query: \<open>state/useVerdictSpotlight.ts\<close>,
  \<open>three/useStageFrameloop.ts\<close>, \<open>hooks/useMediaQuery.ts\<close> and \<open>hooks/usePrefersReducedMotion.ts\<close>.
  A hook's state is a record of its \<open>useState\<close> and \<open>useRef\<close> cells; a function on the record is
  one run of its effect, of a callback it returns, or of a timer it armed. React runs an
  effect after the commits in which one of its dependencies changed, and after the first.
\<close>

section \<open>The verdict spotlight\<close>

definition MODERATOR_PHASES :: "debate_phase set" where
  "MODERATOR_PHASES = {PhModerating, PhDone}"

record spotlight =
  sl_open :: bool
  sl_prevPhase :: debate_phase

definition useVerdictSpotlight :: "debate_phase \<Rightarrow> spotlight" where
  "useVerdictSpotlight ph = \<lparr>sl_open = False, sl_prevPhase = ph\<rparr>"

definition spotlight_effect :: "debate_phase \<Rightarrow> spotlight \<Rightarrow> spotlight" where
  "spotlight_effect ph h =
    (let enteredModeratorFlow = (sl_prevPhase h \<notin> MODERATOR_PHASES \<and> ph \<in> MODERATOR_PHASES)
     in h\<lparr>sl_open := (enteredModeratorFlow \<or> sl_open h), sl_prevPhase := ph\<rparr>)"

definition spotlight_dismiss :: "spotlight \<Rightarrow> spotlight" where
  "spotlight_dismiss h = h\<lparr>sl_open := False\<rparr>"

text \<open>The panel of \<open>MobileLayout\<close> is mounted on this condition.\<close>

definition showVerdict :: "debate_phase \<Rightarrow> spotlight \<Rightarrow> bool" where
  "showVerdict ph h \<longleftrightarrow> sl_open h \<and> ph = PhDone"

text \<open>A dismissed panel stays dismissed for as long as the moderator keeps the floor.\<close>

lemma dismissed_stays_dismissed:
  assumes "sl_prevPhase h \<in> MODERATOR_PHASES" "set phs \<subseteq> MODERATOR_PHASES"
  shows "\<not> sl_open (foldl (\<lambda>h ph. spotlight_effect ph h) (spotlight_dismiss h) phs)"
proof -
  have "\<not> sl_open (foldl (\<lambda>h ph. spotlight_effect ph h) h' phs)"
    if "\<not> sl_open h'" "sl_prevPhase h' \<in> MODERATOR_PHASES" for h'
    using that assms(2) by (induction phs arbitrary: h') (auto simp: spotlight_effect_def)
  with assms(1) show ?thesis by (simp add: spotlight_dismiss_def)
qed

lemma spotlight_opens:
  "sl_prevPhase h \<notin> MODERATOR_PHASES \<Longrightarrow> ph \<in> MODERATOR_PHASES \<Longrightarrow> sl_open (spotlight_effect ph h)"
  by (simp add: spotlight_effect_def)

section \<open>The stage's frame loop\<close>

definition ACTIVE_PHASES :: "debate_phase set" where
  "ACTIVE_PHASES = {PhConnecting, PhDebating, PhModerating}"

definition SETTLE_MS :: nat where "SETTLE_MS = 1200"

datatype frameloop_mode = Always | Demand

definition modeFor :: "debate_phase \<Rightarrow> frameloop_mode" where
  "modeFor ph = (if ph \<in> ACTIVE_PHASES then Always else if ph = PhIdle then Demand else Always)"

text \<open>\<open>fl_timeout\<close> is the delay the pending timeout was armed with.\<close>

record frameloop =
  fl_mode :: frameloop_mode
  fl_timeout :: "nat option"

definition useStageFrameloop :: "debate_phase \<Rightarrow> frameloop" where
  "useStageFrameloop ph = \<lparr>fl_mode = modeFor ph, fl_timeout = None\<rparr>"

definition frameloop_effect :: "debate_phase \<Rightarrow> frameloop \<Rightarrow> frameloop" where
  "frameloop_effect ph h =
    (let h1 = h\<lparr>fl_timeout := None\<rparr>
     in if ph \<in> ACTIVE_PHASES \<or> ph = PhIdle then h1\<lparr>fl_mode := modeFor ph\<rparr>
        else h1\<lparr>fl_mode := Always, fl_timeout := Some SETTLE_MS\<rparr>)"

definition frameloop_timeout :: "frameloop \<Rightarrow> frameloop" where
  "frameloop_timeout h = (if fl_timeout h = None then h else h\<lparr>fl_mode := Demand, fl_timeout := None\<rparr>)"

text \<open>A mounted hook: the effect runs for every new phase, the timeout may fire between.\<close>

datatype frameloop_event = PhaseBecomes debate_phase | SettleTimeout

fun frameloop_next :: "debate_phase \<times> frameloop \<Rightarrow> frameloop_event \<Rightarrow> debate_phase \<times> frameloop" where
  "frameloop_next (ph, h) (PhaseBecomes ph') = (ph', if ph' = ph then h else frameloop_effect ph' h)"
| "frameloop_next (ph, h) SettleTimeout = (ph, frameloop_timeout h)"

definition frameloop_inv :: "debate_phase \<times> frameloop \<Rightarrow> bool" where
  "frameloop_inv x \<longleftrightarrow>
     (fst x \<in> ACTIVE_PHASES \<longrightarrow> fl_mode (snd x) = Always \<and> fl_timeout (snd x) = None)
   \<and> (fst x = PhIdle \<longrightarrow> fl_mode (snd x) = Demand \<and> fl_timeout (snd x) = None)
   \<and> (fst x \<in> TERMINAL \<longrightarrow> (fl_mode (snd x) = Always \<longleftrightarrow> fl_timeout (snd x) = Some SETTLE_MS))"

lemma phase_kinds: "ph \<in> ACTIVE_PHASES \<or> ph = PhIdle \<or> ph \<in> TERMINAL"
  "ph \<in> ACTIVE_PHASES \<Longrightarrow> ph \<notin> TERMINAL" "PhIdle \<notin> ACTIVE_PHASES" "PhIdle \<notin> TERMINAL"
  by (cases ph; simp add: ACTIVE_PHASES_def TERMINAL_def)+

lemma frameloop_mounted: "frameloop_inv (ph, frameloop_effect ph (useStageFrameloop ph))"
  using phase_kinds
  by (auto simp: frameloop_inv_def frameloop_effect_def useStageFrameloop_def modeFor_def Let_def)

interpretation stage_loop: step_machine frameloop_next frameloop_inv "\<lambda>_. True"
proof unfold_locales
  fix x e
  assume "frameloop_inv x"
  then show "frameloop_inv (frameloop_next x e)"
    using phase_kinds
    by (cases x; cases e)
      (auto simp: frameloop_inv_def frameloop_effect_def frameloop_timeout_def modeFor_def Let_def)
qed

text \<open>The canvas renders continuously while anything moves, and sleeps once the settle window of
  an ended debate is over.\<close>

lemma frameloop_awake:
  assumes "foldl frameloop_next (ph, frameloop_effect ph (useStageFrameloop ph)) es = (ph', h)"
  shows "ph' \<in> ACTIVE_PHASES \<Longrightarrow> fl_mode h = Always"
    and "ph' \<in> TERMINAL \<Longrightarrow> fl_mode (frameloop_timeout h) = Demand"
proof -
  have "list_all (\<lambda>_. True) es" by (simp add: list_all_iff)
  from stage_loop.inv_run [OF frameloop_mounted [of ph] this] assms have "frameloop_inv (ph', h)" by simp
  then show "ph' \<in> ACTIVE_PHASES \<Longrightarrow> fl_mode h = Always"
    and "ph' \<in> TERMINAL \<Longrightarrow> fl_mode (frameloop_timeout h) = Demand"
    by (cases "fl_mode h"; auto simp: frameloop_inv_def frameloop_timeout_def)+
qed

section \<open>Media queries\<close>

text \<open>\<open>window.matchMedia\<close> is the browser's: what the query matches at a given time, \<open>None\<close> where
  the API is missing.\<close>

definition useMediaQuery_init :: "bool option \<Rightarrow> bool" where
  "useMediaQuery_init mql = (case mql of None \<Rightarrow> False | Some m \<Rightarrow> m)"

definition useMediaQuery_sync :: "bool option \<Rightarrow> bool \<Rightarrow> bool" where
  "useMediaQuery_sync mql matches = (case mql of None \<Rightarrow> matches | Some m \<Rightarrow> m)"

text \<open>The hook after the effect ran and after any number of \<open>change\<close> events is the query's
  current value, or \<open>False\<close> without the API.\<close>

lemma media_query_tracks:
  "useMediaQuery_sync (Some m) b = m"
  "foldl (\<lambda>b m. useMediaQuery_sync m b) (useMediaQuery_init None) (replicate n None) = False"
  by (induction n) (simp_all add: useMediaQuery_sync_def useMediaQuery_init_def)

section \<open>Reduced motion\<close>

text \<open>Whether each query matches, or \<open>None\<close> without a window or its \<open>matchMedia\<close>. The player and the
  smooth text read the preference when they start, the stage keeps up with it; they agree on it.\<close>

type_synonym media = "(string \<Rightarrow> bool) option"

definition matchMediaSafe :: "media \<Rightarrow> string \<Rightarrow> bool option" where
  "matchMediaSafe w query = map_option (\<lambda>m. m query) w"

definition REDUCE_QUERY :: string where
  "REDUCE_QUERY = ''(prefers-reduced-motion: reduce)''"

definition usePrefersReducedMotion :: "media \<Rightarrow> bool" where
  "usePrefersReducedMotion w = useMediaQuery_init (matchMediaSafe w REDUCE_QUERY)"

definition player_prefersReducedMotion :: "media \<Rightarrow> bool" where
  "player_prefersReducedMotion w = (w \<noteq> None \<and> the w ''(prefers-reduced-motion: reduce)'')"

definition text_prefersReducedMotion :: "media \<Rightarrow> bool" where
  "text_prefersReducedMotion w = (w \<noteq> None \<and> the w ''(prefers-reduced-motion: reduce)'')"

lemma one_motion_preference:
  "usePrefersReducedMotion w = player_prefersReducedMotion w"
  "text_prefersReducedMotion w = player_prefersReducedMotion w"
  by (auto simp: usePrefersReducedMotion_def useMediaQuery_init_def matchMediaSafe_def REDUCE_QUERY_def
      player_prefersReducedMotion_def text_prefersReducedMotion_def split: option.split)

end
