(* ===== verification/Dom.thy ===== *)
theory Dom
  imports Protocol
begin

text \<open>
  What a component renders: a tree of elements with the attributes that mean something to a
  reader, a screen reader or the keyboard. Class names and the style sheet are left out; the
  \<open>--accent\<close> custom property is kept, as it is data. A handler is the value the parent passed,
  so that \<open>'a\<close> is whatever the mounted tree can ask its owner to do.

  \<open>{cond && x}\<close> in the source is \<open>if cond then [x] else []\<close> here.
\<close>

section \<open>Trees\<close>

datatype 'a attr =
    Role string
  | AriaLabel jstr
  | AriaHidden
  | AriaLive string
  | AriaAtomic bool
  | AriaPressed bool
  | AriaInvalid bool
  | AriaModal
  | Inert
  | Disabled
  | Title jstr
  | Accent string
  | DataActive bool
  | DataDimmed bool
  | TabIndex int
  | TextValue jstr
  | Placeholder jstr
  | Href jstr
  | LinkTarget string
  | Rel string
  | NumValue nat
  | OnClick 'a
  | OnSubmit 'a
  | OnCtrlEnter 'a
  | OnInput "jstr \<Rightarrow> 'a"
  | OnSelect "nat \<Rightarrow> 'a"

datatype 'a node = Txt jstr | El string "'a attr list" "'a node list"

fun text_of :: "'a node \<Rightarrow> jstr" where
  "text_of (Txt t) = t"
| "text_of (El tag ats ns) = concat (map text_of ns)"

fun subnodes :: "'a node \<Rightarrow> 'a node list" where
  "subnodes (Txt t) = [Txt t]"
| "subnodes (El tag ats ns) = El tag ats ns # concat (map subnodes ns)"

text \<open>What the user can set off: an \<open>inert\<close> subtree takes no events, a disabled control neither; a
  text field takes any text, a \<open>select\<close> the values of its options.\<close>

fun option_value :: "'a node \<Rightarrow> nat set" where
  "option_value (El tag ats ns) = {v. NumValue v \<in> set ats}"
| "option_value (Txt t) = {}"

fun fires :: "nat set \<Rightarrow> 'a attr \<Rightarrow> 'a set" where
  "fires vs (OnClick a) = {a}"
| "fires vs (OnSubmit a) = {a}"
| "fires vs (OnCtrlEnter a) = {a}"
| "fires vs (OnInput f) = range f"
| "fires vs (OnSelect f) = f ` vs"
| "fires vs _ = {}"

definition is_inert :: "'a attr list \<Rightarrow> bool" where
  "is_inert ats \<longleftrightarrow> list_ex (\<lambda>a. case a of Inert \<Rightarrow> True | _ \<Rightarrow> False) ats"

definition is_disabled :: "'a attr list \<Rightarrow> bool" where
  "is_disabled ats \<longleftrightarrow> list_ex (\<lambda>a. case a of Disabled \<Rightarrow> True | _ \<Rightarrow> False) ats"

lemma is_inert_simps [simp]: "\<not> is_inert []" "is_inert (a # ats) \<longleftrightarrow> a = Inert \<or> is_inert ats"
  "is_inert (xs @ ys) \<longleftrightarrow> is_inert xs \<or> is_inert ys"
  by (simp_all add: is_inert_def split: attr.split)

lemma is_disabled_simps [simp]: "\<not> is_disabled []" "is_disabled (a # ats) \<longleftrightarrow> a = Disabled \<or> is_disabled ats"
  "is_disabled (xs @ ys) \<longleftrightarrow> is_disabled xs \<or> is_disabled ys"
  by (simp_all add: is_disabled_def split: attr.split)

fun actions :: "'a node \<Rightarrow> 'a set" where
  "actions (Txt t) = {}"
| "actions (El tag ats ns) =
     (if is_inert ats then {}
      else (if is_disabled ats then {} else \<Union> (fires (\<Union> (option_value ` set ns)) ` set ats)) \<union> \<Union> (actions ` set ns))"

definition actions_of :: "'a node list \<Rightarrow> 'a set" where
  "actions_of ns = \<Union> (actions ` set ns)"

lemma actions_of_simps [simp]:
  "actions_of [] = {}" "actions_of (n # ns) = actions n \<union> actions_of ns"
  "actions_of (ns @ ms) = actions_of ns \<union> actions_of ms"
  "actions_of (if b then ns else ms) = (if b then actions_of ns else actions_of ms)"
  by (simp_all add: actions_of_def)

lemma actions_El [simp]:
  "actions (El tag ats ns) =
     (if is_inert ats then {}
      else (if is_disabled ats then {} else \<Union> (fires (\<Union> (option_value ` set ns)) ` set ats)) \<union> actions_of ns)"
  by (simp add: actions_of_def)

declare actions.simps(2) [simp del]

lemma self_subnode [simp]: "n \<in> set (subnodes n)"
  by (cases n) simp_all

lemma child_subnode: "m \<in> set ns \<Longrightarrow> n \<in> set (subnodes m) \<Longrightarrow> n \<in> set (subnodes (El tag ats ns))"
  by auto

definition says :: "jstr \<Rightarrow> 'a node list" where
  "says t = (if t = [] then [] else [Txt t])"

lemma text_says [simp]: "concat (map text_of (says t)) = t"
  by (simp add: says_def)

lemma actions_says [simp]: "actions_of (says t) = {}"
  by (simp add: says_def)

section \<open>Characters outside ASCII\<close>

definition ELLIPSIS :: jstr where "ELLIPSIS = [0x2026]"
definition MIDDLE_DOT :: jstr where "MIDDLE_DOT = [0xB7]"
definition APOSTROPHE :: jstr where "APOSTROPHE = [0x2019]"
definition EM_DASH :: jstr where "EM_DASH = [0x2014]"
definition WARNING_SIGN :: jstr where "WARNING_SIGN = [0x26A0]"
definition CROSS_MARK :: jstr where "CROSS_MARK = [0x2715]"
definition CURSOR_BAR :: jstr where "CURSOR_BAR = [0x258D]"

definition shown :: "nat \<Rightarrow> jstr" where
  "shown n = js (show_nat n)"

end
