(* ===== verification/Text_Reveal.thy ===== *)
theory Text_Reveal
  imports Personas
begin

text \<open>
  How a text is typed out: \<open>lib/textReveal.ts\<close>, the word-by-word rule the player paces turns
  with, and \<open>hooks/useSmoothText.ts\<close>, the per-frame rule the views smooth a growing text with.
\<close>

section \<open>Word by word\<close>

definition isSpace :: "code_unit \<Rightarrow> bool" where
  "isSpace ch \<longleftrightarrow> ch = 32 \<or> ch = 10 \<or> ch = 9 \<or> ch = 13"

text \<open>The loop \<open>while (i < text.length && p(text[i])) i++\<close>.\<close>

function scan_while :: "(code_unit \<Rightarrow> bool) \<Rightarrow> jstr \<Rightarrow> nat \<Rightarrow> nat" where
  "scan_while pr str i = (if i < length str \<and> pr (str ! i) then scan_while pr str (i + 1) else i)"
  by pat_completeness auto
termination
  by (relation "measure (\<lambda>(pr, str, i). length str - i)") auto

declare scan_while.simps [simp del]

definition nextChunkEnd :: "jstr \<Rightarrow> nat \<Rightarrow> nat" where
  "nextChunkEnd str pos =
    (let i = scan_while (\<lambda>ch. \<not> isSpace ch) str pos;
         i = scan_while isSpace str i
     in if i > pos then i else min (length str) (pos + 1))"

lemma scan_while_takeWhile: "scan_while pr str i = i + length (takeWhile pr (drop i str))"
proof (induction pr str i rule: scan_while.induct)
  case (1 pr str i)
  show ?case
  proof (cases "i < length str \<and> pr (str ! i)")
    case True
    then have "drop i str = str ! i # drop (i + 1) str" by (simp add: Cons_nth_drop_Suc)
    with True 1 show ?thesis by (simp add: scan_while.simps [of pr str i])
  next
    case False
    then show ?thesis
      by (cases "i < length str") (simp_all add: scan_while.simps [of pr str i] Cons_nth_drop_Suc [symmetric])
  qed
qed

lemma scan_while_le: "i \<le> length str \<Longrightarrow> scan_while pr str i \<le> length str"
  using length_takeWhile_le [of pr "drop i str"] by (simp add: scan_while_takeWhile)

lemma scan_while_ge: "i \<le> scan_while pr str i"
  by (simp add: scan_while_takeWhile)

lemma slice_scan_while: "slice str i (scan_while pr str i) = takeWhile pr (drop i str)"
proof -
  let ?n = "length (takeWhile pr (drop i str))"
  have "slice str i (i + ?n) = take ?n (drop i str)" by (simp add: slice_def take_drop add.commute)
  then show ?thesis by (simp add: scan_while_takeWhile takeWhile_eq_take [symmetric])
qed

lemma scan_while_stops: "scan_while pr str i < length str \<Longrightarrow> \<not> pr (str ! scan_while pr str i)"
proof (induction pr str i rule: scan_while.induct)
  case (1 pr str i)
  then show ?case by (cases "i < length str \<and> pr (str ! i)") (auto simp: scan_while.simps [of pr str i])
qed

lemma nextChunkEnd_scan:
  assumes "pos < length str"
  shows "nextChunkEnd str pos = scan_while isSpace str (scan_while (\<lambda>ch. \<not> isSpace ch) str pos)"
proof (cases "isSpace (str ! pos)")
  case True
  then have "scan_while (\<lambda>ch. \<not> isSpace ch) str pos = pos" by (simp add: scan_while.simps)
  moreover have "pos < scan_while isSpace str pos"
    using True assms scan_while_ge [of "pos + 1" isSpace str] by (simp add: scan_while.simps [of _ _ pos])
  ultimately show ?thesis by (simp add: nextChunkEnd_def)
next
  case False
  then have "pos < scan_while (\<lambda>ch. \<not> isSpace ch) str pos"
    using assms scan_while_ge [of "pos + 1" "\<lambda>ch. \<not> isSpace ch" str] by (simp add: scan_while.simps [of _ _ pos])
  then have "pos < scan_while isSpace str (scan_while (\<lambda>ch. \<not> isSpace ch) str pos)"
    using scan_while_ge less_le_trans by blast
  then show ?thesis by (simp add: nextChunkEnd_def Let_def)
qed

lemma nextChunkEnd_bounds:
  "pos < length str \<Longrightarrow> pos < nextChunkEnd str pos \<and> nextChunkEnd str pos \<le> length str"
  by (auto simp: nextChunkEnd_def Let_def scan_while_le)

section \<open>Any rule that advances reveals the whole text\<close>

text \<open>The pieces a rule cuts a text into; \<open>length text\<close> pieces are enough.\<close>

fun reveal_chunks :: "('c list \<Rightarrow> nat \<Rightarrow> nat) \<Rightarrow> nat \<Rightarrow> 'c list \<Rightarrow> nat \<Rightarrow> 'c list list" where
  "reveal_chunks next_end 0 str pos = []"
| "reveal_chunks next_end (Suc n) str pos =
    (if pos < length str
     then slice str pos (next_end str pos) # reveal_chunks next_end n str (next_end str pos)
     else [])"

context chunker
begin

lemma concat_reveal_chunks:
  "length t - pos \<le> n \<Longrightarrow> concat (reveal_chunks next_end n t pos) = drop pos t"
proof (induction n arbitrary: pos)
  case 0
  then show ?case by simp
next
  case (Suc n)
  show ?case
  proof (cases "pos < length t")
    case True
    note b = advances [OF True] in_range [OF True]
    with Suc.prems have "length t - next_end t pos \<le> n" by linarith
    from Suc.IH [OF this] True have
      "concat (reveal_chunks next_end (Suc n) t pos) = slice t pos (next_end t pos) @ drop (next_end t pos) t"
      by simp
    also have "\<dots> = drop pos t"
      using slice_append_slice [of pos "next_end t pos" "length t" t] b by (simp add: slice_all)
    finally show ?thesis .
  qed simp
qed

lemma reveal_chunks_nonempty:
  "c \<in> set (reveal_chunks next_end n t pos) \<Longrightarrow> c \<noteq> []"
proof (induction n arbitrary: pos)
  case (Suc n)
  then show ?case
    using advances [of pos t] in_range [of pos t] length_slice [of t pos "next_end t pos"]
    by (auto split: if_splits)
qed simp

end

text \<open>The rule of reduced motion and of \<open>skipToLive\<close>: everything that remains.\<close>

definition revealAll :: "jstr \<Rightarrow> nat \<Rightarrow> nat" where
  "revealAll str pos = length str"

interpretation words: chunker nextChunkEnd
  by unfold_locales (auto dest: nextChunkEnd_bounds)

interpretation whole: chunker revealAll
  by unfold_locales (auto simp: revealAll_def)

section \<open>Frame by frame\<close>

record smooth =
  revealed :: nat
  revealedRef :: nat
  frame_pending :: bool

definition CATCHUP_FACTOR :: rat where "CATCHUP_FACTOR = 18 / 100"
definition MIN_STEP :: nat where "MIN_STEP = 2"

definition smooth_set :: "nat \<Rightarrow> smooth \<Rightarrow> smooth" where
  "smooth_set n s = s\<lparr>revealedRef := n, revealed := n\<rparr>"

definition smooth_init :: "jstr \<Rightarrow> smooth" where
  "smooth_init target = \<lparr>revealed = length target, revealedRef = length target, frame_pending = False\<rparr>"

text \<open>The cleanup of the previous effect, then the effect itself.\<close>

definition smooth_effect :: "bool \<Rightarrow> jstr \<Rightarrow> bool \<Rightarrow> smooth \<Rightarrow> smooth" where
  "smooth_effect reducedMotion target animate s =
    (let s = s\<lparr>frame_pending := False\<rparr> in
     if \<not> animate \<or> reducedMotion then smooth_set (length target) s
     else let s = (if revealedRef s > length target then smooth_set (length target) s else s)
          in s\<lparr>frame_pending := True\<rparr>)"

text \<open>An animation frame; nothing happens unless one was requested.\<close>

definition smooth_tick :: "jstr \<Rightarrow> smooth \<Rightarrow> smooth" where
  "smooth_tick target s =
    (if \<not> frame_pending s then s
     else if revealedRef s \<ge> length target then s\<lparr>frame_pending := False\<rparr>
     else let gap = length target - revealedRef s;
              step = max MIN_STEP (nat \<lceil>of_nat gap * CATCHUP_FACTOR\<rceil>)
          in (smooth_set (min (length target) (revealedRef s + step)) s)\<lparr>frame_pending := True\<rparr>)"

definition smooth_output :: "jstr \<Rightarrow> smooth \<Rightarrow> jstr" where
  "smooth_output target s = take (min (revealed s) (length target)) target"

lemma smooth_tick_progress:
  assumes "frame_pending s" "revealedRef s < length target"
  shows "frame_pending (smooth_tick target s)"
    "min (length target) (revealedRef s + 2) \<le> revealedRef (smooth_tick target s)"
    "revealedRef (smooth_tick target s) \<le> length target"
  using assms by (auto simp: smooth_tick_def Let_def smooth_set_def MIN_STEP_def)

lemma smooth_tick_done:
  "frame_pending s \<Longrightarrow> length target \<le> revealedRef s \<Longrightarrow> smooth_tick target s = s\<lparr>frame_pending := False\<rparr>"
  by (simp add: smooth_tick_def)

lemma smooth_tick_idle: "\<not> frame_pending s \<Longrightarrow> (smooth_tick target ^^ k) s = s"
  by (induction k) (simp_all add: smooth_tick_def)

lemma smooth_tick_mirror: "revealed s = revealedRef s \<Longrightarrow> revealed (smooth_tick target s) = revealedRef (smooth_tick target s)"
  by (simp add: smooth_tick_def Let_def smooth_set_def)

lemma smooth_effect_mirror: "revealed s = revealedRef s \<Longrightarrow>
    revealed (smooth_effect rm target an s) = revealedRef (smooth_effect rm target an s)"
  by (simp add: smooth_effect_def Let_def smooth_set_def)

lemma smooth_run_catches_up:
  assumes "frame_pending s" "revealedRef s \<le> length target" "revealed s = revealedRef s"
    and "length target - revealedRef s \<le> 2 * k"
  shows "let s' = (smooth_tick target ^^ (k + 1)) s in
    \<not> frame_pending s' \<and> revealedRef s' = length target \<and> revealed s' = length target"
  using assms
proof (induction k arbitrary: s)
  case 0
  then show ?case by (simp add: smooth_tick_done)
next
  case (Suc k)
  show ?case
  proof (cases "revealedRef s = length target")
    case True
    then show ?thesis using Suc.prems
      by (simp add: funpow_swap1 smooth_tick_done smooth_tick_idle Let_def) (simp add: smooth_tick_def)
  next
    case False
    with Suc.prems have "revealedRef s < length target" by simp
    note step = smooth_tick_progress [OF Suc.prems(1) this]
    have "length target - revealedRef (smooth_tick target s) \<le> 2 * k"
      using step(2) Suc.prems(4) by (auto simp: min_def split: if_splits)
    from Suc.IH [OF step(1) step(3) smooth_tick_mirror [OF Suc.prems(3)] this] show ?thesis
      by (simp add: funpow_swap1)
  qed
qed

section \<open>Properties\<close>

text \<open>A piece is one word and the white space after it: never empty, and it ends at the end
  of the text or right before the next word, so it never cuts a surrogate pair.\<close>

lemma chunk_is_a_word:
  assumes "pos < length t"
  shows "\<exists>w s. slice t pos (nextChunkEnd t pos) = w @ s \<and> w @ s \<noteq> []
    \<and> (\<forall>c\<in>set w. \<not> isSpace c) \<and> (\<forall>c\<in>set s. isSpace c)
    \<and> (nextChunkEnd t pos < length t \<longrightarrow> s \<noteq> [] \<and> \<not> isSpace (t ! nextChunkEnd t pos))"
proof -
  let ?m = "scan_while (\<lambda>ch. \<not> isSpace ch) t pos"
  let ?e = "nextChunkEnd t pos"
  let ?w = "slice t pos ?m" and ?s = "slice t ?m ?e"
  have e: "?e = scan_while isSpace t ?m" using assms by (rule nextChunkEnd_scan)
  have "slice t pos ?e = ?w @ ?s"
    by (simp add: e slice_append_slice scan_while_ge)
  moreover have "slice t pos ?e \<noteq> []"
    using nextChunkEnd_bounds [OF assms] length_slice [of t pos ?e] by force
  moreover have "\<forall>c\<in>set ?w. \<not> isSpace c" "\<forall>c\<in>set ?s. isSpace c"
    unfolding e slice_scan_while by (auto dest: set_takeWhileD)
  moreover have "?s \<noteq> [] \<and> \<not> isSpace (t ! ?e)" if "?e < length t"
  proof -
    from that have "?m < length t" using scan_while_ge [of ?m isSpace t] by (simp add: e)
    then have "isSpace (t ! ?m)" using scan_while_stops by blast
    with \<open>?m < length t\<close> have "takeWhile isSpace (drop ?m t) \<noteq> []"
      by (simp add: Cons_nth_drop_Suc [symmetric])
    then have "?s \<noteq> []" by (simp only: e slice_scan_while not_False_eq_True)
    moreover from that have "\<not> isSpace (t ! ?e)" unfolding e by (rule scan_while_stops)
    ultimately show ?thesis by blast
  qed
  ultimately show ?thesis by metis
qed

text \<open>Typing a text out word by word loses nothing and adds nothing: the pieces put
  together are the text.\<close>

lemma words_make_the_text: "concat (reveal_chunks nextChunkEnd (length t) t 0) = t"
  by (simp add: words.concat_reveal_chunks)

text \<open>C37. Once the smooth-text effect runs, at most one frame per two characters and two more
  show the whole text, and then no further frame is requested; what is shown on the way is
  always a prefix of the text.\<close>

theorem smooth_text_catches_up:
  assumes "revealed s = revealedRef s"
  shows "(let s' = (smooth_tick target ^^ (length target div 2 + 2)) (smooth_effect reducedMotion target animate s)
          in \<not> frame_pending s' \<and> smooth_output target s' = target)
    \<and> (\<exists>rest. target = smooth_output target s @ rest)"
proof -
  let ?s = "smooth_effect reducedMotion target animate s"
  have "\<exists>rest. target = smooth_output target s @ rest"
    unfolding smooth_output_def by (metis append_take_drop_id)
  moreover have "let s' = (smooth_tick target ^^ (length target div 2 + 2)) ?s
      in \<not> frame_pending s' \<and> smooth_output target s' = target"
  proof (cases "animate \<and> \<not> reducedMotion")
    case True
    then have a: "frame_pending ?s" "revealedRef ?s \<le> length target"
      by (auto simp: smooth_effect_def Let_def smooth_set_def)
    show ?thesis
      using smooth_run_catches_up [OF a smooth_effect_mirror [OF assms], of "length target div 2 + 1"]
      by (simp add: Let_def smooth_output_def)
  next
    case False
    then have "\<not> frame_pending ?s" "revealed ?s = length target"
      by (auto simp: smooth_effect_def Let_def smooth_set_def)
    from this(2) show ?thesis
      unfolding smooth_tick_idle [OF \<open>\<not> frame_pending ?s\<close>] Let_def
      using \<open>\<not> frame_pending ?s\<close> by (simp add: smooth_output_def)
  qed
  ultimately show ?thesis by blast
qed

theorem smooth_text_catches_up_witness:
  "smooth_output (js ''hello'') ((smooth_tick (js ''hello'') ^^ 4) (smooth_effect False (js ''hello'') True (smooth_init []))) = js ''hello''"
proof -
  have n: "length (js ''hello'') div 2 + 2 = 4" by simp
  show ?thesis
    using smooth_text_catches_up [of "smooth_init []" "js ''hello''" False True]
    unfolding n by (simp add: smooth_init_def Let_def)
qed

end
