(* ===== verification/Transcript_Views.thy ===== *)
theory Transcript_Views
  imports Dom Stage_Hooks Text_Reveal
begin

text \<open>
  The components that show a debate as text: \<open>components/transcript/\<close>, \<open>components/status/\<close>,
  \<open>components/overlay/StageAnnouncer.tsx\<close>, \<open>components/verdict/VerdictPanel.tsx\<close> and
  \<open>components/Header.tsx\<close>. A component is a function from its props to what it renders.

  \<^item> \<open>RoundBlock\<close> and \<open>VerdictPanel\<close> type their text out with \<open>useSmoothText\<close>: the state of that
    hook is an argument, for the grid one state per mounted block.
  \<^item> \<open>Markdown\<close> is \<open>react-markdown\<close>, third-party code: it is the parameter \<open>markdown\<close>.
\<close>

section \<open>Rounds and columns\<close>

definition TypingIndicator :: "jstr \<Rightarrow> 'a node" where
  "TypingIndicator label =
    El ''span'' [Role ''status'', AriaLabel label] (replicate 3 (El ''span'' [AriaHidden] []))"

datatype column_status = ColIdle | ColStreaming | ColDone

fun status_label :: "column_status \<Rightarrow> jstr" where
  "status_label ColIdle = js ''Waiting''"
| "status_label ColStreaming = js ''Speaking''"
| "status_label ColDone = js ''Finished''"

definition StatusDot :: "column_status \<Rightarrow> 'a node" where
  "StatusDot status = El ''span'' [] [El ''span'' [AriaHidden] [], El ''span'' [] [Txt (status_label status)]]"

definition roundLabel :: "nat \<Rightarrow> jstr" where
  "roundLabel r =
    (if r = 1 then js ''Round 1 '' @ MIDDLE_DOT @ js '' Opening''
     else js ''Round '' @ shown r @ js '' '' @ MIDDLE_DOT @ js '' Rebuttal'')"

definition RoundBlock :: "smooth \<Rightarrow> nat \<Rightarrow> jstr \<Rightarrow> bool \<Rightarrow> 'a node" where
  "RoundBlock sm r words streaming =
    El ''div'' []
      [El ''div'' [] [El ''span'' [] [Txt (roundLabel r)], El ''span'' [AriaHidden] []],
       El ''p'' []
         (says (smooth_output words sm) @
          (if streaming then [El ''span'' [] [TypingIndicator (js ''Streaming this round'')]] else []))]"

definition column_rounds :: "rounds_text option \<Rightarrow> bool \<Rightarrow> nat \<Rightarrow> nat \<Rightarrow> nat list" where
  "column_rounds roundsText isActive cur maxRound =
    filter (\<lambda>r. (case roundsText of None \<Rightarrow> False | Some rs \<Rightarrow> map_of rs r \<noteq> None) \<or> (isActive \<and> r = cur))
      [1..<Suc maxRound]"

definition round_text :: "rounds_text option \<Rightarrow> nat \<Rightarrow> jstr" where
  "round_text roundsText r =
    (case roundsText of None \<Rightarrow> [] | Some rs \<Rightarrow> (case map_of rs r of None \<Rightarrow> [] | Some t \<Rightarrow> t))"

definition PersonaColumn ::
    "(nat \<Rightarrow> smooth) \<Rightarrow> persona_id \<Rightarrow> rounds_text option \<Rightarrow> bool \<Rightarrow> nat \<Rightarrow> nat \<Rightarrow> debate_error list \<Rightarrow> 'a node" where
  "PersonaColumn sm p roundsText isActive cur maxRound errs =
    (let meta = personaMeta p;
         hasText = (case roundsText of None \<Rightarrow> False | Some rs \<Rightarrow> length (map fst rs) > 0);
         status = (if isActive then ColStreaming else if hasText then ColDone else ColIdle);
         rounds = column_rounds roundsText isActive cur maxRound
     in El ''section'' [Accent (accentOf p), AriaLabel (displayName meta), DataActive isActive]
          [El ''header'' []
             [El ''div'' [] [El ''h3'' [] [Txt (displayName meta)], El ''p'' [] [Txt (meta_role meta)]],
              StatusDot status],
           El ''div'' []
             ((if length rounds = 0 then [El ''p'' [] [Txt (js ''Awaiting opening'' @ ELLIPSIS)]] else [])
              @ map (\<lambda>r. RoundBlock (sm r) r (round_text roundsText r) (isActive \<and> r = cur)) rounds
              @ map (\<lambda>e. El ''p'' [Role ''alert''] [Txt (WARNING_SIGN @ js '' '' @ de_message e)]) errs)])"

section \<open>The grid and the drawer\<close>

definition panelMaxRound :: "debate_state \<Rightarrow> nat" where
  "panelMaxRound s =
    (let seen = concat (map (\<lambda>p. map fst (case transcript s p of None \<Rightarrow> [] | Some rs \<Rightarrow> rs)) PANELISTS);
         fromText = (if length seen > 0 then Max (set seen) else 0)
     in if phase s = PhDebating then max fromText (currentRound s) else fromText)"

definition column_of :: "(persona_id \<Rightarrow> nat \<Rightarrow> smooth) \<Rightarrow> debate_state \<Rightarrow> persona_id \<Rightarrow> 'a node" where
  "column_of sm s p =
    PersonaColumn (sm p) p (transcript s p) (p \<in> set (activeSpeakers s)) (currentRound s) (panelMaxRound s)
      (filter (\<lambda>e. de_persona e = Some p) (errors s))"

definition TranscriptGrid :: "(persona_id \<Rightarrow> nat \<Rightarrow> smooth) \<Rightarrow> debate_state \<Rightarrow> bool \<Rightarrow> 'a node" where
  "TranscriptGrid sm s dimmed = El ''div'' [DataDimmed dimmed] (map (column_of sm s) PANELISTS)"

definition TranscriptDrawer ::
    "(jstr \<Rightarrow> 'a node list) \<Rightarrow> (persona_id \<Rightarrow> nat \<Rightarrow> smooth) \<Rightarrow> debate_state \<Rightarrow> bool \<Rightarrow> 'a \<Rightarrow> 'a node" where
  "TranscriptDrawer markdown sm s is_open onClose =
    El ''aside'' (AriaLabel (js ''Full transcript'') # (if is_open then [] else [AriaHidden, Inert]))
      [El ''header'' []
         [El ''h2'' [] [Txt (js ''Transcript'')],
          El ''button'' [OnClick onClose, AriaLabel (js ''Close transcript'')] [Txt CROSS_MARK]],
       El ''div'' []
         ((if verdict s \<noteq> []
           then [El ''section'' [AriaLabel (js ''Final verdict'')]
                   [El ''p'' [] [Txt (js ''Final verdict'')], El ''div'' [] (markdown (verdict s))]]
           else [])
          @ [TranscriptGrid sm s False])]"

section \<open>Status, errors and announcements\<close>

fun statusText :: "debate_phase \<Rightarrow> nat \<Rightarrow> nat \<Rightarrow> jstr option" where
  "statusText PhConnecting c r = Some (js ''Convening the council'' @ ELLIPSIS)"
| "statusText PhDebating c r = Some (js ''Round '' @ shown (min c r) @ js '' of '' @ shown r)"
| "statusText PhModerating c r = Some (js ''The Moderator is deliberating'' @ ELLIPSIS)"
| "statusText PhDone c r = Some (js ''Verdict delivered'')"
| "statusText PhStopped c r = Some (js ''Session stopped'')"
| "statusText PhIdle c r = None"
| "statusText PhError c r = None"

definition ConnectionStatus :: "debate_phase \<Rightarrow> nat \<Rightarrow> nat \<Rightarrow> 'a node list" where
  "ConnectionStatus ph cur rounds =
    (case statusText ph cur rounds of
       None \<Rightarrow> []
     | Some t \<Rightarrow> [El ''p'' [Role ''status'', AriaLive ''polite''] [El ''span'' [AriaHidden] [], Txt t]])"

definition terminalMessage :: "debate_state \<Rightarrow> jstr" where
  "terminalMessage s =
    (case find (\<lambda>e. de_persona e = None) (errors s) of
       Some e \<Rightarrow> de_message e
     | None \<Rightarrow> (if errors s = [] then js ''The council could not finish this session.''
                 else de_message (last (errors s))))"

definition ErrorBanner :: "debate_state \<Rightarrow> 'a node list" where
  "ErrorBanner s =
    (if phase s \<noteq> PhError then []
     else [El ''div'' [Role ''alert'']
             [El ''span'' [] [Txt (js ''Session ended.'')], Txt (js '' ''), Txt (terminalMessage s)]])"

definition StageAnnouncer :: "debate_state \<Rightarrow> 'a node" where
  "StageAnnouncer s =
    (let personaErrors = filter (\<lambda>e. de_persona e \<noteq> None) (errors s);
         verdictReady = (phase s = PhDone)
     in El ''div'' []
          [El ''p'' [AriaLive ''polite'']
             (says (if verdictReady then js ''The verdict is ready. Open the transcript to read the full debate.'' else [])),
           El ''div'' [AriaLive ''assertive'', AriaAtomic False]
             (map (\<lambda>e. El ''p'' []
                [Txt (displayName (personaMeta (the (de_persona e)))), Txt (APOSTROPHE @ js ''s response failed: ''),
                 Txt (de_message e)]) personaErrors)])"

definition Header :: "'a node" where
  "Header =
    El ''header'' []
      [El ''p'' [] [Txt (js ''A panel convenes'')], El ''h1'' [] [Txt (js ''Council'')],
       El ''p'' [] [Txt (js ''Ask once. Four minds answer and rebut each other across rounds, live '' @ EM_DASH
         @ js '' then the Moderator hands down a verdict.'')]]"

section \<open>The verdict panel\<close>

definition VerdictPanel ::
    "(jstr \<Rightarrow> 'a node list) \<Rightarrow> smooth \<Rightarrow> debate_phase \<Rightarrow> jstr \<Rightarrow> jstr \<Rightarrow> 'a \<Rightarrow> 'a \<Rightarrow> 'a node" where
  "VerdictPanel markdown sm ph v streamingText onClose onAskAnother =
    (let deliberating = (ph = PhModerating)
     in El ''div'' []
          [El ''button'' [AriaLabel (js ''Dismiss verdict''), OnClick onClose] [],
           El ''div'' [Role ''dialog'', AriaModal, AriaLabel (js ''Moderator verdict''), TabIndex (- 1), Accent (accentOf Moderator)]
             ([El ''header'' []
                 [El ''div'' []
                    [El ''p'' [] [Txt (js ''The Moderator'')],
                     El ''h2'' [] [Txt (if deliberating then js ''Deliberating'' @ ELLIPSIS else js ''Final verdict'')]],
                  El ''button'' [OnClick onClose, AriaLabel (js ''Close'')] [Txt CROSS_MARK]],
               El ''div'' []
                 (if deliberating
                  then [El ''div'' []
                          [El ''p'' []
                             (says (smooth_output streamingText sm)
                              @ [El ''span'' [] [TypingIndicator (js ''Moderator deliberating'')]])]]
                  else [El ''div'' [] (markdown v)])]
              @ (if \<not> deliberating
                 then [El ''footer'' [] [El ''button'' [OnClick onAskAnother] [Txt (js ''Ask another question'')]]]
                 else []))])"

text \<open>The keyboard handler: the element the focus is moved to, \<open>None\<close> where the browser's own
  order is left to decide. \<open>items\<close> is what \<open>querySelectorAll(FOCUSABLE)\<close> finds in the dialog.\<close>

definition trapFocus :: "'n list \<Rightarrow> 'n \<Rightarrow> bool \<Rightarrow> 'n option" where
  "trapFocus items active shiftKey =
    (if length items = 0 then None
     else (let first = items ! 0; lst = items ! (length items - 1)
           in if shiftKey \<and> active = first then Some lst
              else if \<not> shiftKey \<and> active = lst then Some first
              else None))"

text \<open>At its two ends the trap holds; but the dialog itself, which has the focus when the panel
  opens, is not among the items, and Shift+Tab from it is left to the browser.\<close>

lemma trap_holds_at_ends:
  "items \<noteq> [] \<Longrightarrow> trapFocus items (hd items) True = Some (last items)"
  "items \<noteq> [] \<Longrightarrow> trapFocus items (last items) False = Some (hd items)"
  by (simp_all add: trapFocus_def Let_def hd_conv_nth last_conv_nth)

lemma trap_leaks_from_the_dialog: "dialog \<notin> set items \<Longrightarrow> trapFocus items dialog shiftKey = None"
  using nth_mem [of 0 items] nth_mem [of "length items - 1" items]
  by (cases "items = []") (auto simp: trapFocus_def Let_def)

section \<open>What the views show\<close>

text \<open>The banner of an ended session prefers any error without a persona: an earlier, advisory
  transport error hides the message that ended the session.\<close>

lemma banner_prefers_the_advisory:
  assumes "m \<noteq> []"
  shows "terminalMessage (buildState [StatusInput WsConnecting, TransportInput m,
      Wire (ErrorEvent \<lparr>ee_persona = None, ee_error = js ''rejected''\<rparr>)]) = m"
    "phase (buildState [StatusInput WsConnecting, TransportInput m,
      Wire (ErrorEvent \<lparr>ee_persona = None, ee_error = js ''rejected''\<rparr>)]) = PhError"
  by (simp_all add: buildState_def initialState_def withError_def MAX_ERRORS_def terminalMessage_def Let_def)

text \<open>A moderator's error ends the session, and the announcer voices it beside the banner.\<close>

lemma announcer_voices_the_moderator:
  "de_persona e = Some Moderator \<Longrightarrow> e \<in> set (errors s) \<Longrightarrow>
   \<exists>n \<in> set (subnodes (StageAnnouncer s :: 'a node)). text_of n =
     displayName (personaMeta Moderator) @ APOSTROPHE @ js ''s response failed: '' @ de_message e"
  unfolding StageAnnouncer_def Let_def
  by (rule bexI [where x = "El ''p'' [] [Txt (displayName (personaMeta Moderator)),
      Txt (APOSTROPHE @ js ''s response failed: ''), Txt (de_message e)]"]) (force simp: image_iff)+

lemma typing_is_silent [simp]: "text_of (TypingIndicator l) = []"
  by (simp add: TypingIndicator_def)

lemma text_of_RoundBlock: "text_of (RoundBlock sm r t streaming) = roundLabel r @ smooth_output t sm"
  by (simp add: RoundBlock_def)

lemma column_rounds_sorted: "sorted_wrt (<) (column_rounds rs a c m)"
  unfolding column_rounds_def by (rule sorted_wrt_filter) (rule sorted_wrt_upt)

lemma round_within_max:
  assumes "p \<noteq> Moderator" "transcript s p = Some rs" "map_of rs r \<noteq> None"
  shows "r \<le> panelMaxRound s"
proof -
  define seen where "seen = concat (map (\<lambda>p. map fst (case transcript s p of None \<Rightarrow> [] | Some rs \<Rightarrow> rs)) PANELISTS)"
  have "p \<in> set PANELISTS" using assms(1) by (simp add: set_PANELISTS)
  moreover have "r \<in> fst ` set rs" using assms(3) by (metis map_of_eq_None_iff)
  ultimately have "r \<in> set seen" using assms(2) by (auto simp: seen_def intro!: bexI [of _ p])
  then have "r \<le> Max (set seen)" "0 < length seen"
    by (rule Max_ge [OF finite_set], rule length_pos_if_in_set)
  then show ?thesis by (simp add: panelMaxRound_def seen_def [symmetric] Let_def le_max_iff_disj)
qed

lemma column_rounds_text:
  assumes "reducer_inv s" "p \<noteq> Moderator" "transcript s p = Some rs" "map_of rs r = Some t"
  shows "r \<in> set (column_rounds (transcript s p) a c (panelMaxRound s))"
proof -
  have "rounds_ok rs" using assms(1,3) by (simp add: reducer_inv_def)
  moreover have "r \<in> fst ` set rs" using assms(4) by (metis map_of_eq_None_iff option.distinct(1))
  ultimately have "1 \<le> r" by (auto simp: rounds_ok_def)
  moreover have "r \<le> panelMaxRound s" using round_within_max [OF assms(2,3), of r] assms(4) by simp
  ultimately show ?thesis
    using assms(3,4) by (simp add: column_rounds_def del: upt_Suc)
qed

lemma column_block:
  assumes "r \<in> set (column_rounds (transcript s p) (p \<in> set (activeSpeakers s)) (currentRound s) (panelMaxRound s))"
  shows "RoundBlock (sm p r) r (round_text (transcript s p) r) (p \<in> set (activeSpeakers s) \<and> r = currentRound s)
    \<in> set (subnodes (column_of sm s p))"
  using assms unfolding column_of_def PersonaColumn_def Let_def
  by (intro child_subnode [of _ _ "RoundBlock _ _ _ _"] child_subnode [of "El ''div'' [] _"]) auto

lemma grid_column: "p \<noteq> Moderator \<Longrightarrow> n \<in> set (subnodes (column_of sm s p)) \<Longrightarrow> n \<in> set (subnodes (TranscriptGrid sm s d))"
  unfolding TranscriptGrid_def by (rule child_subnode [of "column_of sm s p"]) (simp_all add: set_PANELISTS)

text \<open>C26. The transcript grid leaves nothing out: for every state the reducer can reach, each text
  of a panelist is a block of that panelist's column, labelled with its round, with all of the
  text once the typing has caught up; the rounds of a column are in order, once each; and the
  grid has one column per panelist, in seating order.\<close>

theorem grid_shows_the_transcript:
  assumes "list_all ok_input is" "p \<noteq> Moderator" "transcript (buildState is) p = Some rs" "map_of rs r = Some t"
    and "length t \<le> revealed (sm p r)"
  shows "(\<exists>block. block \<in> set (subnodes (column_of sm (buildState is) p))
      \<and> block \<in> set (subnodes (TranscriptGrid sm (buildState is) dimmed)) \<and> text_of block = roundLabel r @ t)
    \<and> sorted_wrt (<) (column_rounds (Some rs) (p \<in> set (activeSpeakers (buildState is)))
        (currentRound (buildState is)) (panelMaxRound (buildState is)))
    \<and> TranscriptGrid sm (buildState is) dimmed =
        El ''div'' [DataDimmed dimmed] (map (column_of sm (buildState is)) [Skeptic, Optimist, Expert, Contrarian])"
proof -
  have inv: "reducer_inv (buildState is)"
    unfolding buildState_def by (rule reducer.inv_run [OF reducer_inv_initial assms(1)])
  note block = column_block [OF column_rounds_text [OF inv assms(2-4)], of sm]
  have "smooth_output t (sm p r) = t" using assms(5) by (simp add: smooth_output_def slice_def)
  moreover have "round_text (transcript (buildState is) p) r = t" using assms(3,4) by (simp add: round_text_def)
  moreover have "TranscriptGrid sm (buildState is) dimmed =
      El ''div'' [DataDimmed dimmed] (map (column_of sm (buildState is)) [Skeptic, Optimist, Expert, Contrarian])"
    by (simp add: TranscriptGrid_def PANELISTS_def)
  ultimately show ?thesis
    using block grid_column [OF assms(2) block, of dimmed] column_rounds_sorted text_of_RoundBlock by metis
qed

theorem grid_shows_the_transcript_witness:
  "\<exists>block. block \<in> set (subnodes (TranscriptGrid (\<lambda>_ _. smooth_init (js ''hi''))
        (buildState [StatusInput WsConnecting, Wire (TokenEvent Skeptic 1 (js ''hi''))]) False :: nat node))
      \<and> text_of block = roundLabel 1 @ js ''hi''"
proof -
  let ?is = "[StatusInput WsConnecting, Wire (TokenEvent Skeptic 1 (js ''hi''))]"
  have "list_all ok_input ?is" "transcript (buildState ?is) Skeptic = Some [(1, js ''hi'')]"
    by (simp_all add: MAX_WIRE_ROUND_def MAX_ROUNDS_def buildState_def initialState_def appendDelta_def
        MAX_CELL_CHARS_def js_def)
  from grid_shows_the_transcript [OF this(1) _ this(2), of 1 "js ''hi''" "\<lambda>_ _. smooth_init (js ''hi'')"]
  show ?thesis by (simp add: smooth_init_def) blast
qed

end
