(* ===== verification/Debate_Player.thy ===== *)
theory Debate_Player
  imports Debate_Reducer Text_Reveal
begin

text \<open>
  \<open>state/debatePlayer.ts\<close>: the class \<open>DebatePlayer\<close>, which records the concurrent stream and
  replays it one persona at a time. Its fields are the record \<open>player\<close>; a method is a function
  on the record that also returns the inputs it hands to \<open>dispatch\<close>, in order.

  \<^item> A timer is the delay it was armed with; \<open>timer_fires\<close> is its callback.
  \<^item> The two loops, \<open>skipToLive\<close> and the chain of timers, are \<open>option\<close>-valued partial
    functions: \<open>None\<close> is a loop that does not end. That they end is proved below.
  \<^item> \<open>step\<close> answers a delay in milliseconds or one of the sentinels \<open>PARK = -1\<close> and
    \<open>DONE = -2\<close>, as in the source.
\<close>

section \<open>State\<close>

datatype cursor = CurPanelist nat nat | CurModerator | CurDone

record active_turn =
  at_persona :: persona_id
  at_round :: nat
  at_index :: int
  at_text :: jstr
  at_pos :: nat
  isModerator :: bool

type_synonym recording = "persona_id \<Rightarrow> (nat \<Rightarrow> jstr option) option"

record player =
  timer :: "jsnum option"
  rate :: jsnum
  draining :: bool
  reducedMotion :: bool
  rec_text :: recording
  roundComplete :: "nat list"
  personaErrors :: "persona_id \<Rightarrow> error_event option"
  rec_verdict :: "jstr option"
  sessionError :: "error_event option"
  closed :: bool
  moderatorRound :: "nat option"
  cursor :: cursor
  active :: "active_turn option"
  pendingDone :: "(persona_id \<times> nat) option"
  pendingRoundComplete :: "nat option"
  pendingErrors :: "error_event list"

definition TICK_MS :: jsnum where "TICK_MS = JNum 300"
definition TURN_GAP_MS :: jsnum where "TURN_GAP_MS = JNum 550"
definition MIN_RATE :: jsnum where "MIN_RATE = JNum (1 / 2)"
definition MAX_RATE :: jsnum where "MAX_RATE = JNum 4"
definition MAX_TURN_CHARS :: nat where "MAX_TURN_CHARS = 200000"
definition PARK :: jsnum where "PARK = JNum (- 1)"
definition DONE :: jsnum where "DONE = JNum (- 2)"

definition newPlayer :: "bool \<Rightarrow> player" where
  "newPlayer reduced = \<lparr>timer = None, rate = JNum 1, draining = False, reducedMotion = reduced,
     rec_text = (\<lambda>_. None), roundComplete = [], personaErrors = (\<lambda>_. None), rec_verdict = None,
     sessionError = None, closed = False, moderatorRound = None,
     cursor = CurPanelist 1 0, active = None,
     pendingDone = None, pendingRoundComplete = None, pendingErrors = []\<rparr>"

section \<open>Recording helpers\<close>

definition appendText :: "recording \<Rightarrow> persona_id \<Rightarrow> nat \<Rightarrow> jstr \<Rightarrow> recording" where
  "appendText t p r delta =
    (let rounds = (case t p of None \<Rightarrow> (\<lambda>_. None) | Some m \<Rightarrow> m);
         combined = (case rounds r of None \<Rightarrow> [] | Some x \<Rightarrow> x) @ delta
     in t(p := Some (rounds(r := Some
          (if length combined > MAX_TURN_CHARS then take MAX_TURN_CHARS combined else combined)))))"

definition getText :: "recording \<Rightarrow> persona_id \<Rightarrow> nat \<Rightarrow> jstr" where
  "getText t p r = (case t p of None \<Rightarrow> [] | Some m \<Rightarrow> (case m r of None \<Rightarrow> [] | Some x \<Rightarrow> x))"

definition maxPanelRound :: "player \<Rightarrow> nat" where
  "maxPanelRound p = foldl (\<lambda>m r. if r > m then r else m) 0 (roundComplete p)"

section \<open>Speed\<close>

definition setRate :: "jsnum \<Rightarrow> player \<Rightarrow> player" where
  "setRate multiplier p = p\<lparr>rate := js_min MAX_RATE (js_max MIN_RATE multiplier)\<rparr>"

definition tickMs :: "player \<Rightarrow> jsnum" where
  "tickMs p = js_div TICK_MS (rate p)"

definition turnGapMs :: "player \<Rightarrow> jsnum" where
  "turnGapMs p = js_div TURN_GAP_MS (rate p)"

section \<open>Backlog\<close>

fun hasBufferedTurn :: "player \<Rightarrow> cursor \<Rightarrow> bool" where
  "hasBufferedTurn p (CurPanelist r i) = (r \<in> set (roundComplete p))"
| "hasBufferedTurn p CurModerator = (rec_verdict p \<noteq> None)"
| "hasBufferedTurn p CurDone = True"

definition terminalKnown :: "player \<Rightarrow> bool" where
  "terminalKnown p \<longleftrightarrow> rec_verdict p \<noteq> None \<or> sessionError p \<noteq> None \<or> closed p"

definition hasReadyWork :: "player \<Rightarrow> bool" where
  "hasReadyWork p =
    (if active p \<noteq> None then True
     else if cursor p = CurDone then False
     else if hasBufferedTurn p (cursor p) then True
     else terminalKnown p)"

definition isAtLive :: "player \<Rightarrow> bool" where
  "isAtLive p \<longleftrightarrow> \<not> hasReadyWork p"

section \<open>The scheduler\<close>

definition flushPending :: "player \<Rightarrow> player \<times> debate_input list" where
  "flushPending p =
    (p\<lparr>pendingDone := None, pendingRoundComplete := None, pendingErrors := []\<rparr>,
     (case pendingDone p of None \<Rightarrow> [] | Some (q, r) \<Rightarrow> [Wire (PersonaDoneEvent q r)])
     @ (case pendingRoundComplete p of None \<Rightarrow> [] | Some r \<Rightarrow> [Wire (RoundCompleteEvent r)])
     @ map (\<lambda>e. Wire (ErrorEvent e)) (pendingErrors p))"

definition finalizeTerminal :: "player \<Rightarrow> debate_input list" where
  "finalizeTerminal p =
    (case sessionError p of
       Some e \<Rightarrow> [Wire (ErrorEvent e)]
     | None \<Rightarrow> if closed p then [StatusInput WsClosed] else [])"

fun cursor_rank :: "cursor \<Rightarrow> nat" where
  "cursor_rank (CurPanelist _ _) = 1"
| "cursor_rank _ = 0"

text \<open>The third component is the source's return value, \<open>None\<close> for \<open>null\<close>.\<close>

function prepareNextTurn :: "player \<Rightarrow> player \<times> debate_input list \<times> jsnum option" where
  "prepareNextTurn p =
    (case cursor p of
       CurDone \<Rightarrow> (p, [], Some DONE)
     | CurPanelist r i \<Rightarrow>
        if \<not> hasBufferedTurn p (CurPanelist r i) then
          if terminalKnown p then prepareNextTurn (p\<lparr>cursor := CurModerator\<rparr>)
          else (p, [], Some PARK)
        else
          let persona = PANELISTS ! i; (p, flushed) = flushPending p
          in (p\<lparr>active := Some \<lparr>at_persona = persona, at_round = r, at_index = int i,
                  at_text = getText (rec_text p) persona r, at_pos = 0, isModerator = False\<rparr>\<rparr>,
              flushed, None)
     | CurModerator \<Rightarrow>
        (case rec_verdict p of
           None \<Rightarrow>
             if sessionError p \<noteq> None \<or> closed p then
               let (p, flushed) = flushPending p
               in (p\<lparr>cursor := CurDone\<rparr>, flushed @ finalizeTerminal p, Some DONE)
             else (p, [], Some PARK)
         | Some v \<Rightarrow>
             let (p, flushed) = flushPending p;
                 r = (case moderatorRound p of Some r \<Rightarrow> r | None \<Rightarrow> maxPanelRound p + 1);
                 str = getText (rec_text p) MODERATOR_ID r
             in if str = [] then
                  (p\<lparr>cursor := CurDone\<rparr>, flushed @ [Wire (VerdictEvent v)], Some DONE)
                else
                  (p\<lparr>active := Some \<lparr>at_persona = MODERATOR_ID, at_round = r, at_index = - 1,
                      at_text = str, at_pos = 0, isModerator = True\<rparr>\<rparr>, flushed, None)))"
  by pat_completeness auto
termination
  by (relation "measure (\<lambda>p. cursor_rank (cursor p))") auto

declare prepareNextTurn.simps [simp del]

definition revealStep :: "active_turn \<Rightarrow> player \<Rightarrow> player \<times> debate_input list \<times> jsnum" where
  "revealStep a p =
    (if at_pos a \<ge> length (at_text a) then
       if isModerator a then
         (p\<lparr>active := None, cursor := CurDone\<rparr>,
          [Wire (VerdictEvent (case rec_verdict p of Some v \<Rightarrow> v | None \<Rightarrow> []))], DONE)
       else
         let p = p\<lparr>pendingDone := Some (at_persona a, at_round a)\<rparr>;
             p = (case personaErrors p (at_persona a) of
                    None \<Rightarrow> p
                  | Some err \<Rightarrow> p\<lparr>pendingErrors := pendingErrors p @ [err],
                      personaErrors := (personaErrors p)(at_persona a := None)\<rparr>);
             p = (if at_index a = int (length PANELISTS) - 1
                  then p\<lparr>pendingRoundComplete := Some (at_round a)\<rparr> else p);
             c = (if at_index a < int (length PANELISTS) - 1
                  then CurPanelist (at_round a) (nat (at_index a + 1))
                  else CurPanelist (at_round a + 1) 0)
         in (p\<lparr>cursor := c, active := None\<rparr>, [], turnGapMs p)
     else
       let e = (if reducedMotion p \<or> draining p then length (at_text a)
                else nextChunkEnd (at_text a) (at_pos a));
           delta = slice (at_text a) (at_pos a) e
       in (p\<lparr>active := Some (a\<lparr>at_pos := e\<rparr>)\<rparr>,
           [Wire (TokenEvent (at_persona a) (at_round a) delta)], tickMs p))"

definition step :: "player \<Rightarrow> player \<times> debate_input list \<times> jsnum" where
  "step p =
    (case active p of
       Some a \<Rightarrow> revealStep a p
     | None \<Rightarrow>
        (case prepareNextTurn p of
           (p, out, Some started) \<Rightarrow> (p, out, started)
         | (p, out, None) \<Rightarrow>
             let (p, out2, d) = revealStep (the (active p)) p in (p, out @ out2, d)))"

definition is_sentinel :: "jsnum \<Rightarrow> bool" where
  "is_sentinel d \<longleftrightarrow> js_num_eq d PARK \<or> js_num_eq d DONE"

definition pump :: "player \<Rightarrow> player \<times> debate_input list" where
  "pump p =
    (if timer p \<noteq> None then (p, [])
     else let (p, out, delay) = step p
          in (if is_sentinel delay then p else p\<lparr>timer := Some delay\<rparr>, out))"

definition timer_fires :: "player \<Rightarrow> player \<times> debate_input list" where
  "timer_fires p = (if timer p = None then (p, []) else pump (p\<lparr>timer := None\<rparr>))"

section \<open>Inbound\<close>

definition reset :: "player \<Rightarrow> player" where
  "reset p = (newPlayer (reducedMotion p))\<lparr>rate := rate p\<rparr>"

fun record_event :: "debate_event \<Rightarrow> player \<Rightarrow> player" where
  "record_event (TokenEvent q r d) p =
    (let p = p\<lparr>rec_text := appendText (rec_text p) q r d\<rparr>
     in if q = MODERATOR_ID then p\<lparr>moderatorRound := Some r\<rparr> else p)"
| "record_event (PersonaDoneEvent q r) p = p"
| "record_event (RoundCompleteEvent r) p = p\<lparr>roundComplete := set_add (roundComplete p) r\<rparr>"
| "record_event (VerdictEvent v) p = p\<lparr>rec_verdict := Some v\<rparr>"
| "record_event (ErrorEvent e) p =
    (case ee_persona e of
       None \<Rightarrow> p\<lparr>sessionError := Some e\<rparr>
     | Some q \<Rightarrow> if q = MODERATOR_ID then p\<lparr>sessionError := Some e\<rparr>
                else p\<lparr>personaErrors := (personaErrors p)(q := Some e)\<rparr>)"

definition feed :: "debate_event \<Rightarrow> player \<Rightarrow> player \<times> debate_input list" where
  "feed e p = pump (record_event e p)"

fun feedStatus :: "ws_status \<Rightarrow> player \<Rightarrow> player \<times> debate_input list" where
  "feedStatus WsConnecting p = (reset p, [StatusInput WsConnecting])"
| "feedStatus WsClosed p = pump (p\<lparr>closed := True\<rparr>)"
| "feedStatus st p = (p, [StatusInput st])"

definition feedTransport :: "jstr \<Rightarrow> player \<Rightarrow> player \<times> debate_input list" where
  "feedTransport message p = (p, [TransportInput message])"

section \<open>The two loops\<close>

partial_function (option) drain_loop ::
    "player \<Rightarrow> debate_input list \<Rightarrow> jsnum \<Rightarrow> (player \<times> debate_input list) option" where
  "drain_loop p out delay =
    (if is_sentinel delay then Some (p, out)
     else (case step p of (p', out', delay') \<Rightarrow> drain_loop p' (out @ out') delay'))"

definition skipToLive :: "player \<Rightarrow> (player \<times> debate_input list) option" where
  "skipToLive p =
    (case step (p\<lparr>timer := None, draining := True\<rparr>) of
       (p, out, delay) \<Rightarrow> map_option (\<lambda>(p, out). (p\<lparr>draining := False\<rparr>, out)) (drain_loop p out delay))"

text \<open>Time passes: the armed timer fires, and the next, until none is armed.\<close>

partial_function (option) run_timers ::
    "player \<Rightarrow> debate_input list \<Rightarrow> (player \<times> debate_input list) option" where
  "run_timers p out =
    (if timer p = None then Some (p, out)
     else (case timer_fires p of (p', out') \<Rightarrow> run_timers p' (out @ out')))"

section \<open>The text buffer\<close>

lemma getText_appendText [store_simps]:
  "getText (appendText t p r d) q k = (if q = p \<and> k = r then take MAX_TURN_CHARS (getText t p r @ d) else getText t q k)"
  by (simp add: getText_def appendText_def Let_def cap_cut split: option.splits)

interpretation recorded: text_store getText appendText MAX_TURN_CHARS
  by unfold_locales (rule getText_appendText)

section \<open>Delays\<close>

fun rate_ok :: "jsnum \<Rightarrow> bool" where
  "rate_ok JNaN = True"
| "rate_ok (JNum q) = (1 / 2 \<le> q \<and> q \<le> 4)"
| "rate_ok _ = False"

lemma rate_ok_setRate: "rate_ok (rate (setRate m p))"
  by (cases m) (auto simp: setRate_def js_min_def js_max_def MIN_RATE_def MAX_RATE_def)

lemma delays_not_sentinels:
  assumes "rate_ok (rate p)"
  shows "\<not> is_sentinel (tickMs p)" "\<not> is_sentinel (turnGapMs p)"
  by (cases "rate p"; use assms in \<open>auto simp: is_sentinel_def js_num_eq_def tickMs_def TICK_MS_def
      PARK_def DONE_def field_simps\<close>)
    (cases "rate p"; use assms in \<open>auto simp: is_sentinel_def js_num_eq_def turnGapMs_def
      TURN_GAP_MS_def PARK_def DONE_def field_simps\<close>)

lemma sentinels [simp]: "is_sentinel PARK" "is_sentinel DONE" "PARK \<noteq> DONE"
  by (simp_all add: is_sentinel_def js_num_eq_def PARK_def DONE_def)

lemma maxPanelRound_eq: "maxPanelRound p = Max (insert 0 (set (roundComplete p)))"
proof -
  have "foldl (\<lambda>m r. if r > m then r else m) k rs = Max (insert k (set rs))" for k :: nat and rs
  proof (induction rs arbitrary: k)
    case (Cons r rs)
    have "Max (insert (max k r) (set rs)) = Max (insert k (insert r (set rs)))"
      by (cases "rs = []") (auto simp: max.assoc max.left_commute)
    moreover have "(if r > k then r else k) = max k r" by simp
    ultimately show ?case using Cons.IH [of "max k r"] by simp
  qed simp
  then show ?thesis by (simp add: maxPanelRound_def)
qed

section \<open>Invariant\<close>

definition idle_pending :: "player \<Rightarrow> bool" where
  "idle_pending p \<longleftrightarrow> pendingDone p = None \<and> pendingRoundComplete p = None \<and> pendingErrors p = []"

definition cursor_ok :: "player \<Rightarrow> bool" where
  "cursor_ok p \<longleftrightarrow>
    (case cursor p of
       CurPanelist r i \<Rightarrow> 1 \<le> r \<and> i < length PANELISTS \<and> (0 < i \<longrightarrow> r \<in> set (roundComplete p))
     | CurModerator \<Rightarrow> terminalKnown p
     | CurDone \<Rightarrow> active p = None \<and> idle_pending p)"

definition turn_ok :: "player \<Rightarrow> active_turn \<Rightarrow> bool" where
  "turn_ok p a \<longleftrightarrow>
     at_pos a \<le> length (at_text a)
   \<and> length (at_text a) \<le> MAX_TURN_CHARS
   \<and> at_round a \<in> {1..MAX_WIRE_ROUND}
   \<and> idle_pending p
   \<and> (if isModerator a
      then at_persona a = Moderator \<and> cursor p = CurModerator \<and> rec_verdict p \<noteq> None \<and> at_text a \<noteq> []
      else 0 \<le> at_index a \<and> at_index a < int (length PANELISTS)
        \<and> at_persona a = PANELISTS ! nat (at_index a)
        \<and> cursor p = CurPanelist (at_round a) (nat (at_index a))
        \<and> at_round a \<in> set (roundComplete p))"

definition recording_ok :: "player \<Rightarrow> bool" where
  "recording_ok p \<longleftrightarrow>
     distinct (roundComplete p) \<and> set (roundComplete p) \<subseteq> {1..MAX_WIRE_ROUND}
   \<and> (\<forall>q r. length (getText (rec_text p) q r) \<le> MAX_TURN_CHARS)
   \<and> (\<forall>q r. getText (rec_text p) q r \<noteq> [] \<longrightarrow> r \<in> {1..MAX_WIRE_ROUND})
   \<and> (\<forall>r. moderatorRound p = None \<longrightarrow> getText (rec_text p) Moderator r = [])
   \<and> (\<forall>q e. personaErrors p q = Some e \<longrightarrow> ee_persona e = Some q \<and> q \<noteq> Moderator)
   \<and> (\<forall>e. sessionError p = Some e \<longrightarrow> ee_persona e \<in> {None, Some Moderator})"

definition pending_ok :: "player \<Rightarrow> bool" where
  "pending_ok p \<longleftrightarrow>
     (\<forall>q r. pendingDone p = Some (q, r) \<longrightarrow> q \<noteq> Moderator \<and> r \<in> {1..MAX_WIRE_ROUND})
   \<and> (\<forall>r. pendingRoundComplete p = Some r \<longrightarrow> r \<in> {1..MAX_WIRE_ROUND})
   \<and> (\<forall>e\<in>set (pendingErrors p). \<exists>q. ee_persona e = Some q \<and> q \<noteq> Moderator)"

definition player_inv :: "player \<Rightarrow> bool" where
  "player_inv p \<longleftrightarrow> rate_ok (rate p) \<and> recording_ok p \<and> pending_ok p \<and> cursor_ok p
     \<and> (\<forall>a. active p = Some a \<longrightarrow> turn_ok p a)"

lemmas player_inv_defs = player_inv_def recording_ok_def pending_ok_def cursor_ok_def turn_ok_def
  idle_pending_def

section \<open>The steps, case by case\<close>

text \<open>Where the player turns to the moderator: from a panel round that will never come, or
  because it is already there.\<close>

definition to_moderator :: "player \<Rightarrow> bool" where
  "to_moderator p \<longleftrightarrow> cursor p = CurModerator
     \<or> (\<exists>r i. cursor p = CurPanelist r i \<and> r \<notin> set (roundComplete p) \<and> terminalKnown p)"

definition moderator_round :: "player \<Rightarrow> nat" where
  "moderator_round p = (case moderatorRound p of Some r \<Rightarrow> r | None \<Rightarrow> maxPanelRound p + 1)"

lemma prepare_done: "cursor p = CurDone \<Longrightarrow> prepareNextTurn p = (p, [], Some DONE)"
  by (simp add: prepareNextTurn.simps)

lemma prepare_panelist:
  "cursor p = CurPanelist r i \<Longrightarrow> r \<in> set (roundComplete p) \<Longrightarrow> prepareNextTurn p =
    ((fst (flushPending p))\<lparr>active := Some \<lparr>at_persona = PANELISTS ! i, at_round = r, at_index = int i,
        at_text = getText (rec_text p) (PANELISTS ! i) r, at_pos = 0, isModerator = False\<rparr>\<rparr>,
     snd (flushPending p), None)"
  by (simp add: prepareNextTurn.simps flushPending_def Let_def)

lemma prepare_park:
  "\<not> terminalKnown p \<Longrightarrow> cursor p = CurModerator \<or> (\<exists>r i. cursor p = CurPanelist r i \<and> r \<notin> set (roundComplete p)) \<Longrightarrow>
   prepareNextTurn p = (p, [], Some PARK)"
  by (auto simp: prepareNextTurn.simps [of p] terminalKnown_def)

lemma prepare_moderator:
  assumes "to_moderator p"
  shows "prepareNextTurn p = prepareNextTurn (p\<lparr>cursor := CurModerator\<rparr>)"
proof (cases "cursor p")
  case (CurPanelist r i)
  with assms show ?thesis by (simp add: to_moderator_def prepareNextTurn.simps [of p])
next
  case CurModerator
  then have "p\<lparr>cursor := CurModerator\<rparr> = p" by simp
  then show ?thesis by simp
qed (use assms in \<open>simp add: to_moderator_def\<close>)

lemma prepare_failed:
  assumes "to_moderator p" "rec_verdict p = None" "terminalKnown p"
  shows "prepareNextTurn p = ((fst (flushPending p))\<lparr>cursor := CurDone\<rparr>,
    snd (flushPending p) @ finalizeTerminal p, Some DONE)"
  using assms(2,3)
  by (simp add: prepare_moderator [OF assms(1)] prepareNextTurn.simps [of "p\<lparr>cursor := CurModerator\<rparr>"]
      flushPending_def terminalKnown_def finalizeTerminal_def)

lemma prepare_verdict:
  assumes "to_moderator p" "rec_verdict p = Some v"
  shows "prepareNextTurn p =
   (if getText (rec_text p) Moderator (moderator_round p) = []
    then ((fst (flushPending p))\<lparr>cursor := CurDone\<rparr>, snd (flushPending p) @ [Wire (VerdictEvent v)], Some DONE)
    else ((fst (flushPending p))\<lparr>cursor := CurModerator,
        active := Some \<lparr>at_persona = Moderator, at_round = moderator_round p, at_index = - 1,
          at_text = getText (rec_text p) Moderator (moderator_round p), at_pos = 0, isModerator = True\<rparr>\<rparr>,
      snd (flushPending p), None))"
  using assms(2)
  by (simp add: prepare_moderator [OF assms(1)] prepareNextTurn.simps [of "p\<lparr>cursor := CurModerator\<rparr>"]
      flushPending_def moderator_round_def maxPanelRound_def Let_def split: option.split)

lemma prepare_cases:
  obtains (Finished) "cursor p = CurDone"
    | (Panelist) r i where "cursor p = CurPanelist r i" "r \<in> set (roundComplete p)"
    | (Parked) "\<not> terminalKnown p"
        "cursor p = CurModerator \<or> (\<exists>r i. cursor p = CurPanelist r i \<and> r \<notin> set (roundComplete p))"
    | (Failed) "to_moderator p" "rec_verdict p = None" "terminalKnown p"
    | (Verdict) v where "to_moderator p" "rec_verdict p = Some v"
  by (cases "cursor p"; cases "terminalKnown p"; cases "rec_verdict p")
    (auto simp: to_moderator_def terminalKnown_def)

section \<open>Every step keeps the invariant\<close>

lemma recording_ok_frame [frame_simps]:
  "recording_ok (p\<lparr>active := x1\<rparr>) = recording_ok p"
  "recording_ok (p\<lparr>cursor := x2\<rparr>) = recording_ok p"
  "recording_ok (p\<lparr>pendingDone := x3\<rparr>) = recording_ok p"
  "recording_ok (p\<lparr>pendingRoundComplete := x4\<rparr>) = recording_ok p"
  "recording_ok (p\<lparr>pendingErrors := x5\<rparr>) = recording_ok p"
  "recording_ok (p\<lparr>timer := x6\<rparr>) = recording_ok p"
  "recording_ok (p\<lparr>rate := x7\<rparr>) = recording_ok p"
  "recording_ok (p\<lparr>draining := x8\<rparr>) = recording_ok p"
  "recording_ok (p\<lparr>closed := x9\<rparr>) = recording_ok p"
  by (simp_all add: recording_ok_def)

lemma pending_ok_frame [frame_simps]:
  "pending_ok (p\<lparr>active := x1\<rparr>) = pending_ok p"
  "pending_ok (p\<lparr>cursor := x2\<rparr>) = pending_ok p"
  "pending_ok (p\<lparr>timer := x6\<rparr>) = pending_ok p"
  "pending_ok (p\<lparr>draining := x8\<rparr>) = pending_ok p"
  "pending_ok (p\<lparr>personaErrors := x10\<rparr>) = pending_ok p"
  by (simp_all add: pending_ok_def)

lemma pending_ok_idle: "idle_pending p \<Longrightarrow> pending_ok p"
  by (simp add: idle_pending_def pending_ok_def)

lemma flushed [simp]:
  "idle_pending (fst (flushPending p))"
  "fst (flushPending p) = p\<lparr>pendingDone := None, pendingRoundComplete := None, pendingErrors := []\<rparr>"
  by (simp_all add: flushPending_def idle_pending_def)

lemma flush_idle: "idle_pending p \<Longrightarrow> flushPending p = (p, [])"
  by (simp add: idle_pending_def flushPending_def)

lemma flush_out_ok: "pending_ok p \<Longrightarrow> list_all ok_input (snd (flushPending p))"
  by (cases "pendingDone p") (auto simp: flushPending_def pending_ok_def list_all_iff split: option.splits)

lemma finalize_out_ok: "list_all ok_input (finalizeTerminal p)"
  by (simp add: finalizeTerminal_def split: option.splits)

lemma moderator_round_ok:
  assumes "recording_ok p" "getText (rec_text p) Moderator (moderator_round p) \<noteq> []"
  shows "moderator_round p \<in> {1..MAX_WIRE_ROUND}"
  using assms unfolding recording_ok_def by metis

lemma prepare_inv:
  assumes inv: "player_inv p" and act: "active p = None"
  shows "player_inv (fst (prepareNextTurn p))" "list_all ok_input (fst (snd (prepareNextTurn p)))"
    "snd (snd (prepareNextTurn p)) = None \<longleftrightarrow> active (fst (prepareNextTurn p)) \<noteq> None"
proof -
  from inv have rec: "recording_ok p" and pend: "list_all ok_input (snd (flushPending p))"
    and rate: "rate_ok (rate p)" and cur: "cursor_ok p"
    by (simp_all add: player_inv_def flush_out_ok)
  from rec have caps: "length (getText (rec_text p) q r) \<le> MAX_TURN_CHARS" for q r
    by (simp add: recording_ok_def)
  have "player_inv (fst (prepareNextTurn p)) \<and> list_all ok_input (fst (snd (prepareNextTurn p)))
    \<and> (snd (snd (prepareNextTurn p)) = None \<longleftrightarrow> active (fst (prepareNextTurn p)) \<noteq> None)"
  proof (cases p rule: prepare_cases)
    case Finished
    with inv act show ?thesis by (simp add: prepare_done)
  next
    case (Panelist r i)
    from rec Panelist(2) have "r \<in> {1..MAX_WIRE_ROUND}" by (auto simp: recording_ok_def)
    with Panelist rate rec pend cur caps show ?thesis
      by (simp add: prepare_panelist player_inv_def frame_simps pending_ok_idle idle_pending_def
          cursor_ok_def turn_ok_def)
  next
    case Parked
    with inv act show ?thesis by (simp add: prepare_park)
  next
    case Failed
    with rate rec pend act show ?thesis
      by (simp add: prepare_failed player_inv_def frame_simps pending_ok_idle idle_pending_def
          cursor_ok_def finalize_out_ok)
  next
    case (Verdict v)
    show ?thesis
    proof (cases "getText (rec_text p) Moderator (moderator_round p) = []")
      case True
      with Verdict rate rec pend act show ?thesis
        by (simp add: prepare_verdict player_inv_def frame_simps pending_ok_idle idle_pending_def cursor_ok_def)
    next
      case False
      with Verdict rate rec pend caps moderator_round_ok [OF rec False] show ?thesis
        by (simp add: prepare_verdict player_inv_def frame_simps pending_ok_idle idle_pending_def
            cursor_ok_def turn_ok_def terminalKnown_def)
    qed
  qed
  then show "player_inv (fst (prepareNextTurn p))" "list_all ok_input (fst (snd (prepareNextTurn p)))"
    "snd (snd (prepareNextTurn p)) = None \<longleftrightarrow> active (fst (prepareNextTurn p)) \<noteq> None"
    by blast+
qed

text \<open>What \<open>revealStep\<close> does when a turn is complete, and when it is not.\<close>

lemma reveal_moderator_end:
  "at_pos a \<ge> length (at_text a) \<Longrightarrow> isModerator a \<Longrightarrow> rec_verdict p = Some v \<Longrightarrow>
   revealStep a p = (p\<lparr>active := None, cursor := CurDone\<rparr>, [Wire (VerdictEvent v)], DONE)"
  by (simp add: revealStep_def)

definition next_cursor :: "nat \<Rightarrow> nat \<Rightarrow> cursor" where
  "next_cursor r i = (if i < length PANELISTS - 1 then CurPanelist r (i + 1) else CurPanelist (r + 1) 0)"

lemma reveal_panelist_end:
  "at_pos a \<ge> length (at_text a) \<Longrightarrow> \<not> isModerator a \<Longrightarrow> at_index a = int i \<Longrightarrow> i < length PANELISTS \<Longrightarrow>
   revealStep a p =
     (p\<lparr>personaErrors := (personaErrors p)(at_persona a := None),
        cursor := next_cursor (at_round a) i, active := None,
        pendingDone := Some (at_persona a, at_round a),
        pendingRoundComplete := (if i = length PANELISTS - 1 then Some (at_round a) else pendingRoundComplete p),
        pendingErrors := pendingErrors p @ (case personaErrors p (at_persona a) of None \<Rightarrow> [] | Some e \<Rightarrow> [e])\<rparr>,
      [], turnGapMs p)"
  by (cases "personaErrors p (at_persona a)")
    (auto simp: revealStep_def Let_def next_cursor_def turnGapMs_def fun_upd_idem nat_add_distrib)

definition reveal_end :: "player \<Rightarrow> active_turn \<Rightarrow> nat" where
  "reveal_end p a = (if reducedMotion p \<or> draining p then length (at_text a) else nextChunkEnd (at_text a) (at_pos a))"

lemma reveal_end_bounds:
  "at_pos a < length (at_text a) \<Longrightarrow> at_pos a < reveal_end p a \<and> reveal_end p a \<le> length (at_text a)"
  by (simp add: reveal_end_def words.advances words.in_range)

lemma reveal_chunk:
  "at_pos a < length (at_text a) \<Longrightarrow> revealStep a p =
    (p\<lparr>active := Some (a\<lparr>at_pos := reveal_end p a\<rparr>)\<rparr>,
     [Wire (TokenEvent (at_persona a) (at_round a) (slice (at_text a) (at_pos a) (reveal_end p a)))], tickMs p)"
  by (simp add: revealStep_def reveal_end_def Let_def)

lemma turn_panelist:
  assumes "turn_ok p a" "\<not> isModerator a"
  obtains i where "at_index a = int i" "i < 4" "at_persona a = PANELISTS ! i"
    "cursor p = CurPanelist (at_round a) i" "at_round a \<in> set (roundComplete p)"
  using assms by (auto simp: turn_ok_def) (metis int_eq_iff nat_less_iff of_nat_numeral)

lemma reveal_inv:
  assumes inv: "player_inv p" and act: "active p = Some a"
  shows "player_inv (fst (revealStep a p)) \<and> list_all ok_input (fst (snd (revealStep a p)))"
proof -
  from inv act have rec: "recording_ok p" and turn: "turn_ok p a" and rate: "rate_ok (rate p)"
    and cur: "cursor_ok p" and idle: "idle_pending p" and r: "at_round a \<in> {1..MAX_WIRE_ROUND}"
    by (auto simp: player_inv_def turn_ok_def)
  consider (Chunk) "at_pos a < length (at_text a)"
    | (ModEnd) "at_pos a \<ge> length (at_text a)" "isModerator a"
    | (PanEnd) "at_pos a \<ge> length (at_text a)" "\<not> isModerator a" by fastforce
  then show ?thesis
  proof cases
    case Chunk
    from reveal_end_bounds [OF this] turn rec rate cur idle r Chunk show ?thesis
      by (cases "isModerator a"; simp add: reveal_chunk player_inv_def frame_simps pending_ok_idle
          idle_pending_def cursor_ok_def turn_ok_def terminalKnown_def nat_less_iff)
  next
    case ModEnd
    with turn obtain v where "rec_verdict p = Some v" by (auto simp: turn_ok_def)
    with ModEnd rec rate idle show ?thesis
      by (simp add: reveal_moderator_end player_inv_def frame_simps pending_ok_idle idle_pending_def cursor_ok_def)
  next
    case PanEnd
    obtain i where i: "at_index a = int i" "i < 4" "at_persona a = PANELISTS ! i"
      "cursor p = CurPanelist (at_round a) i" "at_round a \<in> set (roundComplete p)"
      using turn_panelist [OF turn PanEnd(2)] .
    from rec have errs: "personaErrors p q = Some e \<Longrightarrow> ee_persona e = Some q \<and> q \<noteq> Moderator" for q e
      by (simp add: recording_ok_def)
    have "recording_ok (p\<lparr>personaErrors := (personaErrors p)(q := None)\<rparr>)" for q
      using rec by (simp add: recording_ok_def)
    moreover have "pending_ok (fst (revealStep a p))"
      using PanEnd i r idle errs
      by (auto simp: reveal_panelist_end pending_ok_def idle_pending_def split: option.splits)
    ultimately show ?thesis using PanEnd i rate r
      by (simp add: reveal_panelist_end player_inv_def frame_simps cursor_ok_def next_cursor_def)
  qed
qed

lemma step_active: "active p = Some a \<Longrightarrow> step p = revealStep a p"
  by (simp add: step_def)

lemma step_stops: "active p = None \<Longrightarrow> prepareNextTurn p = (p', out, Some d) \<Longrightarrow> step p = (p', out, d)"
  by (simp add: step_def)

lemma step_opens:
  "active p = None \<Longrightarrow> prepareNextTurn p = (p', out, None) \<Longrightarrow> active p' = Some a \<Longrightarrow>
   step p = (fst (revealStep a p'), out @ fst (snd (revealStep a p')), snd (snd (revealStep a p')))"
  by (simp add: step_def split: prod.splits)

text \<open>A step is a reveal, a stop, or the opening of a turn followed by a reveal.\<close>

lemma step_cases:
  assumes "player_inv p"
  obtains (Reveals) a where "active p = Some a" "step p = revealStep a p"
    | (Stops) p' out d where "active p = None" "prepareNextTurn p = (p', out, Some d)"
        "step p = (p', out, d)" "player_inv p'" "active p' = None"
    | (Opens) p' out a where "active p = None" "prepareNextTurn p = (p', out, None)"
        "active p' = Some a" "player_inv p'"
        "step p = (fst (revealStep a p'), out @ fst (snd (revealStep a p')), snd (snd (revealStep a p')))"
proof (cases "active p")
  case None
  obtain p' out d where eq: "prepareNextTurn p = (p', out, d)" by (cases "prepareNextTurn p") auto
  note inv = prepare_inv [OF assms None, unfolded eq, simplified]
  show ?thesis
  proof (cases d)
    case None': None
    with inv obtain a where "active p' = Some a" by auto
    with None None' eq inv show ?thesis by (auto intro: Opens dest: step_opens)
  next
    case (Some d')
    with None eq inv show ?thesis by (auto intro: Stops dest: step_stops)
  qed
next
  case (Some a)
  then show ?thesis using Reveals step_active by blast
qed

lemma step_inv:
  assumes "player_inv p"
  shows "player_inv (fst (step p))" "list_all ok_input (fst (snd (step p)))"
proof -
  have "player_inv (fst (step p)) \<and> list_all ok_input (fst (snd (step p)))"
    using assms
  proof (cases rule: step_cases)
    case (Reveals a)
    with reveal_inv [OF assms] show ?thesis by simp
  next
    case (Stops p' out d)
    with prepare_inv [OF assms Stops(1)] show ?thesis by simp
  next
    case (Opens p' out a)
    with prepare_inv [OF assms Opens(1)] reveal_inv [OF Opens(4,3)] show ?thesis by simp
  qed
  then show "player_inv (fst (step p))" "list_all ok_input (fst (snd (step p)))" by blast+
qed

section \<open>Steps and live status\<close>

lemma ready_iff:
  "hasReadyWork p \<longleftrightarrow> active p \<noteq> None \<or> (cursor p \<noteq> CurDone \<and> (hasBufferedTurn p (cursor p) \<or> terminalKnown p))"
  by (simp add: hasReadyWork_def)

lemma step_parked:
  assumes "\<not> hasReadyWork p"
  shows "step p = (p, [], if cursor p = CurDone then DONE else PARK)"
proof (cases p rule: prepare_cases)
  case Finished
  with assms show ?thesis by (simp add: ready_iff step_stops prepare_done)
next
  case Parked
  with assms show ?thesis by (auto simp: ready_iff prepare_park intro!: step_stops)
qed (use assms in \<open>auto simp: ready_iff to_moderator_def terminalKnown_def\<close>)

lemma reveal_not_ready:
  assumes "player_inv p" "active p = Some a" "is_sentinel (snd (snd (revealStep a p)))"
  shows "snd (snd (revealStep a p)) = DONE \<and> cursor (fst (revealStep a p)) = CurDone
    \<and> active (fst (revealStep a p)) = None"
proof -
  from assms have turn: "turn_ok p a" and rate: "rate_ok (rate p)" by (auto simp: player_inv_def)
  consider (Chunk) "at_pos a < length (at_text a)"
    | (ModEnd) "at_pos a \<ge> length (at_text a)" "isModerator a"
    | (PanEnd) "at_pos a \<ge> length (at_text a)" "\<not> isModerator a" by fastforce
  then show ?thesis
  proof cases
    case ModEnd
    with turn obtain v where "rec_verdict p = Some v" by (auto simp: turn_ok_def)
    with ModEnd show ?thesis by (simp add: reveal_moderator_end)
  next
    case PanEnd
    obtain i where "at_index a = int i" "i < 4" using turn_panelist [OF turn PanEnd(2)] by metis
    with PanEnd assms(3) delays_not_sentinels [OF rate] show ?thesis by (simp add: reveal_panelist_end)
  qed (use assms(3) delays_not_sentinels [OF rate] in \<open>simp add: reveal_chunk\<close>)
qed

lemma step_stops_not_ready:
  assumes inv: "player_inv p" and stop: "is_sentinel (snd (snd (step p)))"
  shows "\<not> hasReadyWork (fst (step p))"
proof (cases "hasReadyWork p")
  case False
  then show ?thesis by (simp add: step_parked)
next
  case ready: True
  from inv show ?thesis
  proof (cases rule: step_cases)
    case (Reveals a)
    with reveal_not_ready [OF inv Reveals(1)] stop show ?thesis by (simp add: ready_iff)
  next
    case (Stops p' out d)
    have "cursor p' = CurDone"
      using Stops(1,2) ready by (cases p rule: prepare_cases)
        (auto simp: ready_iff terminalKnown_def prepare_done prepare_panelist prepare_park prepare_failed prepare_verdict split: if_splits)
    with Stops show ?thesis by (simp add: ready_iff)
  next
    case (Opens p' out a)
    with reveal_not_ready [OF Opens(4,3)] stop show ?thesis by (simp add: ready_iff)
  qed
qed

section \<open>Work left\<close>

definition turns_left :: "player \<Rightarrow> nat" where
  "turns_left p = (case cursor p of
     CurPanelist r i \<Rightarrow> length PANELISTS * card {k \<in> set (roundComplete p). r \<le> k} - i + 2
   | CurModerator \<Rightarrow> 1
   | CurDone \<Rightarrow> 0)"

text \<open>Turns still to play, and the characters of the current one: a bound on the steps left.\<close>

definition work :: "player \<Rightarrow> nat" where
  "work p = turns_left p * (MAX_TURN_CHARS + 2)
    + (case active p of None \<Rightarrow> MAX_TURN_CHARS + 1 | Some a \<Rightarrow> length (at_text a) - at_pos a)"

lemma turns_left_frame [frame_simps]:
  "turns_left (p\<lparr>active := x1\<rparr>) = turns_left p"
  "turns_left (p\<lparr>pendingDone := x3\<rparr>) = turns_left p"
  "turns_left (p\<lparr>pendingRoundComplete := x4\<rparr>) = turns_left p"
  "turns_left (p\<lparr>pendingErrors := x5\<rparr>) = turns_left p"
  "turns_left (p\<lparr>personaErrors := x6\<rparr>) = turns_left p"
  "turns_left (p\<lparr>timer := x7\<rparr>) = turns_left p"
  "turns_left (p\<lparr>draining := x8\<rparr>) = turns_left p"
  by (simp_all add: turns_left_def split: cursor.split)

lemma turns_left_cong:
  "cursor p = cursor p' \<Longrightarrow> roundComplete p = roundComplete p' \<Longrightarrow> turns_left p = turns_left p'"
  by (simp add: turns_left_def split: cursor.split)

lemma card_rounds_from:
  assumes "r \<in> set rs"
  shows "card {k \<in> set rs. r \<le> k} = Suc (card {k \<in> set rs. Suc r \<le> k})"
proof -
  have "{k \<in> set rs. r \<le> k} = insert r {k \<in> set rs. Suc r \<le> k}"
    using assms by (auto simp: Suc_le_eq order_le_less)
  then show ?thesis by simp
qed

lemma turns_left_next:
  assumes "cursor p = CurPanelist r i" "i < 4" "r \<in> set (roundComplete p)"
  shows "turns_left (p\<lparr>cursor := next_cursor r i\<rparr>) < turns_left p"
  using assms card_rounds_from [OF assms(3)] by (auto simp: turns_left_def next_cursor_def; linarith)

lemma work_less:
  assumes "turns_left p' < turns_left p"
    and "\<And>a. active p' = Some a \<Longrightarrow> length (at_text a) - at_pos a \<le> MAX_TURN_CHARS"
  shows "work p' < work p"
proof -
  have "(case active p' of None \<Rightarrow> MAX_TURN_CHARS + 1 | Some a \<Rightarrow> length (at_text a) - at_pos a) < MAX_TURN_CHARS + 2"
    using assms(2) by (cases "active p'") (auto simp: less_Suc_eq_le le_SucI)
  then have "work p' < (turns_left p' + 1) * (MAX_TURN_CHARS + 2)" by (simp add: work_def)
  also have "\<dots> \<le> turns_left p * (MAX_TURN_CHARS + 2)" using assms(1) by (intro mult_le_mono1) simp
  also have "\<dots> \<le> work p" by (simp add: work_def)
  finally show ?thesis .
qed

lemma reveal_work:
  assumes inv: "player_inv p" and act: "active p = Some a"
  shows "work (fst (revealStep a p)) < work p"
proof -
  from inv act have turn: "turn_ok p a" by (simp add: player_inv_def)
  consider (Chunk) "at_pos a < length (at_text a)"
    | (ModEnd) "at_pos a \<ge> length (at_text a)" "isModerator a"
    | (PanEnd) "at_pos a \<ge> length (at_text a)" "\<not> isModerator a" by fastforce
  then show ?thesis
  proof cases
    case Chunk
    with reveal_end_bounds [OF Chunk, of p] act show ?thesis
      by (simp add: reveal_chunk work_def frame_simps; linarith)
  next
    case ModEnd
    with turn obtain v where "rec_verdict p = Some v" "cursor p = CurModerator" by (auto simp: turn_ok_def)
    with ModEnd show ?thesis
      by (intro work_less) (simp_all add: reveal_moderator_end turns_left_def)
  next
    case PanEnd
    obtain i where i: "at_index a = int i" "i < 4" "cursor p = CurPanelist (at_round a) i"
      "at_round a \<in> set (roundComplete p)" using turn_panelist [OF turn PanEnd(2)] by metis
    from PanEnd i have eq: "turns_left (fst (revealStep a p)) = turns_left (p\<lparr>cursor := next_cursor (at_round a) i\<rparr>)"
      by (intro turns_left_cong) (simp_all add: reveal_panelist_end)
    from PanEnd i show ?thesis
      by (intro work_less, unfold eq) (simp_all add: reveal_panelist_end turns_left_next [OF i(3,2,4)])
  qed
qed

lemma prepare_work:
  assumes inv: "player_inv p" and act: "active p = None" and ready: "hasReadyWork p"
  shows "work (fst (prepareNextTurn p)) < work p"
proof -
  from inv have caps: "length (getText (rec_text p) q r) \<le> MAX_TURN_CHARS" for q r
    by (simp add: player_inv_def recording_ok_def)
  have le: "turns_left (p\<lparr>cursor := CurModerator\<rparr>) \<le> turns_left p"
    and less: "turns_left (p\<lparr>cursor := CurDone\<rparr>) < turns_left p" if "to_moderator p"
    using that by (auto simp: to_moderator_def turns_left_def)
  show ?thesis
  proof (cases p rule: prepare_cases)
    case (Panelist r i)
    with act caps show ?thesis by (simp add: prepare_panelist work_def frame_simps less_Suc_eq_le)
  next
    case Failed
    with act less show ?thesis
      by (intro work_less) (simp_all add: prepare_failed turns_left_def)
  next
    case (Verdict v)
    show ?thesis
    proof (cases "getText (rec_text p) Moderator (moderator_round p) = []")
      case True
      with Verdict act less show ?thesis
        by (intro work_less) (simp_all add: prepare_verdict turns_left_def)
    next
      case False
      let ?t = "getText (rec_text p) Moderator (moderator_round p)"
      have "work (fst (prepareNextTurn p)) = turns_left (p\<lparr>cursor := CurModerator\<rparr>) * (MAX_TURN_CHARS + 2) + length ?t"
        using False Verdict by (simp add: prepare_verdict work_def turns_left_def)
      also have "\<dots> < work p"
        using le [OF Verdict(1)] act caps [of Moderator "moderator_round p"]
        by (simp add: work_def less_Suc_eq_le add_mono mult_le_mono1 del: mult_Suc_right add_2_eq_Suc')
      finally show ?thesis .
    qed
  qed (use act ready in \<open>auto simp: ready_iff terminalKnown_def\<close>)
qed

lemma step_work:
  assumes inv: "player_inv p" and ready: "hasReadyWork p"
  shows "work (fst (step p)) < work p"
  using inv
proof (cases rule: step_cases)
  case (Reveals a)
  with reveal_work [OF inv] show ?thesis by simp
next
  case (Stops p' out d)
  with prepare_work [OF inv Stops(1) ready] show ?thesis by simp
next
  case (Opens p' out a)
  with prepare_work [OF inv Opens(1) ready] reveal_work [OF Opens(4,3)] show ?thesis by simp
qed

section \<open>The loops end\<close>

text \<open>Stepping until there is no ready work: the inputs handed out on the way and the player
  reached.\<close>

inductive settles :: "player \<Rightarrow> debate_input list \<Rightarrow> player \<Rightarrow> bool" where
  at_live: "\<not> hasReadyWork p \<Longrightarrow> settles p [] p"
| more_work: "hasReadyWork p \<Longrightarrow> step p = (p', out, d) \<Longrightarrow> settles p' out' q \<Longrightarrow> settles p (out @ out') q"

inductive_cases settles_readyE: "settles p out q"

lemma settles_exists: "player_inv p \<Longrightarrow> \<exists>out q. settles p out q"
proof (induction "work p" arbitrary: p rule: less_induct)
  case less
  show ?case
  proof (cases "hasReadyWork p")
    case True
    obtain p' out d where eq: "step p = (p', out, d)" by (cases "step p") auto
    with step_work [OF less.prems True] step_inv [OF less.prems] less.hyps [of p'] True show ?thesis
      by (auto intro: settles.more_work)
  qed (auto intro: settles.at_live)
qed

lemma settles_inv:
  "settles p out q \<Longrightarrow> player_inv p \<Longrightarrow> player_inv q \<and> list_all ok_input out \<and> \<not> hasReadyWork q"
proof (induction rule: settles.induct)
  case (more_work p p' out d out' q)
  with step_inv [OF more_work.prems] show ?case by simp
qed simp

lemma settles_determ: "settles p out q \<Longrightarrow> settles p out' q' \<Longrightarrow> out = out' \<and> q = q'"
proof (induction arbitrary: out' q' rule: settles.induct)
  case (at_live p)
  from at_live.prems at_live.hyps show ?case by (cases rule: settles.cases) auto
next
  case (more_work p p1 o1 d o2 q)
  from more_work.prems more_work.hyps(1,2) obtain o3 where o3: "out' = o1 @ o3" "settles p1 o3 q'"
    by (cases rule: settles.cases) auto
  from more_work.IH [OF o3(2)] o3(1) show ?case by simp
qed

lemma drain_stop: "is_sentinel d \<Longrightarrow> drain_loop p out d = Some (p, out)"
  by (subst drain_loop.simps) simp

lemma drain_go:
  "\<not> is_sentinel d \<Longrightarrow> step p = (p', out', d') \<Longrightarrow> drain_loop p out d = drain_loop p' (out @ out') d'"
  by (subst drain_loop.simps) simp

lemma drain_settles:
  "settles p o' q \<Longrightarrow> player_inv p \<Longrightarrow> is_sentinel d \<longrightarrow> \<not> hasReadyWork p \<Longrightarrow>
   drain_loop p out d = Some (q, out @ o')"
proof (induction arbitrary: out d rule: settles.induct)
  case (at_live p)
  then show ?case
    by (cases "is_sentinel d") (auto simp: drain_stop drain_go [OF _ step_parked])
next
  case (more_work p p' out1 d' out2 q)
  from step_stops_not_ready [OF more_work.prems(1)] more_work.hyps(2)
  have "is_sentinel d' \<longrightarrow> \<not> hasReadyWork p'" by simp
  with more_work.IH more_work.hyps(1,2) more_work.prems step_inv [OF more_work.prems(1)] show ?case
    by (simp add: drain_go [OF _ more_work.hyps(2)])
qed

text \<open>The timer and the flag \<open>draining\<close> are no part of the recording or of the schedule.\<close>

lemma player_inv_frame [frame_simps]:
  "player_inv (p\<lparr>timer := t\<rparr>) = player_inv p"
  "player_inv (p\<lparr>draining := b\<rparr>) = player_inv p"
  "hasReadyWork (p\<lparr>timer := t\<rparr>) = hasReadyWork p"
  "hasReadyWork (p\<lparr>draining := b\<rparr>) = hasReadyWork p"
  "work (p\<lparr>timer := t\<rparr>) = work p"
proof -
  have 1: "cursor_ok (p\<lparr>timer := t\<rparr>) = cursor_ok p" "cursor_ok (p\<lparr>draining := b\<rparr>) = cursor_ok p"
    by (simp_all add: cursor_ok_def idle_pending_def terminalKnown_def split: cursor.split)
  have 2: "turn_ok (p\<lparr>timer := t\<rparr>) a = turn_ok p a" "turn_ok (p\<lparr>draining := b\<rparr>) a = turn_ok p a" for a
    by (simp_all add: turn_ok_def idle_pending_def)
  show "player_inv (p\<lparr>timer := t\<rparr>) = player_inv p" "player_inv (p\<lparr>draining := b\<rparr>) = player_inv p"
    by (simp_all add: player_inv_def frame_simps 1 2)
  have 3: "hasBufferedTurn (p\<lparr>timer := t\<rparr>) c = hasBufferedTurn p c"
    "hasBufferedTurn (p\<lparr>draining := b\<rparr>) c = hasBufferedTurn p c" for c
    by (cases c; simp)+
  show "hasReadyWork (p\<lparr>timer := t\<rparr>) = hasReadyWork p" "hasReadyWork (p\<lparr>draining := b\<rparr>) = hasReadyWork p"
    by (simp_all add: ready_iff 3 terminalKnown_def)
  show "work (p\<lparr>timer := t\<rparr>) = work p" by (simp add: work_def frame_simps)
qed

lemma skip_settles:
  assumes inv: "player_inv p"
  shows "\<exists>out q. settles (p\<lparr>timer := None, draining := True\<rparr>) out q
    \<and> skipToLive p = Some (q\<lparr>draining := False\<rparr>, out)"
proof -
  let ?p = "p\<lparr>timer := None, draining := True\<rparr>"
  from inv have inv': "player_inv ?p" by (simp add: frame_simps)
  obtain out q where s: "settles ?p out q" using settles_exists [OF inv'] by blast
  obtain p1 o1 d where eq: "step ?p = (p1, o1, d)" by (cases "step ?p") auto
  have "drain_loop p1 o1 d = Some (q, out)"
    using s
  proof (cases rule: settles.cases)
    case at_live
    with step_parked [of ?p] eq show ?thesis by (auto simp: drain_stop split: if_splits)
  next
    case (more_work p' out1 d' out2)
    with eq drain_settles [OF more_work(4), of d] step_inv [OF inv'] step_stops_not_ready [OF inv']
    show ?thesis by simp
  qed
  with s eq show ?thesis by (auto simp: skipToLive_def)
qed

section \<open>What playback does not depend on\<close>

text \<open>Timers, speed and the two reveal flags set the pace only.\<close>

definition paced :: "jsnum option \<Rightarrow> jsnum \<Rightarrow> bool \<Rightarrow> bool \<Rightarrow> player \<Rightarrow> player" where
  "paced t x b m p = p\<lparr>timer := t, rate := x, draining := b, reducedMotion := m\<rparr>"

lemma paced_fields [simp]:
  "timer (paced t x b m p) = t" "rate (paced t x b m p) = x"
  "draining (paced t x b m p) = b" "reducedMotion (paced t x b m p) = m"
  "rec_text (paced t x b m p) = rec_text p" "roundComplete (paced t x b m p) = roundComplete p"
  "personaErrors (paced t x b m p) = personaErrors p" "rec_verdict (paced t x b m p) = rec_verdict p"
  "sessionError (paced t x b m p) = sessionError p" "closed (paced t x b m p) = closed p"
  "moderatorRound (paced t x b m p) = moderatorRound p" "cursor (paced t x b m p) = cursor p"
  "active (paced t x b m p) = active p" "pendingDone (paced t x b m p) = pendingDone p"
  "pendingRoundComplete (paced t x b m p) = pendingRoundComplete p"
  "pendingErrors (paced t x b m p) = pendingErrors p"
  by (simp_all add: paced_def)

lemma paced_paced [simp]: "paced t x b m (paced t' x' b' m' p) = paced t x b m p"
  by (simp add: paced_def)

lemma paced_own: "paced (timer p) (rate p) (draining p) (reducedMotion p) p = p"
  by (simp add: paced_def)

lemma paced_queries [frame_simps]:
  "terminalKnown (paced t x b m p) = terminalKnown p"
  "hasBufferedTurn (paced t x b m p) c = hasBufferedTurn p c"
  "hasReadyWork (paced t x b m p) = hasReadyWork p"
  "finalizeTerminal (paced t x b m p) = finalizeTerminal p"
  "moderator_round (paced t x b m p) = moderator_round p"
  "to_moderator (paced t x b m p) = to_moderator p"
  "flushPending (paced t x b m p) = (paced t x b m (fst (flushPending p)), snd (flushPending p))"
proof -
  show 1: "terminalKnown (paced t x b m p) = terminalKnown p" by (simp add: terminalKnown_def)
  show 2: "hasBufferedTurn (paced t x b m p) c = hasBufferedTurn p c" for c by (cases c) simp_all
  show "hasReadyWork (paced t x b m p) = hasReadyWork p" by (simp add: ready_iff 1 2)
  show "finalizeTerminal (paced t x b m p) = finalizeTerminal p" by (simp add: finalizeTerminal_def)
  have "maxPanelRound (paced t x b m p) = maxPanelRound p" by (simp add: maxPanelRound_def)
  then show "moderator_round (paced t x b m p) = moderator_round p"
    by (simp add: moderator_round_def split: option.split)
  show "to_moderator (paced t x b m p) = to_moderator p" by (simp add: to_moderator_def 1)
  show "flushPending (paced t x b m p) = (paced t x b m (fst (flushPending p)), snd (flushPending p))"
    by (simp add: flushPending_def paced_def)
qed

lemma prepare_paced:
  "prepareNextTurn (paced t x b m p) = (case prepareNextTurn p of (p', out, d) \<Rightarrow> (paced t x b m p', out, d))"
proof (cases p rule: prepare_cases)
  case Finished
  then show ?thesis by (simp add: prepare_done)
next
  case (Panelist r i)
  then show ?thesis by (simp add: prepare_panelist frame_simps)
next
  case Parked
  then show ?thesis by (simp add: prepare_park frame_simps)
next
  case Failed
  then show ?thesis by (simp add: prepare_failed frame_simps)
next
  case (Verdict v)
  then show ?thesis by (simp add: prepare_verdict frame_simps)
qed

lemma reveal_paced:
  assumes "(reducedMotion p \<or> draining p) = (m \<or> b)"
  shows "fst (revealStep a (paced t x b m p)) = paced t x b m (fst (revealStep a p))"
    "fst (snd (revealStep a (paced t x b m p))) = fst (snd (revealStep a p))"
proof -
  from assms have e: "reveal_end (paced t x b m p) a = reveal_end p a" by (simp add: reveal_end_def)
  have "fst (revealStep a (paced t x b m p)) = paced t x b m (fst (revealStep a p))
    \<and> fst (snd (revealStep a (paced t x b m p))) = fst (snd (revealStep a p))"
  proof (cases "at_pos a < length (at_text a)")
    case True
    then show ?thesis by (simp add: reveal_chunk e)
  next
    case False
    then show ?thesis
      by (simp add: revealStep_def Let_def split: option.split)
  qed
  then show "fst (revealStep a (paced t x b m p)) = paced t x b m (fst (revealStep a p))"
    "fst (snd (revealStep a (paced t x b m p))) = fst (snd (revealStep a p))" by blast+
qed

lemma prepare_keeps_pace:
  "prepareNextTurn p = (p', out, d) \<Longrightarrow> timer p' = timer p \<and> rate p' = rate p
    \<and> draining p' = draining p \<and> reducedMotion p' = reducedMotion p"
  by (cases p rule: prepare_cases)
    (auto simp: prepare_done prepare_panelist prepare_park prepare_failed prepare_verdict split: if_splits)

lemma reveal_keeps_pace:
  "timer (fst (revealStep a p)) = timer p \<and> rate (fst (revealStep a p)) = rate p
    \<and> draining (fst (revealStep a p)) = draining p \<and> reducedMotion (fst (revealStep a p)) = reducedMotion p"
  by (simp add: revealStep_def Let_def split: option.split)

lemma step_keeps_pace:
  assumes "player_inv p"
  shows "timer (fst (step p)) = timer p" "rate (fst (step p)) = rate p"
    "draining (fst (step p)) = draining p" "reducedMotion (fst (step p)) = reducedMotion p"
  by (use assms in \<open>cases rule: step_cases; auto simp: reveal_keeps_pace dest: prepare_keeps_pace\<close>)+

lemma step_paced:
  assumes inv: "player_inv p" and fast: "(reducedMotion p \<or> draining p) = (m \<or> b)"
  shows "fst (step (paced t x b m p)) = paced t x b m (fst (step p))"
    "fst (snd (step (paced t x b m p))) = fst (snd (step p))"
proof -
  have "fst (step (paced t x b m p)) = paced t x b m (fst (step p))
    \<and> fst (snd (step (paced t x b m p))) = fst (snd (step p))"
    using inv
  proof (cases rule: step_cases)
    case (Reveals a)
    with reveal_paced [OF fast] show ?thesis by (simp add: step_active)
  next
    case (Stops p' out d)
    then have "step (paced t x b m p) = (paced t x b m p', out, d)"
      by (intro step_stops) (simp_all add: prepare_paced)
    with Stops show ?thesis by simp
  next
    case (Opens p' out a)
    then have "step (paced t x b m p) = (fst (revealStep a (paced t x b m p')),
        out @ fst (snd (revealStep a (paced t x b m p'))), snd (snd (revealStep a (paced t x b m p'))))"
      by (intro step_opens) (simp_all add: prepare_paced)
    moreover from prepare_keeps_pace [OF Opens(2)] fast have "(reducedMotion p' \<or> draining p') = (m \<or> b)" by simp
    ultimately show ?thesis using Opens(5) by (simp add: reveal_paced)
  qed
  then show "fst (step (paced t x b m p)) = paced t x b m (fst (step p))"
    "fst (snd (step (paced t x b m p))) = fst (snd (step p))" by blast+
qed

section \<open>Timers\<close>

lemma settles_paced:
  "settles p out q \<Longrightarrow> player_inv p \<Longrightarrow> (reducedMotion p \<or> draining p) = (m \<or> b) \<Longrightarrow>
   settles (paced t x b m p) out (paced t x b m q)"
proof (induction rule: settles.induct)
  case (at_live p)
  then show ?case by (simp add: settles.at_live frame_simps)
next
  case (more_work p p' out d out' q)
  note inv = step_inv [OF more_work.prems(1)] and same = step_paced [OF more_work.prems, of t x]
  from more_work.hyps(2) step_keeps_pace [OF more_work.prems(1)] inv more_work.prems
  have IH: "settles (paced t x b m p') out' (paced t x b m q)" by (intro more_work.IH) simp_all
  obtain d' where "step (paced t x b m p) = (paced t x b m p', out, d')"
    using same more_work.hyps(2) by (cases "step (paced t x b m p)") simp
  with more_work.hyps(1) IH show ?case by (simp add: settles.more_work frame_simps)
qed

lemma settles_keeps_pace:
  "settles p out q \<Longrightarrow> player_inv p \<Longrightarrow> timer q = timer p \<and> rate q = rate p
    \<and> draining q = draining p \<and> reducedMotion q = reducedMotion p"
proof (induction rule: settles.induct)
  case (more_work p p' out d out' q)
  with step_keeps_pace [OF more_work.prems] step_inv [OF more_work.prems] show ?case by simp
qed simp

text \<open>The scheduler is awake: with no timer armed there is nothing it could do.\<close>

definition awake :: "player \<Rightarrow> bool" where
  "awake p \<longleftrightarrow> (timer p = None \<longrightarrow> \<not> hasReadyWork p)"

lemma pump_inv:
  assumes "player_inv p"
  shows "player_inv (fst (pump p))" "awake (fst (pump p))" "list_all ok_input (snd (pump p))"
proof -
  obtain p' out d where eq: "step p = (p', out, d)" by (cases "step p") auto
  have "player_inv (fst (pump p)) \<and> awake (fst (pump p)) \<and> list_all ok_input (snd (pump p))"
    using assms eq step_inv [OF assms] step_stops_not_ready [OF assms] step_keeps_pace [OF assms]
    by (auto simp: pump_def awake_def frame_simps)
  then show "player_inv (fst (pump p))" "awake (fst (pump p))" "list_all ok_input (snd (pump p))" by blast+
qed

lemma run_timers_stop: "timer p = None \<Longrightarrow> run_timers p out = Some (p, out)"
  by (subst run_timers.simps) simp

lemma run_timers_go:
  "timer p \<noteq> None \<Longrightarrow> timer_fires p = (p', out') \<Longrightarrow> run_timers p out = run_timers p' (out @ out')"
  by (subst run_timers.simps) auto

lemma run_settles:
  "settles p0 o' q \<Longrightarrow> player_inv p \<Longrightarrow> timer p \<noteq> None \<Longrightarrow> p0 = p\<lparr>timer := None\<rparr> \<Longrightarrow>
   run_timers p out = Some (q, out @ o')"
proof (induction arbitrary: p out rule: settles.induct)
  case (at_live p0)
  then have "timer_fires p = (p0, [])" by (simp add: timer_fires_def pump_def step_parked)
  with at_live show ?case by (simp add: run_timers_go run_timers_stop)
next
  case (more_work p0 p1 o1 d o2 q)
  from more_work.prems have inv: "player_inv p0" by (simp add: frame_simps)
  from step_keeps_pace(1) [OF inv] more_work.hyps(2) more_work.prems(3) have none: "timer p1 = None" by simp
  have fires: "timer_fires p = (if is_sentinel d then p1 else p1\<lparr>timer := Some d\<rparr>, o1)"
    using more_work.prems more_work.hyps(2) by (auto simp: timer_fires_def pump_def)
  show ?case
  proof (cases "is_sentinel d")
    case True
    with step_stops_not_ready [OF inv] more_work.hyps(2) have "\<not> hasReadyWork p1" by simp
    with more_work.hyps(3) have "o2 = [] \<and> q = p1" by (auto elim: settles.cases)
    with True fires none more_work.prems(2) show ?thesis by (simp add: run_timers_go run_timers_stop)
  next
    case False
    from none have "p1 = p1\<lparr>timer := Some d\<rparr>\<lparr>timer := None\<rparr>" by simp
    with more_work.IH [of "p1\<lparr>timer := Some d\<rparr>"] step_inv(1) [OF inv] more_work.hyps(2)
    have "run_timers (p1\<lparr>timer := Some d\<rparr>) out' = Some (q, out' @ o2)" for out' by (simp add: frame_simps)
    with False fires more_work.prems(2) show ?thesis by (simp add: run_timers_go)
  qed
qed

text \<open>Waiting until the scheduler rests hands out what settling does.\<close>

lemma timers_settle:
  assumes "player_inv p" "awake p"
  shows "\<exists>out q. settles (p\<lparr>timer := None\<rparr>) out q \<and> run_timers p [] = Some (q, out)"
proof (cases "timer p")
  case None
  then have same: "p\<lparr>timer := None\<rparr> = p" by simp
  from None assms have "settles p [] p" by (simp add: awake_def settles.at_live)
  with None show ?thesis unfolding same by (auto simp: run_timers_stop)
next
  case (Some t)
  obtain out q where "settles (p\<lparr>timer := None\<rparr>) out q"
    using settles_exists [of "p\<lparr>timer := None\<rparr>"] assms(1) by (auto simp: frame_simps)
  with run_settles [OF this assms(1)] Some show ?thesis by auto
qed

section \<open>The public methods\<close>

lemma terminalKnown_record: "terminalKnown p \<Longrightarrow> terminalKnown (record_event e p)"
  by (cases e) (auto simp: terminalKnown_def Let_def split: option.split)

lemma record_keeps:
  "cursor (record_event e p) = cursor p" "active (record_event e p) = active p"
  "idle_pending (record_event e p) = idle_pending p" "pending_ok (record_event e p) = pending_ok p"
  "rate (record_event e p) = rate p" "timer (record_event e p) = timer p"
  "draining (record_event e p) = draining p" "reducedMotion (record_event e p) = reducedMotion p"
  "set (roundComplete p) \<subseteq> set (roundComplete (record_event e p))"
  "rec_verdict p \<noteq> None \<Longrightarrow> rec_verdict (record_event e p) \<noteq> None"
  by (cases e; auto simp: Let_def idle_pending_def pending_ok_def split: option.split)+

lemma record_text:
  "getText (rec_text (record_event e p)) q k =
    (case e of TokenEvent q' r d \<Rightarrow>
       if q = q' \<and> k = r then take MAX_TURN_CHARS (getText (rec_text p) q k @ d) else getText (rec_text p) q k
     | _ \<Rightarrow> getText (rec_text p) q k)"
  by (cases e) (auto simp: Let_def store_simps simp del: take_append split: option.split)

lemma recording_ok_record:
  assumes ok: "recording_ok p" and wf: "wf_event e"
  shows "recording_ok (record_event e p)"
proof -
  have "length (getText (rec_text (record_event e p)) q k) \<le> MAX_TURN_CHARS" for q k
    using ok by (cases e) (simp_all add: record_text recording_ok_def del: take_append record_event.simps)
  moreover have "k \<in> {1..MAX_WIRE_ROUND}" if "getText (rec_text (record_event e p)) q k \<noteq> []" for q k
    using that ok wf
    by (cases e) (auto simp: record_text recording_ok_def simp del: take_append record_event.simps split: if_splits)
  moreover have "getText (rec_text (record_event e p)) Moderator k = []"
    if "moderatorRound (record_event e p) = None" for k
    using that ok
    by (cases e) (auto simp: record_text[simplified] recording_ok_def store_simps Let_def split: if_splits option.splits)
  moreover have "distinct (roundComplete (record_event e p)) \<and> set (roundComplete (record_event e p)) \<subseteq> {1..MAX_WIRE_ROUND}
    \<and> (\<forall>q x. personaErrors (record_event e p) q = Some x \<longrightarrow> ee_persona x = Some q \<and> q \<noteq> Moderator)
    \<and> (\<forall>x. sessionError (record_event e p) = Some x \<longrightarrow> ee_persona x \<in> {None, Some Moderator})"
    using ok wf by (cases e) (auto simp: recording_ok_def Let_def split: option.splits)
  ultimately show ?thesis by (simp add: recording_ok_def)
qed

lemma record_inv:
  assumes "player_inv p" "wf_event e"
  shows "player_inv (record_event e p)"
proof -
  from assms(1) have "cursor_ok (record_event e p)"
    using terminalKnown_record [of p e] record_keeps(9) [of p e]
    by (auto simp: player_inv_def cursor_ok_def record_keeps(1-3) split: cursor.split)
  moreover have "turn_ok (record_event e p) a" if "active (record_event e p) = Some a" for a
    using that assms(1) record_keeps(9) [of p e] record_keeps(10) [of p e]
    by (auto simp: player_inv_def turn_ok_def record_keeps(1-3) split: if_splits)
  ultimately show ?thesis using assms recording_ok_record [OF _ assms(2)]
    by (simp add: player_inv_def record_keeps)
qed

lemma closed_inv:
  assumes "player_inv p"
  shows "player_inv (p\<lparr>closed := True\<rparr>)"
proof -
  have "turn_ok (p\<lparr>closed := True\<rparr>) a = turn_ok p a" for a by (simp add: turn_ok_def idle_pending_def)
  moreover have "cursor_ok p \<Longrightarrow> cursor_ok (p\<lparr>closed := True\<rparr>)"
    by (simp add: cursor_ok_def idle_pending_def terminalKnown_def split: cursor.splits)
  moreover have "pending_ok (p\<lparr>closed := True\<rparr>) = pending_ok p" by (simp add: pending_ok_def)
  ultimately show ?thesis using assms by (simp add: player_inv_def frame_simps)
qed

lemma rate_inv:
  assumes "player_inv p"
  shows "player_inv (setRate m p)"
proof -
  have "turn_ok (setRate m p) a = turn_ok p a" for a by (simp add: setRate_def turn_ok_def idle_pending_def)
  moreover have "cursor_ok (setRate m p) = cursor_ok p"
    by (simp add: setRate_def cursor_ok_def idle_pending_def terminalKnown_def split: cursor.splits)
  moreover have "pending_ok (setRate m p) = pending_ok p" "recording_ok (setRate m p) = recording_ok p"
    by (simp_all add: setRate_def pending_ok_def frame_simps)
  moreover have "active (setRate m p) = active p" by (simp add: setRate_def)
  ultimately show ?thesis using assms rate_ok_setRate [of m p] by (simp add: player_inv_def)
qed

lemma newPlayer_inv: "player_inv (newPlayer m)"
  by (simp add: player_inv_def newPlayer_def recording_ok_def pending_ok_def cursor_ok_def getText_def)

lemma reset_inv:
  assumes "player_inv p"
  shows "player_inv (reset p)"
proof -
  have "recording_ok (reset p)"
    using newPlayer_inv [of "reducedMotion p"] by (simp add: reset_def player_inv_def frame_simps)
  moreover have "pending_ok (reset p)" "cursor_ok (reset p)" "active (reset p) = None" "rate (reset p) = rate p"
    by (simp_all add: reset_def newPlayer_def pending_ok_def cursor_ok_def)
  ultimately show ?thesis using assms by (simp add: player_inv_def)
qed

lemma fresh_not_ready: "\<not> hasReadyWork (newPlayer m)" "\<not> hasReadyWork (reset p)"
  by (simp_all add: ready_iff reset_def newPlayer_def terminalKnown_def)

text \<open>The calls the class answers, its timer among them. \<open>None\<close> is a call that does not return.\<close>

datatype player_call =
    Feed debate_event
  | FeedStatus ws_status
  | FeedTransport jstr
  | TimerFires
  | SetRate jsnum
  | SkipToLive
  | ResetCall

fun player_does :: "player_call \<Rightarrow> player \<Rightarrow> (player \<times> debate_input list) option" where
  "player_does (Feed e) p = Some (feed e p)"
| "player_does (FeedStatus st) p = Some (feedStatus st p)"
| "player_does (FeedTransport m) p = Some (feedTransport m p)"
| "player_does TimerFires p = Some (timer_fires p)"
| "player_does (SetRate x) p = Some (setRate x p, [])"
| "player_does SkipToLive p = skipToLive p"
| "player_does ResetCall p = Some (reset p, [])"

fun ok_call :: "player_call \<Rightarrow> bool" where
  "ok_call (Feed e) = wf_event e"
| "ok_call _ = True"

fun player_runs :: "player_call list \<Rightarrow> player \<Rightarrow> (player \<times> debate_input list) option" where
  "player_runs [] p = Some (p, [])"
| "player_runs (c # cs) p =
    (case player_does c p of None \<Rightarrow> None
     | Some (p', out) \<Rightarrow> map_option (\<lambda>(q, out'). (q, out @ out')) (player_runs cs p'))"

definition good_player :: "player \<Rightarrow> bool" where
  "good_player p \<longleftrightarrow> player_inv p \<and> awake p \<and> \<not> draining p"

lemma pump_good:
  "player_inv p \<Longrightarrow> \<not> draining p \<Longrightarrow> good_player (fst (pump p)) \<and> list_all ok_input (snd (pump p))"
  using pump_inv [of p] step_keeps_pace(3) [of p]
  by (auto simp: good_player_def pump_def split: prod.splits)

lemma good_new: "good_player (newPlayer m)"
  by (simp add: good_player_def newPlayer_inv awake_def fresh_not_ready) (simp add: newPlayer_def)

lemma good_reset: "player_inv p \<Longrightarrow> good_player (reset p)"
  by (simp add: good_player_def reset_inv awake_def fresh_not_ready) (simp add: reset_def newPlayer_def)

lemma skip_good:
  assumes "player_inv p"
  shows "\<exists>q out. skipToLive p = Some (q, out) \<and> good_player q \<and> list_all ok_input out \<and> timer q = None
    \<and> \<not> hasReadyWork q"
proof -
  obtain out q where s: "settles (p\<lparr>timer := None, draining := True\<rparr>) out q"
    "skipToLive p = Some (q\<lparr>draining := False\<rparr>, out)" using skip_settles [OF assms] by blast
  have inv: "player_inv (p\<lparr>timer := None, draining := True\<rparr>)" using assms by (simp add: frame_simps)
  with settles_inv [OF s(1)] have q: "player_inv q" "list_all ok_input out" "\<not> hasReadyWork q" by auto
  from settles_keeps_pace [OF s(1) inv] have "timer q = None" by simp
  with q s(2) show ?thesis by (auto simp: good_player_def awake_def frame_simps)
qed

lemma feedStatus_good:
  "good_player p \<Longrightarrow> good_player (fst (feedStatus st p)) \<and> list_all ok_input (snd (feedStatus st p))"
  using pump_good [of "p\<lparr>closed := True\<rparr>"] good_reset [of p] closed_inv [of p]
  by (cases st) (auto simp: good_player_def)

lemma feed_good:
  "good_player p \<Longrightarrow> wf_event e \<Longrightarrow> good_player (fst (feed e p)) \<and> list_all ok_input (snd (feed e p))"
  using pump_good [of "record_event e p"] record_inv [of p e]
  by (simp add: good_player_def feed_def record_keeps)

lemma timer_fires_good:
  "good_player p \<Longrightarrow> good_player (fst (timer_fires p)) \<and> list_all ok_input (snd (timer_fires p))"
  using pump_good [of "p\<lparr>timer := None\<rparr>"]
  by (auto simp: good_player_def timer_fires_def frame_simps)

lemma setRate_good: "good_player p \<Longrightarrow> good_player (setRate m p)"
proof -
  have "hasReadyWork (setRate m p) = hasReadyWork p"
    by (cases "cursor p") (simp_all add: setRate_def ready_iff terminalKnown_def)
  then show "good_player p \<Longrightarrow> good_player (setRate m p)"
    by (auto simp: good_player_def awake_def rate_inv) (simp_all add: setRate_def)
qed

lemma player_does_good:
  assumes "good_player p" "ok_call c"
  shows "\<exists>q out. player_does c p = Some (q, out) \<and> good_player q \<and> list_all ok_input out"
proof -
  from assms(1) have inv: "player_inv p" by (simp add: good_player_def)
  show ?thesis
  proof (cases c)
    case (Feed e)
    with feed_good [OF assms(1), of e] assms(2) show ?thesis by (cases "feed e p") auto
  next
    case (FeedStatus st)
    with feedStatus_good [OF assms(1), of st] show ?thesis by (cases "feedStatus st p") auto
  next
    case TimerFires
    with timer_fires_good [OF assms(1)] show ?thesis by (cases "timer_fires p") auto
  next
    case SkipToLive
    with skip_good [OF inv] show ?thesis by auto
  qed (use assms good_reset [OF inv] setRate_good in \<open>auto simp: feedTransport_def\<close>)
qed

lemma player_runs_good:
  "good_player p \<Longrightarrow> list_all ok_call cs \<Longrightarrow>
   \<exists>q out. player_runs cs p = Some (q, out) \<and> good_player q \<and> list_all ok_input out"
proof (induction cs arbitrary: p)
  case (Cons c cs)
  obtain p1 o1 where 1: "player_does c p = Some (p1, o1)" "good_player p1" "list_all ok_input o1"
    using player_does_good [OF Cons.prems(1), of c] Cons.prems(2) by auto
  obtain q o2 where "player_runs cs p1 = Some (q, o2)" "good_player q" "list_all ok_input o2"
    using Cons.IH [OF 1(2)] Cons.prems(2) by auto
  with 1 show ?case by simp
qed simp

text \<open>Calls that find the player well-formed leave it so: the totalised call as a machine.\<close>

definition player_next :: "player \<Rightarrow> player_call \<Rightarrow> player" where
  "player_next p c = (case player_does c p of None \<Rightarrow> p | Some (q, _) \<Rightarrow> q)"

interpretation player: step_machine player_next good_player ok_call
proof unfold_locales
  fix p c
  assume "good_player p" "ok_call c"
  from player_does_good [OF this] show "good_player (player_next p c)" by (auto simp: player_next_def)
qed

section \<open>Properties\<close>

text \<open>C9. Whatever calls a player answers, with well-formed events, every one of them returns,
  \<open>skipToLive\<close>'s loop included; everything it hands to the reducer is well-formed; and the
  scheduler never stalls: whenever no timer is armed, playback is at live.\<close>

theorem player_never_stalls:
  assumes "list_all ok_call cs"
  shows "\<exists>q out. player_runs cs (newPlayer m) = Some (q, out) \<and> list_all ok_input out
    \<and> (timer q = None \<longrightarrow> isAtLive q)"
  using player_runs_good [OF good_new assms, of m]
  by (auto simp: good_player_def awake_def isAtLive_def)

theorem player_never_stalls_witness:
  "\<exists>q out. player_runs [Feed (TokenEvent Skeptic 1 (js ''hi'')), Feed (RoundCompleteEvent 1), SkipToLive]
      (newPlayer False) = Some (q, out) \<and> list_all ok_input out \<and> (timer q = None \<longrightarrow> isAtLive q)"
  using player_never_stalls
    [of "[Feed (TokenEvent Skeptic 1 (js ''hi'')), Feed (RoundCompleteEvent 1), SkipToLive]" False]
  by (simp add: MAX_WIRE_ROUND_def MAX_ROUNDS_def)

text \<open>C10. Left alone, playback always comes to rest at live: after any calls, the chain of
  timers is finite and ends with nothing left to play.\<close>

theorem playback_ends:
  assumes "list_all ok_call cs"
  shows "\<exists>q out r out'. player_runs cs (newPlayer m) = Some (q, out) \<and> run_timers q [] = Some (r, out')
    \<and> timer r = None \<and> isAtLive r"
proof -
  obtain q out where q: "player_runs cs (newPlayer m) = Some (q, out)" "player_inv q" "awake q"
    using player_runs_good [OF good_new assms, of m] by (auto simp: good_player_def)
  obtain r out' where r: "settles (q\<lparr>timer := None\<rparr>) out' r" "run_timers q [] = Some (r, out')"
    using timers_settle [OF q(2,3)] by blast
  have inv: "player_inv (q\<lparr>timer := None\<rparr>)" using q(2) by (simp add: frame_simps)
  from settles_inv [OF r(1) inv] settles_keeps_pace [OF r(1) inv] q(1) r(2) show ?thesis
    by (simp add: isAtLive_def)
qed

theorem playback_ends_witness:
  "\<exists>q out r out'. player_runs [Feed (VerdictEvent (js ''v''))] (newPlayer True) = Some (q, out)
    \<and> run_timers q [] = Some (r, out') \<and> timer r = None \<and> isAtLive r"
  using playback_ends [of "[Feed (VerdictEvent (js ''v''))]" True] by simp

text \<open>The live indicator tells the truth: it is on exactly when a step would do nothing,
  hand nothing over and park or report the end; when it is off, a step makes progress.\<close>

lemma at_live_iff_nothing_to_do:
  assumes "list_all ok_call cs" "player_runs cs (newPlayer m) = Some (p, out)"
  shows "if isAtLive p then step p = (p, [], if cursor p = CurDone then DONE else PARK)
    else work (fst (step p)) < work p"
proof -
  have "player_inv p" using player_runs_good [OF good_new assms(1), of m] assms(2) by (simp add: good_player_def)
  then show ?thesis by (simp add: isAtLive_def step_parked step_work)
qed

text \<open>Any number asked for as speed ends up between a half and four, so that a word takes
  75 to 600 ms and the gap between speakers 137.5 to 1100 ms; not-a-number alone slips
  through both clamps and leaves both delays not a number.\<close>

lemma rate_is_clamped:
  "if x = JNaN then rate (setRate x p) = JNaN \<and> tickMs (setRate x p) = JNaN \<and> turnGapMs (setRate x p) = JNaN
   else \<exists>q t g. rate (setRate x p) = JNum q \<and> 1 / 2 \<le> q \<and> q \<le> 4
     \<and> tickMs (setRate x p) = JNum t \<and> 75 \<le> t \<and> t \<le> 600
     \<and> turnGapMs (setRate x p) = JNum g \<and> 275 / 2 \<le> g \<and> g \<le> 1100"
proof (cases "x = JNaN")
  case True
  then show ?thesis
    by (simp add: setRate_def tickMs_def turnGapMs_def js_min_def js_max_def MIN_RATE_def MAX_RATE_def
        TICK_MS_def TURN_GAP_MS_def)
next
  case False
  then have "rate (setRate x p) \<noteq> JNaN"
    by (cases x) (auto simp: setRate_def js_min_def js_max_def MIN_RATE_def MAX_RATE_def)
  with rate_ok_setRate [of x p] obtain q where q: "rate (setRate x p) = JNum q" "1 / 2 \<le> q" "q \<le> 4"
    by (cases "rate (setRate x p)") auto
  have "tickMs (setRate x p) = JNum (300 / q)" "turnGapMs (setRate x p) = JNum (550 / q)"
    using q by (auto simp: tickMs_def turnGapMs_def TICK_MS_def TURN_GAP_MS_def)
  moreover from q have "75 \<le> 300 / q" "300 / q \<le> 600" "275 / 2 \<le> 550 / q" "550 / q \<le> 1100"
    by (simp_all add: field_simps)
  ultimately show ?thesis using False q by auto
qed

end
