(* ===== verification/Playback.thy ===== *)
theory Playback
  imports Debate_Player "HOL-Library.Sublist"
begin

text \<open>
  The player and the reducer together: what a player hands to \<open>dispatch\<close> is what the reducer
  reduces, in that order (\<open>useReducer\<close> and \<open>new DebatePlayer({ dispatch })\<close> in
  \<open>state/useDebate.ts\<close>). The theory shows that the pace changes nothing but the pace, that one
  speaker is on at a time, and that what is shown is what was received.
\<close>

section \<open>Calls on the pair\<close>

definition reduced :: "debate_state \<Rightarrow> debate_input list \<Rightarrow> debate_state" where
  "reduced s out = foldl debateReducer s out"

lemma reduced_simps [simp]:
  "reduced s [] = s" "reduced s (i # out) = reduced (debateReducer s i) out"
  "reduced s (o1 @ o2) = reduced (reduced s o1) o2"
  by (simp_all add: reduced_def)

fun playback :: "player_call list \<Rightarrow> player \<times> debate_state \<Rightarrow> (player \<times> debate_state) option" where
  "playback [] ps = Some ps"
| "playback (c # cs) (p, s) =
    (case player_does c p of None \<Rightarrow> None | Some (q, out) \<Rightarrow> playback cs (q, reduced s out))"

section \<open>Pace\<close>

text \<open>Two pieces of a turn reduce to the same state as their concatenation.\<close>

lemma token_merge:
  "debateReducer (debateReducer s (Wire (TokenEvent q r d))) (Wire (TokenEvent q r d'))
   = debateReducer s (Wire (TokenEvent q r (d @ d')))"
  by (simp add: withActive_def)

lemma reveal_end_paced:
  "length (at_text a) \<le> at_pos a \<Longrightarrow>
   fst (revealStep a (paced t x b m p)) = paced t x b m (fst (revealStep a p))
   \<and> fst (snd (revealStep a (paced t x b m p))) = fst (snd (revealStep a p))"
  by (simp add: revealStep_def Let_def split: option.split)

text \<open>The player with its current turn revealed to the end.\<close>

definition turn_shown :: "player \<Rightarrow> active_turn \<Rightarrow> player" where
  "turn_shown p a = p\<lparr>active := Some (a\<lparr>at_pos := length (at_text a)\<rparr>)\<rparr>"

definition rest_of :: "active_turn \<Rightarrow> debate_input" where
  "rest_of a = Wire (TokenEvent (at_persona a) (at_round a) (drop (at_pos a) (at_text a)))"

lemma reveal_whole:
  "at_pos a < length (at_text a) \<Longrightarrow> reducedMotion p \<or> draining p \<Longrightarrow>
   fst (revealStep a p) = turn_shown p a \<and> fst (snd (revealStep a p)) = [rest_of a]"
  by (simp add: reveal_chunk reveal_end_def turn_shown_def rest_of_def slice_all)

lemma reveal_word:
  assumes "at_pos a < length (at_text a)"
  obtains a' where "fst (revealStep a p) = p\<lparr>active := Some a'\<rparr>"
    "\<And>t x b m. turn_shown (paced t x b m (p\<lparr>active := Some a'\<rparr>)) a' = turn_shown (paced t x b m p) a"
    "at_pos a' \<le> length (at_text a')"
    "\<And>s. reduced s (fst (snd (revealStep a p)) @ [rest_of a']) = reduced s [rest_of a]"
    "at_pos a' = length (at_text a') \<longrightarrow> fst (snd (revealStep a p)) = [rest_of a]"
proof
  let ?e = "reveal_end p a"
  let ?a' = "a\<lparr>at_pos := ?e\<rparr>"
  note e = reveal_end_bounds [OF assms, of p]
  show "fst (revealStep a p) = p\<lparr>active := Some ?a'\<rparr>" by (simp add: reveal_chunk assms)
  show "turn_shown (paced t x b m (p\<lparr>active := Some ?a'\<rparr>)) ?a' = turn_shown (paced t x b m p) a" for t x b m
    by (simp add: turn_shown_def paced_def)
  show "at_pos ?a' \<le> length (at_text ?a')" using e by simp
  have "slice (at_text a) (at_pos a) ?e @ drop ?e (at_text a) = drop (at_pos a) (at_text a)"
    using slice_append_slice [of "at_pos a" ?e "length (at_text a)" "at_text a"] e by (simp add: slice_all)
  then show "reduced s (fst (snd (revealStep a p)) @ [rest_of ?a']) = reduced s [rest_of a]" for s
    using assms by (simp add: reveal_chunk rest_of_def token_merge del: debateReducer.simps)
  show "at_pos ?a' = length (at_text ?a') \<longrightarrow> fst (snd (revealStep a p)) = [rest_of a]"
    using assms by (simp add: reveal_chunk rest_of_def slice_all)
qed

text \<open>A reveal and the same reveal in a hurry: either they agree, or the first has shown a piece
  of what the hurried one has shown whole.\<close>

definition agrees :: "(player \<Rightarrow> player) \<Rightarrow> player \<times> debate_input list \<Rightarrow> player \<times> debate_input list \<Rightarrow> bool" where
  "agrees pace slow fast \<longleftrightarrow>
     (fst fast = pace (fst slow) \<and> (\<forall>s. reduced s (snd fast) = reduced s (snd slow)))
   \<or> (\<exists>a. active (fst slow) = Some a \<and> at_pos a < length (at_text a)
        \<and> fst fast = turn_shown (pace (fst slow)) a
        \<and> (\<forall>s. reduced s (snd fast) = reduced s (snd slow @ [rest_of a])))"

lemma agrees_prefix: "agrees pace (p, o1) (q, o2) \<Longrightarrow> agrees pace (p, out @ o1) (q, out @ o2)"
  by (auto simp: agrees_def)

lemma reveal_agrees:
  fixes t :: "jsnum option" and x :: jsnum
  assumes hurry: "b \<or> m"
  defines "pace \<equiv> paced t x b m"
  shows "agrees pace (fst (revealStep a p), fst (snd (revealStep a p)))
    (fst (revealStep a (pace p)), fst (snd (revealStep a (pace p))))"
proof (cases "at_pos a < length (at_text a)")
  case True
  obtain a' where a': "fst (revealStep a p) = p\<lparr>active := Some a'\<rparr>"
    "turn_shown (pace (p\<lparr>active := Some a'\<rparr>)) a' = turn_shown (pace p) a"
    "at_pos a' \<le> length (at_text a')"
    "\<And>s. reduced s (fst (snd (revealStep a p)) @ [rest_of a']) = reduced s [rest_of a]"
    "at_pos a' = length (at_text a') \<longrightarrow> fst (snd (revealStep a p)) = [rest_of a]"
    using reveal_word [OF True, of p] unfolding pace_def by metis
  from True hurry have whole: "fst (revealStep a (pace p)) = turn_shown (pace p) a"
    "fst (snd (revealStep a (pace p))) = [rest_of a]"
    using reveal_whole [of a "pace p"] by (auto simp: pace_def)
  show ?thesis
  proof (cases "at_pos a' < length (at_text a')")
    case True
    with a' whole show ?thesis by (simp add: agrees_def)
  next
    case False
    with a'(3) have eq: "at_pos a' = length (at_text a')" by simp
    then have "turn_shown (pace (p\<lparr>active := Some a'\<rparr>)) a' = pace (p\<lparr>active := Some a'\<rparr>)"
      by (cases a') (simp add: turn_shown_def paced_def pace_def)
    with a' whole eq show ?thesis by (simp add: agrees_def)
  qed
qed (use reveal_end_paced [of a t x b m p] in \<open>simp add: agrees_def pace_def\<close>)

lemma step_agrees:
  fixes t :: "jsnum option" and x :: jsnum
  assumes inv: "player_inv p" and hurry: "b \<or> m"
  defines "pace \<equiv> paced t x b m"
  shows "agrees pace (fst (step p), fst (snd (step p))) (fst (step (pace p)), fst (snd (step (pace p))))"
  using inv
proof (cases rule: step_cases)
  case (Reveals a)
  with reveal_agrees [OF hurry, of t x a p] show ?thesis by (simp add: pace_def step_active)
next
  case (Stops p' out d)
  then have "step (pace p) = (pace p', out, d)"
    unfolding pace_def by (intro step_stops) (simp_all add: prepare_paced)
  with Stops show ?thesis by (simp add: agrees_def)
next
  case (Opens p' out a)
  then have "step (pace p) = (fst (revealStep a (pace p')),
      out @ fst (snd (revealStep a (pace p'))), snd (snd (revealStep a (pace p'))))"
    unfolding pace_def by (intro step_opens) (simp_all add: prepare_paced)
  with Opens(5) agrees_prefix [OF reveal_agrees [OF hurry, of t x a p']] show ?thesis
    by (simp add: pace_def)
qed

lemma reduced_cong: "(\<And>s. reduced s o1 = reduced s o2) \<Longrightarrow> (\<And>s. reduced s (o1 @ o3) = reduced s (o2 @ o3))"
  by simp

lemma pace_exists:
  assumes "player_inv p" "rate_ok x"
  shows "player_inv (paced t x b m p)"
proof -
  have "recording_ok (paced t x b m p) = recording_ok p" "pending_ok (paced t x b m p) = pending_ok p"
    "cursor_ok (paced t x b m p) = cursor_ok p" "turn_ok (paced t x b m p) a = turn_ok p a" for a
    by (simp_all add: recording_ok_def pending_ok_def cursor_ok_def turn_ok_def idle_pending_def
        terminalKnown_def split: cursor.split)
  with assms show ?thesis by (simp add: player_inv_def)
qed

text \<open>Hence settling in a hurry reaches the same player, and the same debate state, as settling
  word by word.\<close>

lemma settles_same:
  "settles p o1 q \<Longrightarrow> player_inv p \<Longrightarrow> b \<or> m \<Longrightarrow> rate_ok x \<Longrightarrow> settles (paced t x b m p) o2 q' \<Longrightarrow>
   q' = paced t x b m q \<and> reduced s o2 = reduced s o1"
proof (induction arbitrary: o2 s rule: settles.induct)
  case (at_live p)
  from at_live.prems(4) at_live.hyps show ?case
    by (cases rule: settles.cases) (auto simp: frame_simps)
next
  case (more_work p p1 out1 d out2 q)
  let ?pace = "paced t x b m"
  from more_work.prems(4) more_work.hyps(1) obtain pf outf df o2' where
    f: "o2 = outf @ o2'" "step (?pace p) = (pf, outf, df)" "settles pf o2' q'"
    by (cases rule: settles.cases) (auto simp: frame_simps)
  have inv1: "player_inv p1" using step_inv [OF more_work.prems(1)] more_work.hyps(2) by simp
  note IH = more_work.IH [OF inv1 more_work.prems(2,3)]
  from step_agrees [OF more_work.prems(1,2), of t x] f(2) more_work.hyps(2)
  have "agrees ?pace (p1, out1) (pf, outf)" by simp
  then consider (Same) "pf = ?pace p1" "\<And>s. reduced s outf = reduced s out1"
    | (Ahead) a where "active p1 = Some a" "at_pos a < length (at_text a)"
        "pf = turn_shown (?pace p1) a" "\<And>s. reduced s outf = reduced s (out1 @ [rest_of a])"
    unfolding agrees_def by auto
  then show ?case
  proof cases
    case Same
    with IH [of o2' "reduced s out1"] f show ?thesis by simp
  next
    case Ahead
    have whole: "step (?pace p1) = (turn_shown (?pace p1) a, [rest_of a], snd (snd (step (?pace p1))))"
      using reveal_whole [OF Ahead(2), of "?pace p1"] Ahead(1) more_work.prems(2)
      by (cases "revealStep a (?pace p1)") (auto simp: step_active)
    have "settles (?pace p1) ([rest_of a] @ o2') q'"
      using settles.more_work [OF _ whole, of o2' q'] f(3) Ahead(1,3) by (simp add: ready_iff)
    from IH [OF this, of "reduced s out1"] Ahead(4) f(1) show ?thesis by simp
  qed
qed

text \<open>What remains of a player when the controls of its pace are forgotten.\<close>

definition forget_pace :: "player \<Rightarrow> player" where
  "forget_pace p = paced None (JNum 1) False False p"

lemma forget_paced [simp]: "forget_pace (paced t x b m p) = forget_pace p"
  by (simp add: forget_pace_def)

lemma forget_timer [simp]: "forget_pace (p\<lparr>timer := t\<rparr>) = forget_pace p"
  "forget_pace (p\<lparr>draining := b\<rparr>) = forget_pace p"
  "forget_pace (p\<lparr>timer := t, draining := b\<rparr>) = forget_pace p"
  by (simp_all add: forget_pace_def paced_def)

lemma forget_pace_eqD:
  assumes "forget_pace p = forget_pace p'"
  shows "paced t x b m p = paced t x b m p'"
proof -
  have "paced t x b m (forget_pace p) = paced t x b m (forget_pace p')" using assms by simp
  then show ?thesis by (simp add: forget_pace_def)
qed

lemma settles_forget_pace:
  assumes "settles p o1 q" "settles p' o2 q'" "player_inv p" "player_inv p'" "forget_pace p = forget_pace p'"
  shows "forget_pace q = forget_pace q' \<and> reduced s o1 = reduced s o2"
proof -
  let ?pace = "paced None (JNum 1) True True"
  have "player_inv (?pace p)" using pace_exists [OF assms(3)] by simp
  then obtain o3 q3 where s: "settles (?pace p) o3 q3" using settles_exists by blast
  from settles_same [OF assms(1,3) _ _ s, of s] have 1: "q3 = ?pace q" "reduced s o3 = reduced s o1" by auto
  from s forget_pace_eqD [OF assms(5)] have "settles (?pace p') o3 q3" by simp
  from settles_same [OF assms(2,4) _ _ this, of s] have 2: "q3 = ?pace q'" "reduced s o3 = reduced s o2" by auto
  from 1 2 have "forget_pace q = forget_pace q'" using forget_paced by metis
  with 1 2 show ?thesis by simp
qed

section \<open>One speaker at a time, and nothing but what was received\<close>

text \<open>No more than one speaker at any moment of a batch.\<close>

definition solo :: "debate_state \<Rightarrow> debate_input list \<Rightarrow> bool" where
  "solo s out \<longleftrightarrow> (\<forall>n\<le>length out. length (activeSpeakers (reduced s (take n out))) \<le> 1)"

lemma solo_Nil [simp]: "solo s [] \<longleftrightarrow> length (activeSpeakers s) \<le> 1"
  by (simp add: solo_def)

lemma solo_Cons [simp]:
  "solo s (i # out) \<longleftrightarrow> length (activeSpeakers s) \<le> 1 \<and> solo (debateReducer s i) out"
proof
  assume solo: "solo s (i # out)"
  then have "length (activeSpeakers s) \<le> 1" by (auto simp: solo_def)
  moreover have "length (activeSpeakers (reduced (debateReducer s i) (take n out))) \<le> 1" if "n \<le> length out" for n
    using solo that unfolding solo_def by (metis length_Cons not_less_eq_eq reduced_simps(2) take_Suc_Cons)
  ultimately show "length (activeSpeakers s) \<le> 1 \<and> solo (debateReducer s i) out" by (simp add: solo_def)
next
  assume r: "length (activeSpeakers s) \<le> 1 \<and> solo (debateReducer s i) out"
  have "length (activeSpeakers (reduced s (take n (i # out)))) \<le> 1" if "n \<le> length (i # out)" for n
    using r that by (cases n) (auto simp: solo_def)
  then show "solo s (i # out)" unfolding solo_def by blast
qed

lemma solo_start: "solo s out \<Longrightarrow> length (activeSpeakers s) \<le> 1"
  by (cases out) auto

lemma solo_append: "solo s (o1 @ o2) \<longleftrightarrow> solo s o1 \<and> solo (reduced s o1) o2"
  by (induction o1 arbitrary: s) (auto dest: solo_start)

text \<open>The inputs that change neither the transcript nor the phase and start no speaker.\<close>

fun quiet :: "debate_input \<Rightarrow> bool" where
  "quiet (Wire (PersonaDoneEvent q r)) = True"
| "quiet (Wire (RoundCompleteEvent r)) = True"
| "quiet (Wire (ErrorEvent e)) = (\<exists>q. ee_persona e = Some q \<and> q \<noteq> Moderator)"
| "quiet (TransportInput m) = True"
| "quiet (StatusInput st) = (st \<notin> {WsConnecting, WsClosed})"
| "quiet _ = False"

lemma quiet_status: "st \<noteq> WsConnecting \<Longrightarrow> st \<noteq> WsClosed \<Longrightarrow> reduceStatus s st = s"
  by (cases st) simp_all

lemma quiet_step:
  "quiet i \<Longrightarrow> phase (debateReducer s i) = phase s \<and> transcript (debateReducer s i) = transcript s
    \<and> verdict (debateReducer s i) = verdict s
    \<and> (activeSpeakers s = [] \<longrightarrow> activeSpeakers (debateReducer s i) = [])"
  by (cases i rule: quiet.cases) (auto simp: Let_def withoutActive_def quiet_status)

lemma quiet_run:
  "list_all quiet out \<Longrightarrow> phase (reduced s out) = phase s \<and> transcript (reduced s out) = transcript s
    \<and> verdict (reduced s out) = verdict s
    \<and> (activeSpeakers s = [] \<longrightarrow> activeSpeakers (reduced s out) = [] \<and> solo s out)"
  by (induction out arbitrary: s) (auto simp: quiet_step)

text \<open>Who is on, as the player sees it.\<close>

definition speakers_ok :: "player \<Rightarrow> debate_state \<Rightarrow> bool" where
  "speakers_ok p s \<longleftrightarrow>
    (case active p of
       Some a \<Rightarrow> activeSpeakers s = (if at_pos a = 0 then [] else [at_persona a])
     | None \<Rightarrow> (case pendingDone p of
         Some (q, r) \<Rightarrow> activeSpeakers s = [] \<or> activeSpeakers s = [q]
       | None \<Rightarrow> activeSpeakers s = []))"

lemma speakers_solo: "speakers_ok p s \<Longrightarrow> length (activeSpeakers s) \<le> 1"
  by (auto simp: speakers_ok_def split: option.splits if_splits)

text \<open>Opening a turn first takes the last speaker off.\<close>

lemma flush_speakers:
  assumes "pending_ok p" "speakers_ok p s" "active p = None"
  shows "activeSpeakers (reduced s (snd (flushPending p))) = [] \<and> solo s (snd (flushPending p))
    \<and> phase (reduced s (snd (flushPending p))) = phase s
    \<and> transcript (reduced s (snd (flushPending p))) = transcript s
    \<and> verdict (reduced s (snd (flushPending p))) = verdict s"
proof -
  let ?rest = "(case pendingRoundComplete p of None \<Rightarrow> [] | Some r \<Rightarrow> [Wire (RoundCompleteEvent r)])
     @ map (\<lambda>e. Wire (ErrorEvent e)) (pendingErrors p)"
  have rest: "list_all quiet ?rest"
    using assms(1) by (auto simp: pending_ok_def list_all_iff split: option.split)
  show ?thesis
  proof (cases "pendingDone p")
    case None
    with assms(2,3) have "activeSpeakers s = []" by (simp add: speakers_ok_def)
    with quiet_run [OF rest, of s] None show ?thesis by (simp add: flushPending_def)
  next
    case (Some qr)
    obtain q r where qr: "qr = (q, r)" by (cases qr)
    let ?s = "debateReducer s (Wire (PersonaDoneEvent q r))"
    from assms(2,3) Some qr have "activeSpeakers s = [] \<or> activeSpeakers s = [q]" by (simp add: speakers_ok_def)
    then have "activeSpeakers ?s = []" "length (activeSpeakers s) \<le> 1" by (auto simp: withoutActive_def)
    with quiet_run [OF rest, of ?s] Some qr show ?thesis by (simp add: flushPending_def del: reduced_simps(3))
  qed
qed

text \<open>The turns not opened yet, and the panel turns played to the end.\<close>

definition untouched :: "player \<Rightarrow> persona_id \<Rightarrow> nat \<Rightarrow> bool" where
  "untouched p q r \<longleftrightarrow>
    (case cursor p of
       CurPanelist k i \<Rightarrow> q = Moderator \<or> k < r
         \<or> (r = k \<and> (\<forall>j<4. q = PANELISTS ! j \<longrightarrow> (if active p = None then i \<le> j else i < j)))
     | CurModerator \<Rightarrow> q = Moderator \<and> active p = None
     | CurDone \<Rightarrow> False)"

definition played :: "player \<Rightarrow> persona_id \<Rightarrow> nat \<Rightarrow> bool" where
  "played p q r \<longleftrightarrow> q \<noteq> Moderator \<and> 1 \<le> r \<and>
    (case cursor p of
       CurPanelist k i \<Rightarrow> r < k \<or> (r = k \<and> (\<exists>j<i. q = PANELISTS ! j))
     | _ \<Rightarrow> {1..r} \<subseteq> set (roundComplete p))"

definition is_active :: "player \<Rightarrow> persona_id \<Rightarrow> nat \<Rightarrow> bool" where
  "is_active p q r \<longleftrightarrow> (\<exists>a. active p = Some a \<and> at_persona a = q \<and> at_round a = r)"

definition shown_ok :: "player \<Rightarrow> debate_state \<Rightarrow> bool" where
  "shown_ok p s \<longleftrightarrow>
     (\<forall>q r. untouched p q r \<longrightarrow> cell (transcript s) q r = [])
   \<and> (\<forall>a. active p = Some a \<longrightarrow>
        cell (transcript s) (at_persona a) (at_round a) = take (at_pos a) (at_text a)
      \<and> prefix (at_text a) (getText (rec_text p) (at_persona a) (at_round a)))
   \<and> (\<forall>q r. \<not> is_active p q r \<longrightarrow> prefix (cell (transcript s) q r) (getText (rec_text p) q r))"

definition phase_ok :: "player \<Rightarrow> debate_state \<Rightarrow> bool" where
  "phase_ok p s \<longleftrightarrow>
    (if cursor p = CurDone then phase s = PhDone \<and> rec_verdict p \<noteq> None \<or> phase s = PhError
     else phase s \<in> {PhIdle, PhConnecting, PhDebating, PhModerating} \<and> verdict s = []
      \<and> (phase s = PhModerating \<longleftrightarrow> (\<exists>a. active p = Some a \<and> isModerator a \<and> 0 < at_pos a)))"

definition contiguous :: "player \<Rightarrow> bool" where
  "contiguous p \<longleftrightarrow> (\<forall>k i. cursor p = CurPanelist k i \<longrightarrow> {1..<k} \<subseteq> set (roundComplete p))"

definition sync :: "player \<Rightarrow> debate_state \<Rightarrow> bool" where
  "sync p s \<longleftrightarrow> speakers_ok p s \<and> phase_ok p s \<and> shown_ok p s \<and> contiguous p"

lemma sync_solo: "sync p s \<Longrightarrow> length (activeSpeakers s) \<le> 1"
  unfolding sync_def by (blast intro: speakers_solo)

lemma sync_cong:
  assumes "cursor p = cursor p'" "active p = active p'" "rec_text p = rec_text p'"
    "roundComplete p = roundComplete p'" "pendingDone p = pendingDone p'" "rec_verdict p = rec_verdict p'"
  shows "sync p s = sync p' s"
  unfolding sync_def speakers_ok_def phase_ok_def shown_ok_def contiguous_def untouched_def
    is_active_def assms ..

lemma capped_prefix:
  "length y \<le> n \<Longrightarrow> prefix x y \<Longrightarrow> prefix x (take n (y @ d))"
  by (metis append_eq_append_conv_if order.refl prefix_order.trans take_append take_all_iff
      take_is_prefix prefixI)

lemma record_sync:
  assumes inv: "player_inv p" and sync: "sync p s"
  shows "sync (record_event e p) s"
proof -
  let ?p = "record_event e p"
  from inv have caps: "length (getText (rec_text p) q r) \<le> MAX_TURN_CHARS" for q r
    by (simp add: player_inv_def recording_ok_def)
  have grows: "prefix x (getText (rec_text p) q r) \<Longrightarrow> prefix x (getText (rec_text ?p) q r)" for x q r
    using capped_prefix [OF caps] unfolding record_text by (simp del: take_append split: debate_event.split)
  have pend: "pendingDone ?p = pendingDone p" by (cases e) (auto simp: Let_def split: option.split)
  have same: "untouched ?p q r = untouched p q r" "is_active ?p q r = is_active p q r" for q r
    unfolding untouched_def is_active_def record_keeps by (rule refl)+
  have "speakers_ok ?p s = speakers_ok p s" unfolding speakers_ok_def record_keeps pend ..
  moreover have "phase_ok p s \<Longrightarrow> phase_ok ?p s"
    using record_keeps(10) [of p e] by (auto simp: phase_ok_def record_keeps(1,2) split: if_splits)
  moreover have "shown_ok p s \<Longrightarrow> shown_ok ?p s"
    using grows same by (simp add: shown_ok_def record_keeps)
  moreover have "contiguous p \<Longrightarrow> contiguous ?p"
    using record_keeps(9) [of p e] unfolding contiguous_def record_keeps(1) by blast
  ultimately show ?thesis using sync by (simp add: sync_def)
qed

lemma PANELISTS_nth_eq [simp]: "i < 4 \<Longrightarrow> j < 4 \<Longrightarrow> PANELISTS ! i = PANELISTS ! j \<longleftrightarrow> i = j"
  by (simp add: nth_eq_iff_index_eq)

lemma shown_cong:
  "transcript s = transcript s' \<Longrightarrow> shown_ok p s = shown_ok p s'"
  by (simp add: shown_ok_def)

lemma prepare_sync:
  assumes inv: "player_inv p" and act: "active p = None" and sync: "sync p s"
  shows "sync (fst (prepareNextTurn p)) (reduced s (fst (snd (prepareNextTurn p))))
    \<and> solo s (fst (snd (prepareNextTurn p)))"
proof -
  from inv have pend: "pending_ok p" and cur: "cursor_ok p" and rec: "recording_ok p" by (simp_all add: player_inv_def)
  from sync have sp: "speakers_ok p s" and ph: "phase_ok p s" and sh: "shown_ok p s" and co: "contiguous p"
    by (simp_all add: sync_def)
  let ?fl = "snd (flushPending p)" let ?s = "reduced s ?fl"
  note fl = flush_speakers [OF pend sp act]
  have solo: "length (activeSpeakers s) \<le> 1" using sp by (rule speakers_solo)
  show ?thesis
  proof (cases p rule: prepare_cases)
    case Finished
    with sync solo show ?thesis by (simp add: prepare_done)
  next
    case (Panelist r i)
    from cur Panelist have i: "i < 4" by (simp add: cursor_ok_def)
    with sh Panelist act have new: "cell (transcript s) (PANELISTS ! i) r = []"
      by (simp add: shown_ok_def untouched_def)
    let ?p = "fst (prepareNextTurn p)"
    have "untouched ?p q k \<Longrightarrow> untouched p q k" for q k
      using act Panelist by (auto simp: prepare_panelist untouched_def intro: less_imp_le)
    then have "shown_ok ?p ?s"
      using sh fl new act Panelist by (auto simp: shown_ok_def prepare_panelist is_active_def)
    moreover have "speakers_ok ?p ?s" using fl Panelist by (simp add: prepare_panelist speakers_ok_def)
    moreover have "phase_ok ?p ?s" using ph fl act Panelist by (auto simp: prepare_panelist phase_ok_def)
    moreover have "contiguous ?p" using co Panelist by (simp add: prepare_panelist contiguous_def)
    ultimately show ?thesis using fl Panelist by (simp add: prepare_panelist sync_def)
  next
    case Parked
    with sync solo show ?thesis by (simp add: prepare_park)
  next
    case Failed
    from Failed(2,3) obtain i where i: "finalizeTerminal p = [i]"
      "phase (debateReducer ?s i) = PhError \<or> phase ?s \<in> TERMINAL"
      "activeSpeakers (debateReducer ?s i) = []" "transcript (debateReducer ?s i) = transcript ?s"
      using fl rec by (cases "sessionError p")
        (auto simp: finalizeTerminal_def terminalKnown_def recording_ok_def Let_def)
    have "phase ?s \<notin> TERMINAL" using ph fl Failed(1)
      by (auto simp: phase_ok_def TERMINAL_def to_moderator_def)
    with i have err: "phase (debateReducer ?s i) = PhError" by simp
    let ?p = "(fst (flushPending p))\<lparr>cursor := CurDone\<rparr>"
    have "shown_ok ?p (debateReducer ?s i)"
      using sh fl i(4) act by (simp add: shown_ok_def untouched_def is_active_def)
    moreover have "speakers_ok ?p (debateReducer ?s i)" "phase_ok ?p (debateReducer ?s i)" "contiguous ?p"
      using i act err by (simp_all add: speakers_ok_def phase_ok_def contiguous_def)
    ultimately show ?thesis using fl i Failed by (simp add: prepare_failed sync_def solo_append)
  next
    case (Verdict v)
    let ?t = "getText (rec_text p) Moderator (moderator_round p)"
    show ?thesis
    proof (cases "?t = []")
      case True
      let ?p = "(fst (flushPending p))\<lparr>cursor := CurDone\<rparr>" let ?s' = "debateReducer ?s (Wire (VerdictEvent v))"
      have "activeSpeakers ?s' = []" using fl by (simp add: withoutActive_def)
      moreover have "shown_ok ?p ?s'"
        using sh fl act by (simp add: shown_ok_def untouched_def is_active_def)
      moreover have "phase_ok ?p ?s'" "contiguous ?p" using Verdict by (simp_all add: phase_ok_def contiguous_def)
      ultimately show ?thesis using True fl act Verdict
        by (simp add: prepare_verdict sync_def solo_append speakers_ok_def)
    next
      case False
      let ?p = "fst (prepareNextTurn p)"
      have new: "cell (transcript s) Moderator (moderator_round p) = []"
        using sh act Verdict(1) by (auto simp: shown_ok_def untouched_def to_moderator_def)
      have "shown_ok ?p ?s"
        using sh fl new act Verdict False
        by (simp add: shown_ok_def prepare_verdict untouched_def is_active_def)
      moreover have "speakers_ok ?p ?s" using fl Verdict False by (simp add: prepare_verdict speakers_ok_def)
      moreover have "phase_ok ?p ?s"
        using ph fl act Verdict False by (auto simp: prepare_verdict phase_ok_def to_moderator_def)
      moreover have "contiguous ?p" using Verdict False by (simp add: prepare_verdict contiguous_def)
      ultimately show ?thesis using fl Verdict False by (simp add: prepare_verdict sync_def)
    qed
  qed
qed

lemma reveal_sync:
  assumes inv: "player_inv p" and act: "active p = Some a" and sync: "sync p s"
  shows "sync (fst (revealStep a p)) (reduced s (fst (snd (revealStep a p))))
    \<and> solo s (fst (snd (revealStep a p)))"
proof -
  from inv act have turn: "turn_ok p a" by (simp add: player_inv_def)
  from sync have sp: "speakers_ok p s" and ph: "phase_ok p s" and sh: "shown_ok p s" and co: "contiguous p"
    by (simp_all add: sync_def)
  from sp have solo: "length (activeSpeakers s) \<le> 1" by (rule speakers_solo)
  from sh act have now: "cell (transcript s) (at_persona a) (at_round a) = take (at_pos a) (at_text a)"
    "prefix (at_text a) (getText (rec_text p) (at_persona a) (at_round a))"
    and rest: "\<And>q r. \<not> is_active p q r \<Longrightarrow> prefix (cell (transcript s) q r) (getText (rec_text p) q r)"
    and none: "\<And>q r. untouched p q r \<Longrightarrow> cell (transcript s) q r = []"
    by (simp_all add: shown_ok_def)
  have full: "prefix (cell (transcript s) q r) (getText (rec_text p) q r)" for q r
  proof (cases "is_active p q r")
    case True
    with act now show ?thesis
      by (auto simp: is_active_def intro: prefix_order.trans take_is_prefix)
  qed (rule rest)
  let ?p = "fst (revealStep a p)" let ?s = "reduced s (fst (snd (revealStep a p)))"
  consider (Chunk) "at_pos a < length (at_text a)"
    | (ModEnd) "at_pos a \<ge> length (at_text a)" "isModerator a"
    | (PanEnd) "at_pos a \<ge> length (at_text a)" "\<not> isModerator a" by fastforce
  then show ?thesis
  proof cases
    case Chunk
    note e = reveal_end_bounds [OF this, of p]
    let ?d = "slice (at_text a) (at_pos a) (reveal_end p a)"
    from turn have cap: "length (at_text a) \<le> MAX_CELL_CHARS"
      by (simp add: turn_ok_def MAX_CELL_CHARS_def MAX_TURN_CHARS_def)
    have "take (at_pos a) (at_text a) @ ?d = take (reveal_end p a) (at_text a)"
      using slice_append_slice [of 0 "at_pos a" "reveal_end p a" "at_text a"] e by simp
    with cap e have shown: "cell (transcript ?s) q r =
        (if q = at_persona a \<and> r = at_round a then take (reveal_end p a) (at_text a) else cell (transcript s) q r)" for q r
      using now(1) Chunk by (simp add: reveal_chunk cell_appendDelta min.absorb2 del: take_append)
    have same: "untouched ?p q r = untouched p q r" "is_active ?p q r = is_active p q r" for q r
      using act Chunk by (simp_all add: reveal_chunk untouched_def is_active_def split: cursor.split)
    have "\<not> untouched p (at_persona a) (at_round a)"
    proof (cases "isModerator a")
      case False
      obtain i where "i < 4" "at_persona a = PANELISTS ! i" "cursor p = CurPanelist (at_round a) i"
        using turn_panelist [OF turn False] by metis
      with act show ?thesis by (auto simp: untouched_def)
    qed (use turn act in \<open>auto simp: turn_ok_def untouched_def\<close>)
    then have "shown_ok ?p ?s"
      using none rest now(2) act Chunk unfolding shown_ok_def same shown
      by (auto simp: reveal_chunk is_active_def)
    moreover have "speakers_ok ?p ?s"
      using sp act Chunk e by (auto simp: reveal_chunk speakers_ok_def withActive_def split: if_splits)
    moreover have "phase_ok ?p ?s"
      using ph act turn e Chunk by (auto simp: reveal_chunk phase_ok_def turn_ok_def split: if_splits)
    moreover have "contiguous ?p" using co Chunk by (simp add: reveal_chunk contiguous_def)
    ultimately show ?thesis using solo Chunk speakers_solo [of ?p ?s]
      by (simp add: reveal_chunk sync_def)
  next
    case ModEnd
    with turn obtain v where v: "rec_verdict p = Some v" "at_text a \<noteq> []" by (auto simp: turn_ok_def)
    with ModEnd have "0 < at_pos a" by (metis gr_zeroI le_zero_eq length_0_conv)
    with ModEnd sp act v turn have "activeSpeakers ?s = []"
      by (auto simp: reveal_moderator_end speakers_ok_def withoutActive_def turn_ok_def)
    moreover have "transcript ?s = transcript s" using ModEnd v by (simp add: reveal_moderator_end)
    ultimately show ?thesis using full solo ModEnd v
      by (simp add: reveal_moderator_end sync_def speakers_ok_def shown_ok_def phase_ok_def contiguous_def
          untouched_def is_active_def split: option.split)
  next
    case PanEnd
    obtain i where i: "at_index a = int i" "i < 4" "at_persona a = PANELISTS ! i"
      "cursor p = CurPanelist (at_round a) i" "at_round a \<in> set (roundComplete p)"
      using turn_panelist [OF turn PanEnd(2)] .
    have "untouched ?p q r \<Longrightarrow> untouched p q r" for q r
      using PanEnd i act
      by (auto simp: reveal_panelist_end next_cursor_def untouched_def Suc_le_eq split: if_splits)
    then have "shown_ok ?p s"
      using full none PanEnd i by (simp add: reveal_panelist_end shown_ok_def is_active_def)
    moreover have "speakers_ok ?p s"
      using sp act PanEnd i by (auto simp: reveal_panelist_end speakers_ok_def split: if_splits)
    moreover have "phase_ok ?p s"
      using ph act PanEnd i by (auto simp: reveal_panelist_end phase_ok_def next_cursor_def split: if_splits)
    moreover have "contiguous ?p"
      using co PanEnd i by (auto simp: reveal_panelist_end contiguous_def next_cursor_def less_Suc_eq split: if_splits)
    ultimately show ?thesis using solo PanEnd i by (simp add: reveal_panelist_end sync_def)
  qed
qed

lemma step_sync:
  assumes inv: "player_inv p" and sync: "sync p s"
  shows "sync (fst (step p)) (reduced s (fst (snd (step p)))) \<and> solo s (fst (snd (step p)))"
  using inv
proof (cases rule: step_cases)
  case (Reveals a)
  with reveal_sync [OF inv _ sync] show ?thesis by simp
next
  case (Stops p' out d)
  with prepare_sync [OF inv _ sync] show ?thesis by simp
next
  case (Opens p' out a)
  with prepare_sync [OF inv _ sync] have "sync p' (reduced s out)" "solo s out" by simp_all
  with reveal_sync [OF Opens(4,3), of "reduced s out"] Opens(5) show ?thesis by (simp add: solo_append)
qed

lemma settles_sync:
  "settles p out q \<Longrightarrow> player_inv p \<Longrightarrow> sync p s \<Longrightarrow> sync q (reduced s out) \<and> solo s out"
proof (induction arbitrary: s rule: settles.induct)
  case (at_live p)
  with sync_solo [OF at_live.prems(2)] show ?case by simp
next
  case (more_work p p' out d out' q)
  from step_inv [OF more_work.prems(1)] step_sync [OF more_work.prems] more_work.hyps(2)
  have "player_inv p'" "sync p' (reduced s out)" "solo s out" by simp_all
  with more_work.IH show ?case by (simp add: solo_append)
qed

lemma sync_paced [frame_simps]:
  "sync (p\<lparr>timer := t\<rparr>) s = sync p s" "sync (p\<lparr>draining := b\<rparr>) s = sync p s"
  "sync (p\<lparr>closed := c\<rparr>) s = sync p s" "sync (setRate x p) s = sync p s"
  by (rule sync_cong; simp add: setRate_def)+

lemma pump_sync:
  assumes "player_inv p" "sync p s"
  shows "sync (fst (pump p)) (reduced s (snd (pump p))) \<and> solo s (snd (pump p))"
  using assms(2) step_sync [OF assms] sync_solo [OF assms(2)]
  by (auto simp: pump_def frame_simps split: prod.splits)

lemma sync_fresh:
  "phase s \<in> {PhIdle, PhConnecting} \<Longrightarrow> transcript s = (\<lambda>_. None) \<Longrightarrow> activeSpeakers s = [] \<Longrightarrow> verdict s = [] \<Longrightarrow>
   sync (newPlayer m) s \<and> sync (reset p) s"
  by (auto simp: sync_def reset_def newPlayer_def speakers_ok_def phase_ok_def shown_ok_def contiguous_def
      cell_def is_active_def)

lemma quiet_sync:
  assumes "quiet i" "sync p s" "activeSpeakers (debateReducer s i) = activeSpeakers s"
  shows "sync p (debateReducer s i)"
proof -
  from quiet_step [OF assms(1), of s]
  have eqs: "phase (debateReducer s i) = phase s" "transcript (debateReducer s i) = transcript s"
    "verdict (debateReducer s i) = verdict s" by simp_all
  show ?thesis
    using assms(2) unfolding sync_def speakers_ok_def phase_ok_def shown_ok_def eqs assms(3) .
qed

text \<open>Every call but a bare \<open>reset\<close> keeps player and debate state in step.\<close>

lemma feedStatus_sync:
  assumes good: "good_player p" and sync: "sync p s"
  shows "sync (fst (feedStatus st p)) (reduced s (snd (feedStatus st p))) \<and> solo s (snd (feedStatus st p))"
proof -
  from good have inv: "player_inv p" by (simp add: good_player_def)
  note solo = sync_solo [OF sync]
  have fresh: "sync (reset p) (initialState\<lparr>phase := PhConnecting\<rparr>)"
    using sync_fresh [of "initialState\<lparr>phase := PhConnecting\<rparr>"] by (simp add: initialState_def)
  show ?thesis
  proof (cases st)
    case WsConnecting
    with fresh solo show ?thesis by (simp add: initialState_def)
  next
    case WsClosed
    with pump_sync [OF closed_inv [OF inv], of s] sync show ?thesis by (simp add: frame_simps)
  qed (use sync solo in simp_all)
qed

lemma player_does_sync:
  assumes good: "good_player p" and ok: "ok_call c" "c \<noteq> ResetCall" and sync: "sync p s"
    and does: "player_does c p = Some (q, out)"
  shows "sync q (reduced s out) \<and> solo s out"
proof -
  from good have inv: "player_inv p" by (simp add: good_player_def)
  note solo = sync_solo [OF sync]
  show ?thesis
  proof (cases c)
    case (Feed e)
    with ok have "wf_event e" by simp
    from pump_sync [OF record_inv [OF inv this] record_sync [OF inv sync]] Feed does show ?thesis
      by (simp add: feed_def)
  next
    case (FeedStatus st)
    with feedStatus_sync [OF good sync, of st] does show ?thesis by auto
  next
    case (FeedTransport m)
    with quiet_sync [of "TransportInput m" p s] sync solo does show ?thesis by (auto simp: feedTransport_def)
  next
    case TimerFires
    with pump_sync [of "p\<lparr>timer := None\<rparr>" s] inv sync solo does show ?thesis
      by (auto simp: timer_fires_def frame_simps split: if_splits)
  next
    case (SetRate x)
    with sync solo does show ?thesis by (auto simp: frame_simps)
  next
    case SkipToLive
    obtain o' q' where s: "settles (p\<lparr>timer := None, draining := True\<rparr>) o' q'"
      "skipToLive p = Some (q'\<lparr>draining := False\<rparr>, o')" using skip_settles [OF inv] by blast
    from settles_sync [OF s(1), of s] inv sync have "sync q' (reduced s o') \<and> solo s o'" by (simp add: frame_simps)
    with SkipToLive s(2) does show ?thesis by (auto simp: frame_simps)
  qed (use ok in simp_all)
qed

definition session_call :: "player_call \<Rightarrow> bool" where
  "session_call c \<longleftrightarrow> ok_call c \<and> c \<noteq> ResetCall"

lemma playback_sync:
  "good_player p \<Longrightarrow> sync p s \<Longrightarrow> list_all session_call cs \<Longrightarrow>
   \<exists>q s'. playback cs (p, s) = Some (q, s') \<and> good_player q \<and> sync q s'"
proof (induction cs arbitrary: p s)
  case (Cons c cs)
  from Cons.prems(3) have c: "ok_call c" "c \<noteq> ResetCall" by (simp_all add: session_call_def)
  obtain p1 out where 1: "player_does c p = Some (p1, out)" "good_player p1"
    using player_does_good [OF Cons.prems(1) c(1)] by blast
  from player_does_sync [OF Cons.prems(1) c Cons.prems(2) 1(1)] Cons.IH [OF 1(2)] Cons.prems(3) 1(1)
  show ?case by simp
qed simp

section \<open>All that was received\<close>

text \<open>A stream in the backend's order: no token for a round once that round is complete, no
  moderator token after the verdict, nothing but errors after a terminal signal, one session.
  What the order depends on: the rounds complete, whether a terminal signal is known, and
  whether the verdict is.\<close>

type_synonym stream_state = "nat set \<times> bool \<times> bool"

fun call_in_order :: "stream_state \<Rightarrow> player_call \<Rightarrow> bool" where
  "call_in_order (rs, t, v) (Feed (TokenEvent q r d)) = (if q = Moderator then \<not> v else r \<notin> rs)"
| "call_in_order (rs, t, v) (Feed (RoundCompleteEvent r)) = (\<not> t)"
| "call_in_order (rs, t, v) (Feed (VerdictEvent x)) = (\<not> t)"
| "call_in_order _ (FeedStatus st) = (st \<noteq> WsConnecting)"
| "call_in_order _ ResetCall = False"
| "call_in_order _ _ = True"

fun stream_next :: "stream_state \<Rightarrow> player_call \<Rightarrow> stream_state" where
  "stream_next (rs, t, v) (Feed (RoundCompleteEvent r)) = (insert r rs, t, v)"
| "stream_next (rs, t, v) (Feed (VerdictEvent x)) = (rs, True, True)"
| "stream_next (rs, t, v) (Feed (ErrorEvent e)) = (rs, t \<or> ee_persona e = None \<or> ee_persona e = Some Moderator, v)"
| "stream_next (rs, t, v) (FeedStatus st) = (rs, t \<or> st = WsClosed, v)"
| "stream_next st _ = st"

fun in_order :: "stream_state \<Rightarrow> player_call list \<Rightarrow> bool" where
  "in_order st [] = True"
| "in_order st (c # cs) = (call_in_order st c \<and> in_order (stream_next st c) cs)"

fun fed :: "persona_id \<Rightarrow> nat \<Rightarrow> player_call list \<Rightarrow> jstr list" where
  "fed p r [] = []"
| "fed p r (Feed (TokenEvent q k d) # cs) = (if q = p \<and> k = r then d # fed p r cs else fed p r cs)"
| "fed p r (c # cs) = fed p r cs"

definition faithful :: "player \<Rightarrow> debate_state \<Rightarrow> bool" where
  "faithful p s \<longleftrightarrow>
     (\<forall>a. active p = Some a \<longrightarrow> at_text a = getText (rec_text p) (at_persona a) (at_round a)
        \<and> (isModerator a \<longrightarrow> at_round a = moderator_round p))
   \<and> (\<forall>q r. played p q r \<longrightarrow> cell (transcript s) q r = getText (rec_text p) q r)
   \<and> (cursor p = CurDone \<longrightarrow> terminalKnown p \<and> (\<forall>v. rec_verdict p = Some v \<longrightarrow> phase s = PhDone \<and> verdict s = v
        \<and> cell (transcript s) Moderator (moderator_round p) = getText (rec_text p) Moderator (moderator_round p)))"

lemma played_panelist:
  "cursor p = CurPanelist k i \<Longrightarrow>
   played p q r \<longleftrightarrow> q \<noteq> Moderator \<and> 1 \<le> r \<and> (r < k \<or> (r = k \<and> (\<exists>j<i. q = PANELISTS ! j)))"
  by (simp add: played_def)

lemma moderator_round_cong:
  "moderatorRound p = moderatorRound p' \<Longrightarrow> roundComplete p = roundComplete p' \<Longrightarrow> moderator_round p = moderator_round p'"
  by (simp add: moderator_round_def maxPanelRound_def split: option.split)

lemma moderator_round_frame [frame_simps]:
  "moderator_round (p\<lparr>active := x1\<rparr>) = moderator_round p"
  "moderator_round (p\<lparr>cursor := x2\<rparr>) = moderator_round p"
  "moderator_round (p\<lparr>pendingDone := x3\<rparr>) = moderator_round p"
  "moderator_round (p\<lparr>pendingRoundComplete := x4\<rparr>) = moderator_round p"
  "moderator_round (p\<lparr>pendingErrors := x5\<rparr>) = moderator_round p"
  "moderator_round (p\<lparr>personaErrors := x6\<rparr>) = moderator_round p"
  by (rule moderator_round_cong; simp)+

lemma played_to_moderator:
  assumes "cursor_ok p" "contiguous p" "to_moderator p" "active p = None"
    and "{1..r} \<subseteq> set (roundComplete p)" "1 \<le> r" "q \<noteq> Moderator"
  shows "played p q r"
proof (cases "cursor p")
  case (CurPanelist k i)
  with assms(3,5) have "k \<notin> {1..r}" by (auto simp: to_moderator_def)
  moreover from assms(1) CurPanelist have "1 \<le> k" by (simp add: cursor_ok_def)
  ultimately have "r < k" by simp
  with CurPanelist assms(6,7) show ?thesis by (simp add: played_def)
qed (use assms in \<open>auto simp: played_def to_moderator_def\<close>)

lemma prepare_faithful:
  assumes inv: "player_inv p" and act: "active p = None" and sync: "sync p s" and faith: "faithful p s"
  shows "faithful (fst (prepareNextTurn p)) (reduced s (fst (snd (prepareNextTurn p))))"
proof -
  from inv have pend: "pending_ok p" and cur: "cursor_ok p" by (simp_all add: player_inv_def)
  from sync have sp: "speakers_ok p s" and ph: "phase_ok p s" and sh: "shown_ok p s" and co: "contiguous p"
    by (simp_all add: sync_def)
  let ?s = "reduced s (snd (flushPending p))"
  note fl = flush_speakers [OF pend sp act]
  have pl: "played p q r \<Longrightarrow> cell (transcript s) q r = getText (rec_text p) q r" for q r
    using faith by (simp add: faithful_def)
  have later: "cell (transcript s) q r = getText (rec_text p) q r"
    if "to_moderator p" "q \<noteq> Moderator" "1 \<le> r" "{1..r} \<subseteq> set (roundComplete p)" for q r
    using pl [OF played_to_moderator [OF cur co that(1) act that(4,3,2)]] .
  show ?thesis
  proof (cases p rule: prepare_cases)
    case Finished
    with faith show ?thesis by (simp add: prepare_done)
  next
    case (Panelist r i)
    have "played (fst (prepareNextTurn p)) q k = played p q k" for q k
      using Panelist by (simp add: prepare_panelist played_def)
    with pl fl Panelist show ?thesis by (simp add: prepare_panelist faithful_def)
  next
    case Parked
    with faith show ?thesis by (simp add: prepare_park)
  next
    case Failed
    have "transcript (reduced ?s (finalizeTerminal p)) = transcript s"
      using fl by (simp add: finalizeTerminal_def Let_def split: option.split)
    with Failed act later show ?thesis
      by (simp add: prepare_failed faithful_def played_def terminalKnown_def)
  next
    case (Verdict v)
    show ?thesis
    proof (cases "getText (rec_text p) Moderator (moderator_round p) = []")
      case True
      have "cell (transcript s) Moderator (moderator_round p) = []"
        using sh act Verdict(1) by (auto simp: shown_ok_def untouched_def to_moderator_def)
      then show ?thesis using True fl act Verdict later
        by (simp add: prepare_verdict faithful_def played_def terminalKnown_def frame_simps)
    next
      case False
      with fl act Verdict later show ?thesis
        by (simp add: prepare_verdict faithful_def played_def frame_simps)
    qed
  qed
qed

lemma reveal_faithful:
  assumes inv: "player_inv p" and act: "active p = Some a" and sync: "sync p s" and faith: "faithful p s"
  shows "faithful (fst (revealStep a p)) (reduced s (fst (snd (revealStep a p))))"
proof -
  from inv act have turn: "turn_ok p a" by (simp add: player_inv_def)
  from sync act have now: "cell (transcript s) (at_persona a) (at_round a) = take (at_pos a) (at_text a)"
    by (simp add: sync_def shown_ok_def)
  from faith act have same: "at_text a = getText (rec_text p) (at_persona a) (at_round a)"
    and modr: "isModerator a \<Longrightarrow> at_round a = moderator_round p"
    and pl: "\<And>q r. played p q r \<Longrightarrow> cell (transcript s) q r = getText (rec_text p) q r"
    by (simp_all add: faithful_def)
  let ?p = "fst (revealStep a p)" let ?s = "reduced s (fst (snd (revealStep a p)))"
  consider (Chunk) "at_pos a < length (at_text a)"
    | (ModEnd) "at_pos a \<ge> length (at_text a)" "isModerator a"
    | (PanEnd) "at_pos a \<ge> length (at_text a)" "\<not> isModerator a" by fastforce
  then show ?thesis
  proof cases
    case Chunk
    have "\<not> played p (at_persona a) (at_round a)"
    proof (cases "isModerator a")
      case False
      obtain i where "i < 4" "at_persona a = PANELISTS ! i" "cursor p = CurPanelist (at_round a) i"
        using turn_panelist [OF turn False] by metis
      then show ?thesis by (auto simp: played_def)
    qed (use turn in \<open>auto simp: turn_ok_def played_def\<close>)
    then have "cell (transcript ?s) q r = cell (transcript s) q r" if "played p q r" for q r
      using that Chunk by (auto simp: reveal_chunk cell_appendDelta)
    moreover have "cursor p \<noteq> CurDone" using turn by (auto simp: turn_ok_def split: if_splits)
    moreover have "played ?p q r = played p q r" for q r
      using Chunk by (simp add: reveal_chunk played_def split: cursor.split)
    ultimately show ?thesis
      using pl same modr Chunk by (simp add: reveal_chunk faithful_def frame_simps)
  next
    case ModEnd
    with turn obtain v where v: "rec_verdict p = Some v" "cursor p = CurModerator" "at_persona a = Moderator"
      by (auto simp: turn_ok_def)
    from ModEnd(1) now same modr [OF ModEnd(2)] v(3)
    have "cell (transcript s) Moderator (moderator_round p) = getText (rec_text p) Moderator (moderator_round p)" by simp
    with pl ModEnd v show ?thesis
      by (simp add: reveal_moderator_end faithful_def played_def frame_simps terminalKnown_def)
  next
    case PanEnd
    obtain i where i: "at_index a = int i" "i < 4" "at_persona a = PANELISTS ! i"
      "cursor p = CurPanelist (at_round a) i" "at_round a \<in> set (roundComplete p)"
      using turn_panelist [OF turn PanEnd(2)] .
    have shown: "cell (transcript s) (PANELISTS ! i) (at_round a) = getText (rec_text p) (PANELISTS ! i) (at_round a)"
      using PanEnd(1) now same i(3) by simp
    have nxt: "cursor ?p = next_cursor (at_round a) i" using PanEnd i by (simp add: reveal_panelist_end)
    have "played p q r \<or> (q = PANELISTS ! i \<and> r = at_round a)" if "played ?p q r" for q r
    proof (cases "i < 3")
      case True
      with nxt have "cursor ?p = CurPanelist (at_round a) (Suc i)" by (simp add: next_cursor_def)
      with that played_panelist [OF i(4)] show ?thesis by (auto simp: played_panelist less_Suc_eq)
    next
      case False
      with nxt have "cursor ?p = CurPanelist (Suc (at_round a)) 0" by (simp add: next_cursor_def)
      from that [unfolded played_panelist [OF this]] have r: "q \<noteq> Moderator" "1 \<le> r" "r \<le> at_round a" by auto
      then obtain j where j: "j < 4" "q = PANELISTS ! j" using panelist_index by blast
      with False i(2) have "j = i \<or> j < i" by auto
      moreover from r have "r < at_round a \<or> r = at_round a" by linarith
      ultimately show ?thesis using r(1,2) j(2) unfolding played_panelist [OF i(4)] by blast
    qed
    with pl shown have all: "played ?p q r \<Longrightarrow> cell (transcript s) q r = getText (rec_text p) q r" for q r by blast
    have "active ?p = None" "cursor ?p \<noteq> CurDone" "rec_text ?p = rec_text p" "?s = s"
      using PanEnd i by (simp_all add: reveal_panelist_end next_cursor_def)
    with all show ?thesis unfolding faithful_def by simp
  qed
qed

lemma step_faithful:
  assumes inv: "player_inv p" and sync: "sync p s" and faith: "faithful p s"
  shows "faithful (fst (step p)) (reduced s (fst (snd (step p))))"
  using inv
proof (cases rule: step_cases)
  case (Reveals a)
  with reveal_faithful [OF inv _ sync faith] show ?thesis by simp
next
  case (Stops p' out d)
  with prepare_faithful [OF inv _ sync faith] show ?thesis by simp
next
  case (Opens p' out a)
  with prepare_sync [OF inv _ sync] prepare_faithful [OF inv _ sync faith]
  have "sync p' (reduced s out)" "faithful p' (reduced s out)" by simp_all
  with reveal_faithful [OF Opens(4,3), of "reduced s out"] Opens(5) show ?thesis by simp
qed

lemma settles_faithful:
  "settles p out q \<Longrightarrow> player_inv p \<Longrightarrow> sync p s \<Longrightarrow> faithful p s \<Longrightarrow> faithful q (reduced s out)"
proof (induction arbitrary: s rule: settles.induct)
  case (more_work p p' out d out' q)
  from step_inv [OF more_work.prems(1)] step_sync [OF more_work.prems(1,2)] step_faithful [OF more_work.prems]
    more_work.hyps(2)
  have "player_inv p'" "sync p' (reduced s out)" "faithful p' (reduced s out)" by simp_all
  with more_work.IH show ?case by simp
qed simp

text \<open>What a call records, and that playing records nothing.\<close>

definition same_recording :: "player \<Rightarrow> player \<Rightarrow> bool" where
  "same_recording p p' \<longleftrightarrow> rec_text p = rec_text p' \<and> roundComplete p = roundComplete p'
     \<and> rec_verdict p = rec_verdict p' \<and> sessionError p = sessionError p' \<and> closed p = closed p'
     \<and> moderatorRound p = moderatorRound p'"

lemma same_recording_trans: "same_recording p q \<Longrightarrow> same_recording q r \<Longrightarrow> same_recording p r"
  by (simp add: same_recording_def)

lemma prepare_recording: "same_recording p (fst (prepareNextTurn p))"
  by (cases p rule: prepare_cases)
    (auto simp: same_recording_def prepare_done prepare_panelist prepare_park prepare_failed prepare_verdict)

lemma reveal_recording: "same_recording p (fst (revealStep a p))"
  by (simp add: same_recording_def revealStep_def Let_def split: option.split)

lemma step_recording: "player_inv p \<Longrightarrow> same_recording p (fst (step p))"
proof (erule step_cases)
  fix p' out d
  assume "prepareNextTurn p = (p', out, Some d)" "step p = (p', out, d)"
  with prepare_recording [of p] show ?thesis by simp
next
  fix p' out a
  assume "prepareNextTurn p = (p', out, None)"
    and eq: "step p = (fst (revealStep a p'), out @ fst (snd (revealStep a p')), snd (snd (revealStep a p')))"
  with prepare_recording [of p] have "same_recording p p'" by simp
  with same_recording_trans [OF _ reveal_recording] eq show ?thesis by simp
qed (use reveal_recording in simp)

lemma settles_recording: "settles p out q \<Longrightarrow> player_inv p \<Longrightarrow> same_recording p q"
proof (induction rule: settles.induct)
  case (more_work p p' out d out' q)
  with step_recording [of p] step_inv [of p] show ?case by (auto intro: same_recording_trans)
qed (simp add: same_recording_def)

lemma pump_recording: "player_inv p \<Longrightarrow> same_recording p (fst (pump p))"
  using step_recording [of p] by (auto simp: pump_def same_recording_def split: prod.split)

fun absorb :: "player_call \<Rightarrow> player \<Rightarrow> player" where
  "absorb (Feed e) p = record_event e p"
| "absorb (FeedStatus st) p = (if st = WsClosed then p\<lparr>closed := True\<rparr> else p)"
| "absorb c p = p"

lemma does_recording:
  assumes good: "good_player p" and ok: "ok_call c" "c \<notin> {ResetCall, FeedStatus WsConnecting}"
    and does: "player_does c p = Some (q, out)"
  shows "same_recording (absorb c p) q"
proof -
  from good have inv: "player_inv p" by (simp add: good_player_def)
  have refl: "same_recording x x" for x by (simp add: same_recording_def)
  show ?thesis
  proof (cases c)
    case (Feed e)
    with ok have "wf_event e" by simp
    from pump_recording [OF record_inv [OF inv this]] Feed does show ?thesis by (simp add: feed_def)
  next
    case (FeedStatus st)
    with pump_recording [OF closed_inv [OF inv]] ok does refl show ?thesis by (cases st) auto
  next
    case TimerFires
    with pump_recording [of "p\<lparr>timer := None\<rparr>"] inv does refl show ?thesis
      by (auto simp: timer_fires_def frame_simps same_recording_def split: if_splits)
  next
    case SkipToLive
    obtain o' q' where s: "settles (p\<lparr>timer := None, draining := True\<rparr>) o' q'"
      "skipToLive p = Some (q'\<lparr>draining := False\<rparr>, o')" using skip_settles [OF inv] by blast
    from settles_recording [OF s(1)] inv SkipToLive s(2) does show ?thesis
      by (auto simp: frame_simps same_recording_def)
  qed (use ok does in \<open>auto simp: same_recording_def setRate_def feedTransport_def\<close>)
qed

text \<open>One event that fits the recording so far.\<close>

fun fits :: "player \<Rightarrow> debate_event \<Rightarrow> bool" where
  "fits p (TokenEvent q r d) = (if q = Moderator then rec_verdict p = None else r \<notin> set (roundComplete p))"
| "fits p (RoundCompleteEvent r) = (\<not> terminalKnown p)"
| "fits p (VerdictEvent v) = (\<not> terminalKnown p)"
| "fits p _ = True"

lemma played_complete:
  assumes "cursor_ok p" "contiguous p" "played p q r"
  shows "r \<in> set (roundComplete p)"
proof (cases "cursor p")
  case (CurPanelist k i)
  with assms have "1 \<le> r" "r < k \<or> (r = k \<and> 0 < i)" by (auto simp: played_panelist)
  with CurPanelist assms(1,2) show ?thesis by (auto simp: contiguous_def cursor_ok_def)
qed (use assms(3) in \<open>auto simp: played_def\<close>)

lemma faithful_cong:
  assumes "cursor p = cursor p'" "active p = active p'" "rec_text p = rec_text p'"
    "roundComplete p = roundComplete p'" "moderatorRound p = moderatorRound p'"
    "rec_verdict p = rec_verdict p'" "terminalKnown p \<Longrightarrow> terminalKnown p'"
  shows "faithful p s \<Longrightarrow> faithful p' s"
proof -
  have eqs: "played p q r = played p' q r" "moderator_round p = moderator_round p'" for q r
    unfolding played_def assms using moderator_round_cong [OF assms(5,4)] by simp_all
  show "faithful p s \<Longrightarrow> faithful p' s"
    using assms(7) unfolding faithful_def eqs assms(1-6) by blast
qed

lemma record_faithful:
  assumes inv: "player_inv p" and sync: "sync p s" and faith: "faithful p s" and fits: "fits p e"
  shows "faithful (record_event e p) s"
proof (cases e)
  case (TokenEvent q r d)
  let ?p = "record_event e p"
  from inv sync have cc: "cursor_ok p" "contiguous p" by (simp_all add: player_inv_def sync_def)
  have keep: "getText (rec_text ?p) q' r' = getText (rec_text p) q' r'" if "q' \<noteq> q \<or> r' \<noteq> r" for q' r'
    using that by (auto simp: TokenEvent Let_def store_simps)
  have same: "cursor ?p = cursor p" "active ?p = active p" "roundComplete ?p = roundComplete p"
    "rec_verdict ?p = rec_verdict p" "terminalKnown ?p = terminalKnown p"
    using TokenEvent by (simp_all add: Let_def terminalKnown_def)
  have pl: "played ?p q' r' = played p q' r'" for q' r' unfolding played_def same ..
  have "\<not> played p q r"
    using played_complete [OF cc] fits TokenEvent by (auto simp: played_def split: if_splits)
  then have plays: "played p q' r' \<Longrightarrow> getText (rec_text ?p) q' r' = getText (rec_text p) q' r'" for q' r'
    using keep by metis
  have mr: "moderator_round ?p = moderator_round p" if "rec_verdict p \<noteq> None"
    using that fits TokenEvent by (intro moderator_round_cong) (auto split: if_splits)
  have acts: "getText (rec_text ?p) (at_persona a) (at_round a) = getText (rec_text p) (at_persona a) (at_round a)
      \<and> (isModerator a \<longrightarrow> rec_verdict p \<noteq> None)" if "active p = Some a" for a
    using that inv fits TokenEvent keep [of "at_persona a" "at_round a"]
    by (auto simp: player_inv_def turn_ok_def split: if_splits)
  have mods: "getText (rec_text ?p) Moderator k = getText (rec_text p) Moderator k" if "rec_verdict p \<noteq> None" for k
    using that fits TokenEvent by (intro keep) (auto split: if_splits)
  show ?thesis
    using faith acts mr mods plays unfolding faithful_def same pl by auto
next
  case (RoundCompleteEvent r)
  let ?p = "record_event e p"
  from fits RoundCompleteEvent have nt: "\<not> terminalKnown p" by simp
  with inv faith have cur: "cursor p \<noteq> CurDone" "cursor p \<noteq> CurModerator"
    by (auto simp: faithful_def player_inv_def cursor_ok_def split: cursor.splits)
  then have "played ?p q k = played p q k" for q k
    using RoundCompleteEvent by (cases "cursor p") (simp_all add: played_panelist)
  moreover have "\<not> isModerator a" if "active p = Some a" for a
    using that inv nt by (auto simp: player_inv_def turn_ok_def terminalKnown_def)
  ultimately show ?thesis using faith cur RoundCompleteEvent by (auto simp: faithful_def)
next
  case (VerdictEvent v)
  let ?p = "record_event e p"
  from fits VerdictEvent have nt: "\<not> terminalKnown p" by simp
  with inv faith have "cursor p \<noteq> CurDone" by (auto simp: faithful_def)
  moreover have "played ?p q k = played p q k" for q k using VerdictEvent by (simp add: played_def split: cursor.split)
  moreover have "\<not> isModerator a" if "active p = Some a" for a
    using that inv nt by (auto simp: player_inv_def turn_ok_def terminalKnown_def)
  ultimately show ?thesis using faith VerdictEvent by (auto simp: faithful_def)
qed (rule faithful_cong [OF _ _ _ _ _ _ _ faith];
    auto simp: terminalKnown_def split: option.split)+

lemma faithful_pump:
  assumes "player_inv p" "sync p s" "faithful p s"
  shows "faithful (fst (pump p)) (reduced s (snd (pump p)))"
proof -
  obtain p' out d where eq: "step p = (p', out, d)" by (cases "step p") auto
  have "faithful (p'\<lparr>timer := t\<rparr>) s' = faithful p' s'" for t s'
    by (rule iffI; erule faithful_cong [rotated -1]; simp add: terminalKnown_def)
  with step_faithful [OF assms] eq assms(3) show ?thesis by (simp add: pump_def)
qed

lemma closed_faithful: "faithful p s \<Longrightarrow> faithful (p\<lparr>closed := True\<rparr>) s"
  by (erule faithful_cong [rotated -1]) (simp_all add: terminalKnown_def)

lemma paced_faithful [frame_simps]:
  "faithful (p\<lparr>timer := t\<rparr>) s = faithful p s" "faithful (p\<lparr>draining := b\<rparr>) s = faithful p s"
  "faithful (setRate x p) s = faithful p s"
  by (rule iffI; erule faithful_cong [rotated -1]; simp add: terminalKnown_def setRate_def)+

lemma quiet_faithful: "quiet i \<Longrightarrow> faithful p s \<Longrightarrow> faithful p (debateReducer s i)"
  using quiet_step [of i s] by (simp add: faithful_def)

definition call_fits :: "player \<Rightarrow> player_call \<Rightarrow> bool" where
  "call_fits p c \<longleftrightarrow> ok_call c \<and> c \<notin> {ResetCall, FeedStatus WsConnecting}
     \<and> (\<forall>e. c = Feed e \<longrightarrow> fits p e)"

lemma does_faithful:
  assumes good: "good_player p" and fits: "call_fits p c" and sync: "sync p s" and faith: "faithful p s"
    and does: "player_does c p = Some (q, out)"
  shows "faithful q (reduced s out)"
proof -
  from good have inv: "player_inv p" by (simp add: good_player_def)
  show ?thesis
  proof (cases c)
    case (Feed e)
    with fits have e: "wf_event e" "fits p e" by (simp_all add: call_fits_def)
    from faithful_pump [OF record_inv [OF inv e(1)] record_sync [OF inv sync]
        record_faithful [OF inv sync faith e(2)]] Feed does
    show ?thesis by (simp add: feed_def)
  next
    case (FeedStatus st)
    show ?thesis
    proof (cases "st = WsClosed")
      case True
      with faithful_pump [OF closed_inv [OF inv], of s] sync faith FeedStatus does show ?thesis
        by (simp add: frame_simps closed_faithful)
    next
      case False
      with FeedStatus fits have q: "quiet (StatusInput st)" by (simp add: call_fits_def)
      from False fits FeedStatus does have "q = p" "out = [StatusInput st]"
        by (cases st; simp add: call_fits_def)+
      with quiet_faithful [OF q faith] show ?thesis by simp
    qed
  next
    case TimerFires
    with faithful_pump [of "p\<lparr>timer := None\<rparr>" s] inv sync faith does show ?thesis
      by (auto simp: timer_fires_def frame_simps split: if_splits)
  next
    case SkipToLive
    obtain o' q' where s: "settles (p\<lparr>timer := None, draining := True\<rparr>) o' q'"
      "skipToLive p = Some (q'\<lparr>draining := False\<rparr>, o')" using skip_settles [OF inv] by blast
    from settles_faithful [OF s(1), of s] inv sync faith have "faithful q' (reduced s o')" by (simp add: frame_simps)
    with SkipToLive s(2) does show ?thesis by (auto simp: frame_simps)
  next
    case (FeedTransport m)
    with quiet_faithful [of "TransportInput m", OF _ faith] does show ?thesis by (auto simp: feedTransport_def)
  qed (use fits faith does in \<open>auto simp: call_fits_def frame_simps\<close>)
qed

text \<open>What the recording holds after a stream in order.\<close>

definition recorded_all :: "player \<Rightarrow> player_call list \<Rightarrow> player \<Rightarrow> bool" where
  "recorded_all p cs q \<longleftrightarrow>
     (\<forall>x r. getText (rec_text q) x r = take MAX_TURN_CHARS (getText (rec_text p) x r @ concat (fed x r cs)))
   \<and> (\<forall>r. r \<in> set (roundComplete p) \<or> Feed (RoundCompleteEvent r) \<in> set cs \<longrightarrow> r \<in> set (roundComplete q))
   \<and> (\<forall>v. rec_verdict p = Some v \<or> Feed (VerdictEvent v) \<in> set cs \<longrightarrow> rec_verdict q = Some v)
   \<and> (\<forall>k. moderatorRound q = Some k \<longrightarrow> moderatorRound p = Some k \<or> fed Moderator k cs \<noteq> [])"

definition stream_of :: "player \<Rightarrow> stream_state" where
  "stream_of p = (set (roundComplete p), terminalKnown p, rec_verdict p \<noteq> None)"

lemma call_in_order_fits: "call_in_order (stream_of p) c \<Longrightarrow> ok_call c \<Longrightarrow> call_fits p c"
proof (cases c)
  case (Feed e)
  then show "call_in_order (stream_of p) c \<Longrightarrow> ok_call c \<Longrightarrow> call_fits p c"
    by (cases e) (auto simp: call_fits_def stream_of_def split: if_splits)
qed (auto simp: call_fits_def stream_of_def)

lemma stream_of_absorb: "stream_of (absorb c p) = stream_next (stream_of p) c"
proof (cases c)
  case (Feed e)
  then show ?thesis by (cases e) (auto simp: stream_of_def terminalKnown_def Let_def split: option.split)
qed (auto simp: stream_of_def terminalKnown_def)

lemma stream_of_cong: "same_recording p q \<Longrightarrow> stream_of q = stream_of p"
  by (simp add: same_recording_def stream_of_def terminalKnown_def)

lemma fed_Cons: "fed x r (c # cs) = fed x r [c] @ fed x r cs"
proof (cases c)
  case (Feed e)
  then show ?thesis by (cases e) auto
qed auto

lemma recorded_absorb:
  assumes "call_in_order (stream_of p) c" "player_inv p"
  shows "recorded_all p [c] (absorb c p)"
proof -
  from assms(2) have caps: "length (getText (rec_text p) q r) \<le> MAX_TURN_CHARS" for q r
    by (simp add: player_inv_def recording_ok_def)
  show ?thesis
  proof (cases c)
    case (Feed e)
    with assms(1) caps show ?thesis
      by (cases e) (auto simp: recorded_all_def stream_of_def terminalKnown_def Let_def store_simps
          simp del: take_append split: option.split)
  qed (use caps in \<open>auto simp: recorded_all_def\<close>)
qed

lemma recorded_all_trans:
  assumes "recorded_all p [c] p1" "recorded_all p1 cs q"
  shows "recorded_all p (c # cs) q"
proof -
  have "getText (rec_text q) x r = take MAX_TURN_CHARS (getText (rec_text p) x r @ concat (fed x r (c # cs)))" for x r
    using assms unfolding recorded_all_def fed_Cons [of x r c cs] by (simp del: take_append fed.simps)
  moreover have "moderatorRound q = Some k \<longrightarrow> moderatorRound p = Some k \<or> fed Moderator k (c # cs) \<noteq> []" for k
    using assms unfolding recorded_all_def fed_Cons [of Moderator k c cs] by (metis append_is_Nil_conv)
  ultimately show ?thesis using assms unfolding recorded_all_def by (metis list.set_intros set_ConsD)
qed

lemma recorded_all_cong: "recorded_all p cs q \<Longrightarrow> same_recording q q' \<Longrightarrow> recorded_all p cs q'"
  by (simp add: recorded_all_def same_recording_def)

lemma playback_run:
  "good_player p \<Longrightarrow> sync p s \<Longrightarrow> faithful p s \<Longrightarrow> list_all ok_call cs \<Longrightarrow> in_order (stream_of p) cs \<Longrightarrow>
   \<exists>q s'. playback cs (p, s) = Some (q, s') \<and> good_player q \<and> sync q s' \<and> faithful q s' \<and> recorded_all p cs q"
proof (induction cs arbitrary: p s)
  case Nil
  then have "length (getText (rec_text p) x r) \<le> MAX_TURN_CHARS" for x r
    by (simp add: good_player_def player_inv_def recording_ok_def)
  with Nil show ?case by (simp add: recorded_all_def)
next
  case (Cons c cs)
  from Cons.prems(1) have inv: "player_inv p" by (simp add: good_player_def)
  from Cons.prems(4,5) have ok: "ok_call c" "call_in_order (stream_of p) c" by simp_all
  note cfits = call_in_order_fits [OF ok(2,1)]
  then have c: "c \<noteq> ResetCall" "c \<notin> {ResetCall, FeedStatus WsConnecting}" by (simp_all add: call_fits_def)
  obtain p1 out where 1: "player_does c p = Some (p1, out)" "good_player p1"
    using player_does_good [OF Cons.prems(1) ok(1)] by blast
  note rec = does_recording [OF Cons.prems(1) ok(1) c(2) 1(1)]
  from player_does_sync [OF Cons.prems(1) ok(1) c(1) Cons.prems(2) 1(1)]
    does_faithful [OF Cons.prems(1) cfits Cons.prems(2,3) 1(1)]
  have 2: "sync p1 (reduced s out)" "faithful p1 (reduced s out)" by simp_all
  have "in_order (stream_of p1) cs"
    using Cons.prems(5) stream_of_cong [OF rec] by (simp add: stream_of_absorb)
  with Cons.IH [OF 1(2) 2] Cons.prems(4) 1(1) obtain q s' where
    q: "playback (c # cs) (p, s) = Some (q, s')" "good_player q" "sync q s'" "faithful q s'" "recorded_all p1 cs q"
    by auto
  from recorded_all_trans [OF recorded_all_cong [OF recorded_absorb [OF ok(2) inv] rec] q(5)] q
  show ?case by blast
qed

lemma faithful_new: "faithful (newPlayer m) s"
  by (auto simp: faithful_def newPlayer_def played_def)

lemma sync_new: "sync (newPlayer m) initialState"
  by (simp add: sync_fresh initialState_def)

lemma stream_of_new [simp]: "stream_of (newPlayer m) = ({}, False, False)"
  by (simp add: stream_of_def newPlayer_def terminalKnown_def)

text \<open>Left alone to the end, the pair is in step and everything is shown.\<close>

lemma rest_in_step:
  assumes "good_player p" "sync p s" "faithful p s"
  shows "\<exists>q out. run_timers p [] = Some (q, out) \<and> player_inv q \<and> sync q (reduced s out)
    \<and> faithful q (reduced s out) \<and> \<not> hasReadyWork q \<and> same_recording p q"
proof -
  from assms(1) have inv: "player_inv p" "awake p" by (simp_all add: good_player_def)
  obtain out q where q: "settles (p\<lparr>timer := None\<rparr>) out q" "run_timers p [] = Some (q, out)"
    using timers_settle [OF inv] by blast
  from inv assms have pre: "player_inv (p\<lparr>timer := None\<rparr>)" "sync (p\<lparr>timer := None\<rparr>) s" "faithful (p\<lparr>timer := None\<rparr>) s"
    by (simp_all add: frame_simps)
  have "same_recording p q" using settles_recording [OF q(1) pre(1)] by (simp add: same_recording_def)
  with settles_inv [OF q(1) pre(1)] settles_sync [OF q(1) pre(1,2)] settles_faithful [OF q(1) pre] q(2)
  show ?thesis by auto
qed

lemma playback_text:
  "good_player p \<Longrightarrow> list_all ok_call cs \<Longrightarrow> ResetCall \<notin> set cs \<Longrightarrow> FeedStatus WsConnecting \<notin> set cs \<Longrightarrow>
   playback cs (p, s) = Some (q, s') \<Longrightarrow>
   getText (rec_text q) x r = take MAX_TURN_CHARS (getText (rec_text p) x r @ concat (fed x r cs))"
proof (induction cs arbitrary: p s)
  case Nil
  then show ?case by (simp add: good_player_def player_inv_def recording_ok_def)
next
  case (Cons c cs)
  from Cons.prems have c: "ok_call c" "c \<notin> {ResetCall, FeedStatus WsConnecting}" by auto
  obtain p1 out where 1: "player_does c p = Some (p1, out)" "good_player p1"
    using player_does_good [OF Cons.prems(1) c(1)] by blast
  from Cons.prems(1) have "length (getText (rec_text p) x r) \<le> MAX_TURN_CHARS"
    by (simp add: good_player_def player_inv_def recording_ok_def)
  then have "getText (rec_text (absorb c p)) x r = take MAX_TURN_CHARS (getText (rec_text p) x r @ concat (fed x r [c]))"
    by (cases "(c, p)" rule: absorb.cases; cases "case c of Feed e \<Rightarrow> e | _ \<Rightarrow> VerdictEvent []")
      (auto simp: record_text simp del: record_event.simps take_append split: player_call.splits)
  moreover have "rec_text p1 = rec_text (absorb c p)"
    using does_recording [OF Cons.prems(1) c 1(1)] by (simp add: same_recording_def)
  moreover have "getText (rec_text q) x r = take MAX_TURN_CHARS (getText (rec_text p1) x r @ concat (fed x r cs))"
    using Cons.IH [OF 1(2)] Cons.prems 1(1) by auto
  ultimately show ?case unfolding fed_Cons [of x r c cs] by (simp del: take_append fed.simps)
qed

section \<open>A player with nothing recorded\<close>

text \<open>A player just made or just reset: nothing recorded, nothing scheduled.\<close>

definition fresh :: "player \<Rightarrow> bool" where
  "fresh p \<longleftrightarrow> p = reset p"

lemma fresh_reset [simp]: "fresh (reset p)"
  by (simp add: fresh_def reset_def newPlayer_def)

lemma fresh_new [simp]: "fresh (newPlayer m)"
  by (simp add: fresh_def reset_def newPlayer_def)

lemma fresh_recording:
  assumes "fresh p"
  shows "stream_of p = ({}, False, False)" "getText (rec_text p) q r = []" "roundComplete p = []"
    "rec_verdict p = None" "moderatorRound p = None" "faithful p s"
proof -
  from assms have p: "p = reset p" by (simp add: fresh_def)
  show "stream_of p = ({}, False, False)" "getText (rec_text p) q r = []" "roundComplete p = []"
    "rec_verdict p = None" "moderatorRound p = None"
    by (subst p, simp add: reset_def newPlayer_def stream_of_def terminalKnown_def getText_def)+
  have "faithful (reset p) s" by (auto simp: faithful_def reset_def newPlayer_def played_def)
  with p show "faithful p s" by simp
qed

lemma fresh_idle:
  assumes "fresh p"
  shows "timer p = None" "\<not> hasReadyWork p" "draining p = False" "timer_fires p = (p, [])" "skipToLive p = Some (p, [])"
proof -
  from assms have p: "p = reset p" by (simp add: fresh_def)
  show t: "timer p = None" by (subst p) (simp add: reset_def newPlayer_def)
  show r: "\<not> hasReadyWork p" by (subst p) (rule fresh_not_ready)
  show d: "draining p = False" by (subst p) (simp add: reset_def newPlayer_def)
  show "timer_fires p = (p, [])" using t by (simp add: timer_fires_def)
  have "step (p\<lparr>timer := None, draining := True\<rparr>) = (p\<lparr>timer := None, draining := True\<rparr>, [],
      if cursor p = CurDone then DONE else PARK)"
    using step_parked [of "p\<lparr>timer := None, draining := True\<rparr>"] r by (simp add: frame_simps)
  moreover from t d have "p\<lparr>timer := None, draining := False\<rparr> = p" by simp
  ultimately show "skipToLive p = Some (p, [])" by (simp add: skipToLive_def drain_stop)
qed

lemma fresh_setRate: "fresh p \<Longrightarrow> fresh (setRate x p)"
proof -
  have "setRate x (reset p) = reset (setRate x p)" by (simp add: setRate_def reset_def newPlayer_def)
  then show "fresh p \<Longrightarrow> fresh (setRate x p)" unfolding fresh_def by metis
qed

lemma shown_prefix:
  assumes "sync p s"
  shows "prefix (cell (transcript s) q r) (getText (rec_text p) q r)"
proof (cases "is_active p q r")
  case True
  with assms show ?thesis
    unfolding sync_def shown_ok_def is_active_def by (metis prefix_order.trans take_is_prefix)
qed (use assms in \<open>simp add: sync_def shown_ok_def\<close>)

lemma session_playback:
  assumes "list_all session_call cs" "playback cs (newPlayer m, initialState) = Some (p, s)"
  shows "good_player p" "sync p s"
  using playback_sync [OF good_new sync_new assms(1), of m] assms(2) by auto

text \<open>At the end the moderator's text is shown whole, when it came under one round.\<close>

lemma moderator_shown:
  assumes "player_inv q" "sync q s" "faithful q s" "cursor q = CurDone" "rec_verdict q = Some v"
    and "\<And>k. moderatorRound q = Some k \<Longrightarrow> k = r"
  shows "cell (transcript s) Moderator r = getText (rec_text q) Moderator r"
proof (cases "moderatorRound q")
  case None
  with assms(1) have "getText (rec_text q) Moderator r = []" by (simp add: player_inv_def recording_ok_def)
  with shown_prefix [OF assms(2), of Moderator r] show ?thesis by simp
next
  case (Some k)
  with assms(6) have "moderator_round q = r" by (simp add: moderator_round_def)
  with assms(3-5) show ?thesis by (auto simp: faithful_def)
qed

lemma replay_from:
  assumes start: "good_player p0" "fresh p0" "sync p0 s0"
    and stream: "list_all ok_call cs" "in_order ({}, False, False) cs"
    and "Feed (VerdictEvent v) \<in> set cs"
    and "\<And>r. 1 \<le> r \<Longrightarrow> r \<le> n \<Longrightarrow> Feed (RoundCompleteEvent r) \<in> set cs"
  shows "\<exists>p s q out s'. playback cs (p0, s0) = Some (p, s)
    \<and> run_timers p [] = Some (q, out) \<and> s' = foldl debateReducer s out
    \<and> phase s' = PhDone \<and> verdict s' = v \<and> activeSpeakers s' = []
    \<and> (\<forall>x r. x \<noteq> Moderator \<and> 1 \<le> r \<and> r \<le> n \<longrightarrow> cell (transcript s') x r = take 200000 (concat (fed x r cs)))
    \<and> (\<forall>r. (\<forall>k. fed Moderator k cs \<noteq> [] \<longrightarrow> k = r) \<longrightarrow>
         cell (transcript s') Moderator r = take 200000 (concat (fed Moderator r cs)))"
proof -
  obtain p s where p: "playback cs (p0, s0) = Some (p, s)" "good_player p" "sync p s" "faithful p s"
    "recorded_all p0 cs p"
    using playback_run [OF start(1,3) fresh_recording(6) [OF start(2)] stream(1)] stream(2) start(2)
    by (auto simp: fresh_recording)
  obtain q out where q: "run_timers p [] = Some (q, out)" "player_inv q" "sync q (reduced s out)"
    "faithful q (reduced s out)" "\<not> hasReadyWork q" "same_recording p q"
    using rest_in_step [OF p(2-4)] by blast
  let ?s = "reduced s out"
  have rec: "recorded_all p0 cs q" using recorded_all_cong [OF p(5) q(6)] .
  then have words: "getText (rec_text q) x r = take 200000 (concat (fed x r cs))" for x r
    using fresh_recording(2) [OF start(2)] by (simp add: recorded_all_def MAX_TURN_CHARS_def)
  from rec assms(6) have v: "rec_verdict q = Some v" by (simp add: recorded_all_def)
  with q(5) have fin: "cursor q = CurDone" "active q = None" by (auto simp: ready_iff terminalKnown_def)
  with q(2) have "idle_pending q" by (simp add: player_inv_def cursor_ok_def)
  with fin q(3) have quiet: "activeSpeakers ?s = []" by (simp add: sync_def speakers_ok_def idle_pending_def)
  from q(4) fin v have finish: "phase ?s = PhDone" "verdict ?s = v"
    "cell (transcript ?s) Moderator (moderator_round q) = getText (rec_text q) Moderator (moderator_round q)"
    by (simp_all add: faithful_def)
  have panel: "cell (transcript ?s) x r = getText (rec_text q) x r" if "x \<noteq> Moderator" "1 \<le> r" "r \<le> n" for x r
  proof -
    have "{1..r} \<subseteq> set (roundComplete q)" using rec assms(7) that by (auto simp: recorded_all_def)
    with that fin q(4) show ?thesis by (simp add: faithful_def played_def)
  qed
  have moder: "cell (transcript ?s) Moderator r = getText (rec_text q) Moderator r"
    if "\<forall>k. fed Moderator k cs \<noteq> [] \<longrightarrow> k = r" for r
    using that rec by (intro moderator_shown [OF q(2-4) fin(1) v]) (auto simp: recorded_all_def fresh_recording [OF start(2)])
  show ?thesis
    using p(1) q(1) finish(1,2) quiet panel moder by (auto simp: reduced_def [symmetric] words)
qed

section \<open>Properties\<close>

text \<open>C6. The pace is only the pace. Wherever playback stands, waiting for its timers at any
  speed, or pressing \<open>skipToLive\<close>, gives one and the same debate state and leaves one and the
  same recording and schedule.\<close>

theorem pace_changes_nothing_else:
  assumes "list_all session_call cs" "playback cs (newPlayer m, initialState) = Some (p, s)"
  shows "\<exists>q out q' out'. skipToLive p = Some (q, out) \<and> run_timers (setRate x p) [] = Some (q', out')
    \<and> reduced s out = reduced s out' \<and> forget_pace q = forget_pace q'"
proof -
  from session_playback [OF assms] have good: "good_player p" by simp
  then have inv: "player_inv p" by (simp add: good_player_def)
  from setRate_good [OF good, of x] have inv': "player_inv (setRate x p)" "awake (setRate x p)"
    by (simp_all add: good_player_def)
  obtain out q where 1: "settles (p\<lparr>timer := None, draining := True\<rparr>) out q"
    "skipToLive p = Some (q\<lparr>draining := False\<rparr>, out)" using skip_settles [OF inv] by blast
  obtain out' q' where 2: "settles ((setRate x p)\<lparr>timer := None\<rparr>) out' q'" "run_timers (setRate x p) [] = Some (q', out')"
    using timers_settle [OF inv'] by blast
  have "forget_pace (setRate x p) = forget_pace p" by (simp add: setRate_def forget_pace_def paced_def)
  with settles_forget_pace [OF 1(1) 2(1), of s] inv inv' 1(2) 2(2) show ?thesis
    by (auto simp: frame_simps)
qed

theorem pace_changes_nothing_else_witness:
  "\<exists>p s q out q' out'. playback [Feed (TokenEvent Skeptic 1 (js ''hi'')), Feed (RoundCompleteEvent 1)] (newPlayer False, initialState) = Some (p, s)
    \<and> skipToLive p = Some (q, out) \<and> run_timers (setRate (JNum 2) p) [] = Some (q', out')
    \<and> reduced s out = reduced s out' \<and> forget_pace q = forget_pace q'"
proof -
  let ?cs = "[Feed (TokenEvent Skeptic 1 (js ''hi'')), Feed (RoundCompleteEvent 1)]"
  have cs: "list_all session_call ?cs" by (simp add: session_call_def MAX_WIRE_ROUND_def MAX_ROUNDS_def)
  have "list_all ok_call ?cs" "in_order (stream_of (newPlayer False)) ?cs"
    by (simp_all add: stream_of_new MAX_WIRE_ROUND_def MAX_ROUNDS_def)
  from playback_run [OF good_new sync_new faithful_new this]
  obtain p s where "playback ?cs (newPlayer False, initialState) = Some (p, s)" by blast
  with pace_changes_nothing_else [OF cs this, of "JNum 2"] show ?thesis by blast
qed

text \<open>C5. One speaker at a time. The backend streams all panelists at once, yet at no moment, not
  even between two inputs of one batch, does the debate state list two active speakers.\<close>

theorem one_speaker_at_a_time:
  assumes "list_all session_call cs" "playback cs (newPlayer m, initialState) = Some (p, s)"
    and "session_call c" "player_does c p = Some (q, out)"
  shows "length (activeSpeakers (foldl debateReducer s (take n out))) \<le> 1"
proof -
  from session_playback [OF assms(1,2)] assms(3) have "good_player p" "ok_call c" "c \<noteq> ResetCall" "sync p s"
    by (simp_all add: session_call_def)
  from player_does_sync [OF this assms(4)] have "solo s out" by simp
  then have "length (activeSpeakers (reduced s (take (min n (length out)) out))) \<le> 1" unfolding solo_def by simp
  moreover have "take (min n (length out)) out = take n out" by (simp add: min_def)
  ultimately show ?thesis by (simp add: reduced_def)
qed

theorem one_speaker_at_a_time_witness:
  "length (activeSpeakers (foldl debateReducer initialState
     (take 1 (snd (feed (TokenEvent Expert 1 (js ''hi'')) (newPlayer False)))))) \<le> 1"
  using one_speaker_at_a_time [of "[]" False "newPlayer False" initialState "Feed (TokenEvent Expert 1 (js ''hi''))"
      "fst (feed (TokenEvent Expert 1 (js ''hi'')) (newPlayer False))"
      "snd (feed (TokenEvent Expert 1 (js ''hi'')) (newPlayer False))" 1]
  by (simp add: session_call_def MAX_WIRE_ROUND_def MAX_ROUNDS_def)

text \<open>C11. Nothing is shown that was not received: every cell of the transcript is an initial part
  of the deltas received for its persona and round, whatever else arrived in between.\<close>

theorem nothing_shown_but_received:
  assumes "list_all ok_call cs" "ResetCall \<notin> set cs" "FeedStatus WsConnecting \<notin> set cs"
    and "playback cs (newPlayer m, initialState) = Some (p, s)"
  shows "prefix (cell (transcript s) q r) (concat (fed q r cs))"
proof -
  from assms(1,2) have "list_all session_call cs" by (auto simp: list_all_iff session_call_def)
  from session_playback [OF this assms(4)] have "prefix (cell (transcript s) q r) (getText (rec_text p) q r)"
    by (simp add: shown_prefix)
  moreover have "getText (rec_text p) q r = take MAX_TURN_CHARS (concat (fed q r cs))"
    using playback_text [OF good_new assms(1-4), of q r] by (simp add: newPlayer_def getText_def)
  ultimately show ?thesis by (metis prefix_order.trans take_is_prefix)
qed

theorem nothing_shown_but_received_witness:
  "\<exists>p s. playback [Feed (TokenEvent Expert 1 (js ''hi''))] (newPlayer False, initialState) = Some (p, s)
    \<and> prefix (cell (transcript s) Expert 1) (js ''hi'')"
proof -
  obtain p s where ps: "playback [Feed (TokenEvent Expert 1 (js ''hi''))] (newPlayer False, initialState) = Some (p, s)"
    by (cases "feed (TokenEvent Expert 1 (js ''hi'')) (newPlayer False)") simp
  with nothing_shown_but_received [OF _ _ _ ps, of Expert 1] show ?thesis
    by (auto simp: MAX_WIRE_ROUND_def MAX_ROUNDS_def)
qed

text \<open>C12. No early end. The socket closes right after the verdict, long before the replay is over;
  while there is something left to play the phase is not terminal and no verdict is shown,
  and the phase is the moderator's exactly while a moderator turn is being revealed.\<close>

theorem no_end_before_the_last_turn:
  assumes "list_all session_call cs" "playback cs (newPlayer m, initialState) = Some (p, s)" "\<not> isAtLive p"
  shows "phase s \<notin> {PhDone, PhStopped, PhError} \<and> verdict s = []
    \<and> (phase s = PhModerating \<longleftrightarrow> (\<exists>a. active p = Some a \<and> isModerator a \<and> 0 < at_pos a))"
proof -
  from session_playback [OF assms(1,2)] have inv: "player_inv p" and ph: "phase_ok p s"
    by (simp_all add: good_player_def sync_def)
  from assms(3) have "hasReadyWork p" by (simp add: isAtLive_def)
  with inv have "cursor p \<noteq> CurDone" by (auto simp: ready_iff player_inv_def cursor_ok_def)
  with ph show ?thesis by (auto simp: phase_ok_def)
qed

theorem no_end_before_the_last_turn_witness:
  "phase (reduced initialState (snd (feed (RoundCompleteEvent 1) (newPlayer False)))) \<noteq> PhDone"
proof -
  let ?f = "feed (RoundCompleteEvent 1) (newPlayer False)"
  have "\<not> isAtLive (fst ?f)" by code_simp
  with no_end_before_the_last_turn [of "[Feed (RoundCompleteEvent 1)]" False "fst ?f" "reduced initialState (snd ?f)"]
  show ?thesis by (simp add: session_call_def MAX_WIRE_ROUND_def MAX_ROUNDS_def split_beta)
qed

text \<open>C2. The replay is complete. After any stream in the backend's order, however its events,
  the timers, changes of speed and skips interleave, once playback has come to rest: the
  debate is done with that verdict, nobody speaks, every panelist's cell of a completed round
  is the concatenation of its deltas (up to the cap), and so is the moderator's.\<close>

theorem replay_is_complete:
  assumes "list_all ok_call cs" "in_order ({}, False, False) cs"
    and "Feed (VerdictEvent v) \<in> set cs"
    and "\<And>r. 1 \<le> r \<Longrightarrow> r \<le> n \<Longrightarrow> Feed (RoundCompleteEvent r) \<in> set cs"
  shows "\<exists>p s q out s'. playback cs (newPlayer m, initialState) = Some (p, s)
    \<and> run_timers p [] = Some (q, out) \<and> s' = foldl debateReducer s out
    \<and> phase s' = PhDone \<and> verdict s' = v \<and> activeSpeakers s' = []
    \<and> (\<forall>x r. x \<noteq> Moderator \<and> 1 \<le> r \<and> r \<le> n \<longrightarrow> cell (transcript s') x r = take 200000 (concat (fed x r cs)))
    \<and> (\<forall>r. (\<forall>k. fed Moderator k cs \<noteq> [] \<longrightarrow> k = r) \<longrightarrow>
         cell (transcript s') Moderator r = take 200000 (concat (fed Moderator r cs)))"
  using assms by (rule replay_from [OF good_new fresh_new sync_new])

theorem replay_is_complete_witness:
  "\<exists>p s q out s'. playback
       [Feed (TokenEvent Optimist 1 (js ''no'')), TimerFires, Feed (TokenEvent Skeptic 1 (js ''hm'')),
        Feed (RoundCompleteEvent 1), SetRate (JNum 2), Feed (TokenEvent Moderator 2 (js ''so'')),
        Feed (VerdictEvent (js ''yes'')), FeedStatus WsClosed, SkipToLive] (newPlayer False, initialState) = Some (p, s)
    \<and> run_timers p [] = Some (q, out) \<and> s' = foldl debateReducer s out
    \<and> phase s' = PhDone \<and> verdict s' = js ''yes'' \<and> cell (transcript s') Skeptic 1 = js ''hm''"
  using replay_is_complete [of "[Feed (TokenEvent Optimist 1 (js ''no'')), TimerFires, Feed (TokenEvent Skeptic 1 (js ''hm'')),
        Feed (RoundCompleteEvent 1), SetRate (JNum 2), Feed (TokenEvent Moderator 2 (js ''so'')),
        Feed (VerdictEvent (js ''yes'')), FeedStatus WsClosed, SkipToLive]" "js ''yes''" 1 False]
  by (fastforce simp: MAX_WIRE_ROUND_def MAX_ROUNDS_def js_def le_Suc_eq)

text \<open>C40. A second failure of a panelist erases the first. While the player is busy, feeding two
  errors of one panelist, of whatever rounds, is feeding the second alone: the map of deferred
  errors is keyed by the persona only.\<close>

theorem second_error_erases_the_first:
  assumes "ee_persona e1 = Some q" "ee_persona e2 = Some q" "q \<noteq> Moderator" "timer p \<noteq> None"
  shows "playback [Feed (ErrorEvent e1), Feed (ErrorEvent e2)] (p, s) = playback [Feed (ErrorEvent e2)] (p, s)"
proof -
  from assms have "timer (record_event (ErrorEvent e) p) \<noteq> None" for e by (simp add: record_keeps(6) del: record_event.simps)
  with assms show ?thesis by (simp add: feed_def pump_def)
qed

theorem second_error_erases_the_first_witness:
  "playback [Feed (ErrorEvent \<lparr>ee_persona = Some Expert, ee_error = js ''round 1''\<rparr>),
      Feed (ErrorEvent \<lparr>ee_persona = Some Expert, ee_error = js ''round 2''\<rparr>)] ((newPlayer False)\<lparr>timer := Some TICK_MS\<rparr>, initialState)
   = playback [Feed (ErrorEvent \<lparr>ee_persona = Some Expert, ee_error = js ''round 2''\<rparr>)] ((newPlayer False)\<lparr>timer := Some TICK_MS\<rparr>, initialState)"
  by (rule second_error_erases_the_first [where q = Expert]) simp_all

end
