(* ===== verification/Session.thy ===== *)
theory Session
  imports Playback
begin

text \<open>
  \<open>state/useDebate.ts\<close>: the hook that owns one reducer, one player for its lifetime, and the
  current client. Its state is the record \<open>session\<close>; the callbacks it returns are functions on
  the record, the timer and the browser's socket events the other ways it can change. The
  world of sockets is \<open>Ws_Client\<close>'s store, so that sockets of superseded sessions stay around
  and may fire late.
\<close>

section \<open>State and callbacks\<close>

record session =
  se_state :: debate_state
  se_player :: player
  se_client :: "nat option"
  se_rate :: jsnum
  se_world :: ws_world

definition useDebate :: "bool \<Rightarrow> session" where
  "useDebate reduced_motion = \<lparr>se_state = initialState, se_player = newPlayer reduced_motion,
     se_client = None, se_rate = JNum 1, se_world = ws_init\<rparr>"

text \<open>A method of the player runs and its dispatches reach the reducer.\<close>

definition commit :: "player \<times> debate_input list \<Rightarrow> session \<Rightarrow> session" where
  "commit r s = s\<lparr>se_player := fst r, se_state := reduced (se_state s) (snd r)\<rparr>"

text \<open>The three callbacks given to \<open>createWsClient\<close>.\<close>

fun on_client_call :: "session \<Rightarrow> client_call \<Rightarrow> session" where
  "on_client_call s (OnEvent e) = commit (feed e (se_player s)) s"
| "on_client_call s (OnStatus st) = commit (feedStatus st (se_player s)) s"
| "on_client_call s (OnError m) = commit (feedTransport m (se_player s)) s"

definition dispose_current :: "session \<Rightarrow> session" where
  "dispose_current s = (case se_client s of None \<Rightarrow> s | Some c \<Rightarrow> s\<lparr>se_world := ws_dispose c (se_world s)\<rparr>)"

definition ask :: "jstr \<Rightarrow> jsnum option \<Rightarrow> session \<Rightarrow> session" where
  "ask question rounds s =
    (let s = dispose_current s;
         s = s\<lparr>se_player := reset (se_player s)\<rparr>;
         (c, w) = createWsClient (se_world s);
         s = s\<lparr>se_client := Some c\<rparr>;
         (w, calls) = ws_ask c question rounds w
     in foldl on_client_call (s\<lparr>se_world := w\<rparr>) calls)"

definition stop :: "session \<Rightarrow> session" where
  "stop s =
    (let s = s\<lparr>se_player := reset (se_player s)\<rparr>;
         s = s\<lparr>se_state := debateReducer (se_state s) CancelInput\<rparr>
     in (dispose_current s)\<lparr>se_client := None\<rparr>)"

definition setRate_callback :: "jsnum \<Rightarrow> session \<Rightarrow> session" where
  "setRate_callback multiplier s =
    (let p = setRate multiplier (se_player s) in s\<lparr>se_player := p, se_rate := rate p\<rparr>)"

definition goToLive :: "session \<Rightarrow> session option" where
  "goToLive s = map_option (\<lambda>r. commit r s) (skipToLive (se_player s))"

definition unmount :: "session \<Rightarrow> session" where
  "unmount s = dispose_current (s\<lparr>se_player := reset (se_player s)\<rparr>)"

text \<open>What the hook reads of the player when its component renders; what is on the page is the value of the
  last render, which \<open>App_Shell\<close> keeps.\<close>

definition session_isAtLive :: "session \<Rightarrow> bool" where
  "session_isAtLive s = isAtLive (se_player s)"

section \<open>Everything that can happen\<close>

datatype session_event =
    Ask jstr "jsnum option"
  | Stop
  | ChooseRate jsnum
  | GoToLive
  | Unmount
  | Timer
  | Socket nat socket_event

definition on_socket_event ::
    "(jstr \<Rightarrow> json option) \<Rightarrow> safe_parser \<Rightarrow> nat \<Rightarrow> socket_event \<Rightarrow> session \<Rightarrow> session" where
  "on_socket_event json_parse safe_parse n e s =
    (let (w, calls) = on_socket json_parse safe_parse n e (se_world s)
     in foldl on_client_call (s\<lparr>se_world := w\<rparr>) calls)"

inductive session_step ::
    "(jstr \<Rightarrow> json option) \<Rightarrow> safe_parser \<Rightarrow> session \<Rightarrow> session_event \<Rightarrow> session \<Rightarrow> bool"
  for jp :: "jstr \<Rightarrow> json option" and sp :: safe_parser where
  asks: "session_step jp sp s (Ask q r) (ask q r s)"
| stops: "session_step jp sp s Stop (stop s)"
| rates: "session_step jp sp s (ChooseRate x) (setRate_callback x s)"
| skips: "goToLive s = Some s' \<Longrightarrow> session_step jp sp s GoToLive s'"
| unmounts: "session_step jp sp s Unmount (unmount s)"
| ticks: "session_step jp sp s Timer (commit (timer_fires (se_player s)) s)"
| socket: "session_step jp sp s (Socket n e) (on_socket_event jp sp n e s)"

inductive session_run ::
    "(jstr \<Rightarrow> json option) \<Rightarrow> safe_parser \<Rightarrow> session \<Rightarrow> session_event list \<Rightarrow> session \<Rightarrow> bool"
  for jp :: "jstr \<Rightarrow> json option" and sp :: safe_parser where
  stays: "session_run jp sp s [] s"
| goes: "session_step jp sp s e s1 \<Longrightarrow> session_run jp sp s1 es s2 \<Longrightarrow> session_run jp sp s (e # es) s2"

inductive_simps session_step_simps [simp]:
  "session_step jp sp s (Ask q r) s'"
  "session_step jp sp s Stop s'"
  "session_step jp sp s (ChooseRate x) s'"
  "session_step jp sp s GoToLive s'"
  "session_step jp sp s Unmount s'"
  "session_step jp sp s Timer s'"
  "session_step jp sp s (Socket n e) s'"

inductive_simps session_run_Nil [simp]: "session_run jp sp s [] s'"
inductive_simps session_run_Cons [simp]: "session_run jp sp s (e # es) s'"

section \<open>The invariant\<close>

definition silent :: "ws_world \<Rightarrow> bool" where
  "silent w \<longleftrightarrow> (\<forall>n. handlers_of n w = None)"

text \<open>Only the current client's socket has handlers; the player and the debate state are in
  step, or nothing at all is going on.\<close>

definition current_only :: "ws_world \<Rightarrow> nat option \<Rightarrow> bool" where
  "current_only w client \<longleftrightarrow> (\<forall>c. client = Some c \<longrightarrow> c < next_client w)
     \<and> (\<forall>n c m. handlers_of n w = Some (c, m) \<longrightarrow> client = Some c)"

definition session_inv :: "session \<Rightarrow> bool" where
  "session_inv s \<longleftrightarrow>
     good_player (se_player s) \<and> ws_inv (se_world s) \<and> reducer_inv (se_state s)
   \<and> current_only (se_world s) (se_client s)
   \<and> se_rate s = rate (se_player s)
   \<and> length (activeSpeakers (se_state s)) \<le> 1
   \<and> (sync (se_player s) (se_state s) \<or> (fresh (se_player s) \<and> silent (se_world s)))"

lemma rate_reset [simp]: "rate (reset p) = rate p"
  by (simp add: reset_def)

lemma dispose_current_fields [simp]:
  "se_state (dispose_current s) = se_state s" "se_player (dispose_current s) = se_player s"
  "se_client (dispose_current s) = se_client s" "se_rate (dispose_current s) = se_rate s"
  by (simp_all add: dispose_current_def split: option.split)

lemma next_client_dispose [simp]: "next_client (ws_dispose c w) = next_client w"
  by (simp add: ws_dispose_def split: option.split)

lemma dispose_silent:
  assumes "ws_inv w" "\<And>n c' m. handlers_of n w = Some (c', m) \<Longrightarrow> c' = c"
  shows "silent (ws_dispose c w)"
proof -
  have "handlers_of n (ws_dispose c w) = None" for n
  proof (cases "handlers_of n w")
    case None
    then show ?thesis by (auto simp: ws_dispose_def handlers_of_keep handlers_of_detach split: option.split)
  next
    case (Some h)
    then obtain m where "handlers_of n w = Some (c, m)" using assms(2) by (cases h) blast
    with assms(1) have "clients w c = Some n" by (simp add: ws_inv_def)
    then show ?thesis by (rule dispose_handlers)
  qed
  then show ?thesis by (simp add: silent_def)
qed

lemma dispose_current_world:
  assumes "session_inv s"
  shows "ws_inv (se_world (dispose_current s))" "silent (se_world (dispose_current s))"
    "next_client (se_world (dispose_current s)) = next_client (se_world s)"
proof -
  from assms have w: "ws_inv (se_world s)"
    and cur: "\<And>n c m. handlers_of n (se_world s) = Some (c, m) \<Longrightarrow> se_client s = Some c"
    by (simp_all add: session_inv_def current_only_def, blast)
  show "ws_inv (se_world (dispose_current s))"
    using w by (simp add: dispose_current_def ws_inv_dispose split: option.split)
  show "next_client (se_world (dispose_current s)) = next_client (se_world s)"
    by (simp add: dispose_current_def split: option.split)
  show "silent (se_world (dispose_current s))"
  proof (cases "se_client s")
    case None
    have "handlers_of n (se_world s) = None" for n
      using cur [of n] None by (cases "handlers_of n (se_world s)") auto
    with None show ?thesis by (simp add: dispose_current_def silent_def)
  next
    case (Some c)
    with dispose_silent [OF w] cur show ?thesis by (simp add: dispose_current_def)
  qed
qed

lemma pump_rate: "player_inv p \<Longrightarrow> rate (fst (pump p)) = rate p"
  using step_keeps_pace(2) [of p] by (auto simp: pump_def split: prod.split)

lemma player_does_rate:
  assumes good: "good_player p" and ok: "ok_call c" and c: "\<And>x. c \<noteq> SetRate x"
    and does: "player_does c p = Some (q, out)"
  shows "rate q = rate p"
proof -
  from good have inv: "player_inv p" by (simp add: good_player_def)
  show ?thesis
  proof (cases c)
    case (Feed e)
    with ok have "wf_event e" by simp
    from pump_rate [OF record_inv [OF inv this]] Feed does show ?thesis by (simp add: feed_def record_keeps)
  next
    case (FeedStatus st)
    with pump_rate [OF closed_inv [OF inv]] does show ?thesis by (cases st) auto
  next
    case TimerFires
    with pump_rate [of "p\<lparr>timer := None\<rparr>"] inv does show ?thesis
      by (auto simp: timer_fires_def frame_simps split: if_splits)
  next
    case SkipToLive
    obtain o' q' where s: "settles (p\<lparr>timer := None, draining := True\<rparr>) o' q'"
      "skipToLive p = Some (q'\<lparr>draining := False\<rparr>, o')" using skip_settles [OF inv] by blast
    from settles_keeps_pace [OF s(1)] inv SkipToLive s(2) does show ?thesis by (auto simp: frame_simps)
  qed (use c does in \<open>auto simp: feedTransport_def\<close>)
qed

definition live_inv :: "session \<Rightarrow> bool" where
  "live_inv s \<longleftrightarrow> good_player (se_player s) \<and> reducer_inv (se_state s)
     \<and> se_rate s = rate (se_player s) \<and> sync (se_player s) (se_state s)"

lemma commit_live:
  assumes "live_inv s" "session_call c" "\<And>x. c \<noteq> SetRate x" "player_does c (se_player s) = Some r"
  shows "live_inv (commit r s)"
proof -
  obtain q out where r: "r = (q, out)" by (cases r)
  from assms(1) have s: "good_player (se_player s)" "reducer_inv (se_state s)"
    "se_rate s = rate (se_player s)" "sync (se_player s) (se_state s)" by (simp_all add: live_inv_def)
  from assms(2) have c: "ok_call c" "c \<noteq> ResetCall" by (simp_all add: session_call_def)
  have does: "player_does c (se_player s) = Some (q, out)" using assms(4) r by simp
  from player_does_good [OF s(1) c(1)] does have good: "good_player q" "list_all ok_input out" by auto
  from player_does_sync [OF s(1) c s(4) does] have "sync q (reduced (se_state s) out)" by simp
  moreover have "reducer_inv (reduced (se_state s) out)"
    unfolding reduced_def by (rule reducer.inv_run [OF s(2) good(2)])
  moreover have "rate q = rate (se_player s)" using player_does_rate [OF s(1) c(1) assms(3) does] .
  ultimately show ?thesis using good s(3) r by (simp add: live_inv_def commit_def)
qed

text \<open>Which player call each callback makes.\<close>

fun routed :: "client_call \<Rightarrow> player_call" where
  "routed (OnEvent e) = Feed e"
| "routed (OnStatus st) = FeedStatus st"
| "routed (OnError m) = FeedTransport m"

fun wf_call :: "client_call \<Rightarrow> bool" where
  "wf_call (OnEvent e) = wf_event e"
| "wf_call _ = True"

lemma on_client_call_routed:
  "\<exists>r. player_does (routed k) (se_player s) = Some r \<and> on_client_call s k = commit r s"
  by (cases k) simp_all

lemma routed_ok: "wf_call k \<Longrightarrow> session_call (routed k) \<and> (\<forall>x. routed k \<noteq> SetRate x)"
  by (cases k) (simp_all add: session_call_def)

lemma on_client_call_live: "live_inv s \<Longrightarrow> wf_call k \<Longrightarrow> live_inv (on_client_call s k)"
  using on_client_call_routed [of k s] routed_ok [of k] commit_live [of s "routed k"] by auto

lemma on_client_calls_live: "live_inv s \<Longrightarrow> list_all wf_call ks \<Longrightarrow> live_inv (foldl on_client_call s ks)"
  by (induction ks arbitrary: s) (auto intro: on_client_call_live)

lemma commit_frame [simp]:
  "se_world (commit r s) = se_world s" "se_client (commit r s) = se_client s" "se_rate (commit r s) = se_rate s"
  by (simp_all add: commit_def)

lemma on_client_call_frame [simp]:
  "se_world (on_client_call s k) = se_world s" "se_client (on_client_call s k) = se_client s"
  "se_rate (on_client_call s k) = se_rate s"
  by (cases k; simp)+

lemma on_client_calls_frame [simp]:
  "se_world (foldl on_client_call s ks) = se_world s" "se_client (foldl on_client_call s ks) = se_client s"
  "se_rate (foldl on_client_call s ks) = se_rate s"
  by (induction ks arbitrary: s) simp_all

lemma live_world [simp]: "live_inv (s\<lparr>se_world := w\<rparr>) = live_inv s" "live_inv (s\<lparr>se_client := c\<rparr>) = live_inv s"
  by (simp_all add: live_inv_def)

lemma socket_calls_wf:
  assumes "zod_documented sp"
  shows "list_all wf_call (snd (on_socket jp sp n e w))"
proof (cases e)
  case (SockMessage f)
  have "wf_event x" if "parseEvent jp sp data = ParseOk x" for x data
    using parseEvent_Ok_wf [OF assms that] .
  then have "wf_call (receive_frame jp sp f)"
    by (auto simp: receive_frame_def split: frame.splits parse_result.splits)
  with SockMessage show ?thesis by (simp add: on_message_def split: option.split)
qed (auto simp: on_open_def on_error_def on_close_def split: option.split)

lemma on_socket_frame:
  "next_client (fst (on_socket jp sp n e w)) = next_client w"
  "handlers_of k (fst (on_socket jp sp n e w)) = Some h \<Longrightarrow> handlers_of k w = Some h"
  by (cases e; auto simp: on_open_def on_message_def on_error_def on_close_def socket_send_def
      handlers_of_keep handlers_of_detach split: option.splits if_splits)+

lemma reset_reset [simp]: "reset (reset p) = reset p"
  by (simp add: reset_def newPlayer_def)

text \<open>\<open>ask\<close>, by the verdict of \<open>buildAsk\<close>.\<close>

lemma ask_rejected:
  assumes "buildAsk q r = AskErr e"
  shows "ask q r s = s\<lparr>se_state := debateReducer (se_state s) (TransportInput e), se_player := reset (se_player s),
      se_client := Some (next_client (se_world (dispose_current s))),
      se_world := snd (createWsClient (se_world (dispose_current s)))\<rparr>"
  using assms
  by (cases s) (simp add: ask_def Let_def createWsClient_def ws_ask_def commit_def feedTransport_def
      dispose_current_def split: option.split)

lemma ask_accepted:
  assumes "buildAsk q r = AskOk m"
  shows "ask q r s = s\<lparr>se_state := initialState\<lparr>phase := PhConnecting\<rparr>, se_player := reset (se_player s),
      se_client := Some (next_client (se_world (dispose_current s))),
      se_world := fst (ws_ask (next_client (se_world (dispose_current s))) q r
        (snd (createWsClient (se_world (dispose_current s)))))\<rparr>"
  using assms
  by (cases s) (simp add: ask_def Let_def createWsClient_def ws_ask_def commit_def
      dispose_current_def split: option.split)

lemma handlers_of_create [simp]: "handlers_of n (snd (createWsClient w)) = handlers_of n w"
  by (simp add: createWsClient_def handlers_of_def)

lemma handlers_of_ask:
  "handlers_of n (fst (ws_ask c q r w)) = Some (c', m) \<Longrightarrow> handlers_of n w = Some (c', m) \<or> c' = c"
  by (auto simp: ws_ask_def Let_def handlers_of_new split: build_ask_result.splits option.splits if_splits)

lemma next_client_ask [simp]: "next_client (fst (ws_ask c q r w)) = next_client w"
  by (auto simp: ws_ask_def Let_def split: build_ask_result.split option.split)

lemma sync_reset_connecting: "sync (reset p) (initialState\<lparr>phase := PhConnecting\<rparr>)"
  using sync_fresh [of "initialState\<lparr>phase := PhConnecting\<rparr>"] by (simp add: initialState_def)

lemma ask_inv:
  assumes inv: "session_inv s"
  shows "session_inv (ask q r s)"
proof -
  let ?w = "se_world (dispose_current s)" let ?c = "next_client ?w"
  note w = dispose_current_world [OF inv]
  from inv have good: "good_player (reset (se_player s))"
    by (simp add: session_inv_def good_player_def good_reset [unfolded good_player_def])
  from inv have st: "reducer_inv (se_state s)" "se_rate s = rate (se_player s)"
    "length (activeSpeakers (se_state s)) \<le> 1" by (simp_all add: session_inv_def)
  have w1: "ws_inv (snd (createWsClient ?w))" "silent (snd (createWsClient ?w))"
    "next_client (snd (createWsClient ?w)) = Suc ?c"
    using w by (simp_all add: ws_inv_create silent_def) (simp add: createWsClient_def)
  show ?thesis
  proof (cases "buildAsk q r")
    case (AskErr e)
    have "reducer_inv (debateReducer (se_state s) (TransportInput e))"
      using reducer_inv_step [OF st(1), of "TransportInput e"] by simp
    with AskErr good st w1 show ?thesis by (simp add: ask_rejected session_inv_def silent_def current_only_def)
  next
    case (AskOk m)
    have "reducer_inv (initialState\<lparr>phase := PhConnecting\<rparr>)"
      using reducer_inv_step [OF st(1), of "StatusInput WsConnecting"] by simp
    moreover have "ws_inv (fst (ws_ask ?c q r (snd (createWsClient ?w))))"
      using ws_inv_ask [OF w1(1), of ?c] w1(3) by simp
    moreover
    have "c' = ?c" if "handlers_of n (fst (ws_ask ?c q r (snd (createWsClient ?w)))) = Some (c', m')" for n c' m'
      using handlers_of_ask [OF that] w1(2) by (simp add: silent_def)
    then have "current_only (fst (ws_ask ?c q r (snd (createWsClient ?w)))) (Some ?c)"
      using w1(3) by (auto simp: current_only_def)
    ultimately show ?thesis using AskOk good st(2) w1 sync_reset_connecting
      by (simp add: ask_accepted session_inv_def) (simp add: initialState_def)
  qed
qed

lemma stop_eq:
  "stop s = (dispose_current s)\<lparr>se_state := debateReducer (se_state s) CancelInput, se_player := reset (se_player s),
     se_client := None\<rparr>"
  by (simp add: stop_def Let_def dispose_current_def split: option.split)

lemma unmount_eq: "unmount s = (dispose_current s)\<lparr>se_player := reset (se_player s)\<rparr>"
  by (simp add: unmount_def dispose_current_def split: option.split)

lemma stop_inv:
  assumes inv: "session_inv s"
  shows "session_inv (stop s)"
proof -
  note w = dispose_current_world [OF inv]
  from inv have "good_player (reset (se_player s))"
    by (simp add: session_inv_def good_player_def good_reset [unfolded good_player_def])
  moreover from inv have "reducer_inv (debateReducer (se_state s) CancelInput)"
    using reducer_inv_step [of "se_state s" CancelInput] by (simp add: session_inv_def)
  moreover from inv have "length (activeSpeakers (debateReducer (se_state s) CancelInput)) \<le> 1"
    by (simp add: session_inv_def)
  ultimately show ?thesis using inv w
    by (simp add: stop_eq session_inv_def silent_def current_only_def del: debateReducer.simps)
qed

lemma unmount_inv:
  assumes inv: "session_inv s"
  shows "session_inv (unmount s)"
proof -
  note w = dispose_current_world [OF inv]
  from inv have "good_player (reset (se_player s))"
    by (simp add: session_inv_def good_player_def good_reset [unfolded good_player_def])
  with inv w show ?thesis
    by (auto simp: unmount_eq session_inv_def silent_def current_only_def)
qed

text \<open>With nothing recorded and no socket attached, only \<open>ask\<close>, \<open>stop\<close> and the speed do anything.\<close>

lemma silent_event: "silent (se_world s) \<Longrightarrow> on_socket_event jp sp n e s = s"
  by (simp add: on_socket_event_def silent_def silent_socket)

lemma live_step:
  assumes inv: "session_inv s" and sync: "sync (se_player s) (se_state s)" and zod: "zod_documented sp"
    and step: "session_step jp sp s e s'" and e: "e \<in> {GoToLive, Timer} \<or> (\<exists>n x. e = Socket n x)"
  shows "live_inv s'"
proof -
  from inv sync have live: "live_inv s" by (simp add: session_inv_def live_inv_def)
  have one: "live_inv (commit r s)" if "player_does c (se_player s) = Some r" "session_call c" "\<And>x. c \<noteq> SetRate x" for c r
    using commit_live [OF live that(2,3,1)] .
  show ?thesis
    using e
  proof (elim disjE exE)
    fix n x assume "e = Socket n x"
    with step on_client_calls_live [of "s\<lparr>se_world := fst (on_socket jp sp n x (se_world s))\<rparr>"] live
      socket_calls_wf [OF zod]
    show ?thesis by (auto simp: on_socket_event_def split_beta)
  qed (use step one [of TimerFires] one [of SkipToLive] in
      \<open>auto simp: goToLive_def session_call_def\<close>)
qed

lemma live_session_inv:
  "live_inv s \<Longrightarrow> ws_inv (se_world s) \<Longrightarrow> current_only (se_world s) (se_client s) \<Longrightarrow> session_inv s"
  using sync_solo [of "se_player s" "se_state s"] by (simp add: session_inv_def live_inv_def)

lemma current_only_socket:
  "current_only w c \<Longrightarrow> current_only (fst (on_socket jp sp n e w)) c"
  unfolding current_only_def on_socket_frame(1) using on_socket_frame(2) by blast

lemma session_inv_step:
  assumes inv: "session_inv s" and zod: "zod_documented sp" and step: "session_step jp sp s e s'"
  shows "session_inv s'"
proof (cases e)
  case (Ask q r)
  with step ask_inv [OF inv] show ?thesis by simp
next
  case Stop
  with step stop_inv [OF inv] show ?thesis by simp
next
  case Unmount
  with step unmount_inv [OF inv] show ?thesis by simp
next
  case (ChooseRate x)
  with step inv setRate_good [of "se_player s" x] show ?thesis
    by (auto simp: setRate_callback_def Let_def session_inv_def frame_simps fresh_setRate)
next
  case GoToLive
  show ?thesis
  proof (cases "sync (se_player s) (se_state s)")
    case True
    with live_step [OF inv True zod step] GoToLive have "live_inv s'" by simp
    moreover from step GoToLive have "se_world s' = se_world s" "se_client s' = se_client s"
      by (auto simp: goToLive_def)
    ultimately show ?thesis using inv by (intro live_session_inv) (simp_all add: session_inv_def)
  next
    case False
    with inv have "fresh (se_player s)" by (simp add: session_inv_def)
    with step GoToLive fresh_idle(5) have "s' = s" by (auto simp: goToLive_def commit_def)
    with inv show ?thesis by simp
  qed
next
  case Timer
  show ?thesis
  proof (cases "sync (se_player s) (se_state s)")
    case True
    with live_step [OF inv True zod step] Timer have "live_inv s'" by simp
    with step Timer inv show ?thesis by (intro live_session_inv) (simp_all add: session_inv_def)
  next
    case False
    with inv have "fresh (se_player s)" by (simp add: session_inv_def)
    with step Timer fresh_idle(4) have "s' = s" by (auto simp: commit_def)
    with inv show ?thesis by simp
  qed
next
  case (Socket n x)
  show ?thesis
  proof (cases "sync (se_player s) (se_state s)")
    case True
    with live_step [OF inv True zod step] Socket have live: "live_inv s'" by simp
    from step Socket have "se_world s' = fst (on_socket jp sp n x (se_world s))" "se_client s' = se_client s"
      by (simp_all add: on_socket_event_def split_beta)
    with live inv show ?thesis
      by (intro live_session_inv) (simp_all add: session_inv_def ws_inv_socket current_only_socket)
  next
    case False
    with inv have "silent (se_world s)" by (simp add: session_inv_def)
    with step Socket silent_event have "s' = s" by simp
    with inv show ?thesis by simp
  qed
qed

lemma session_inv_init: "session_inv (useDebate m)"
  by (simp add: session_inv_def useDebate_def good_new ws_inv_init reducer_inv_initial sync_new)
    (simp add: current_only_def ws_init_def handlers_of_def newPlayer_def initialState_def)

lemma session_run_inv: "session_run jp sp s es s' \<Longrightarrow> session_inv s \<Longrightarrow> zod_documented sp \<Longrightarrow> session_inv s'"
  by (induction rule: session_run.induct) (auto intro: session_inv_step)

text \<open>Every event has an outcome: \<open>goToLive\<close> returns.\<close>

lemma session_step_exists:
  assumes "session_inv s"
  shows "\<exists>s'. session_step jp sp s e s'"
proof (cases e)
  case GoToLive
  from assms have "player_inv (se_player s)" by (simp add: session_inv_def good_player_def)
  with skip_good [of "se_player s"] GoToLive show ?thesis by (auto simp: goToLive_def)
qed auto

lemma session_run_exists:
  "session_inv s \<Longrightarrow> zod_documented sp \<Longrightarrow> \<exists>s'. session_run jp sp s es s'"
proof (induction es arbitrary: s)
  case (Cons e es)
  obtain s1 where "session_step jp sp s e s1" using session_step_exists [OF Cons.prems(1)] by blast
  with Cons.IH [OF session_inv_step [OF Cons.prems this] Cons.prems(2)] show ?case by auto
qed (auto intro: session_run.stays)

section \<open>An idle session\<close>

definition idle :: "session \<Rightarrow> bool" where
  "idle s \<longleftrightarrow> fresh (se_player s) \<and> silent (se_world s)"

lemma idle_step:
  assumes "session_inv s" "idle s" "session_step jp sp s e s'" "\<And>q r. e \<noteq> Ask q r"
  shows "idle s' \<and> se_state s' = (if e = Stop then debateReducer (se_state s) CancelInput else se_state s)"
proof -
  from assms(2) have f: "fresh (se_player s)" and w: "silent (se_world s)" by (simp_all add: idle_def)
  note i = fresh_idle [OF f] and d = dispose_current_world [OF assms(1)]
  show ?thesis
    using assms(3,4) i f w d(2) silent_event [OF w]
    by (cases e) (auto simp: idle_def stop_eq unmount_eq commit_def goToLive_def setRate_callback_def Let_def
        fresh_setRate)
qed

lemma stop_idle: "session_inv s \<Longrightarrow> idle (stop s)"
  using dispose_current_world(2) [of s] by (simp add: idle_def stop_eq)

lemma cancelled_stays: "debateReducer (debateReducer s CancelInput) CancelInput = debateReducer s CancelInput"
  by (simp add: TERMINAL_def)

lemma idle_run:
  "session_run jp sp s es s' \<Longrightarrow> session_inv s \<Longrightarrow> zod_documented sp \<Longrightarrow> idle s \<Longrightarrow> \<forall>q r. Ask q r \<notin> set es \<Longrightarrow>
   idle s' \<and> (se_state s' = se_state s \<or> (Stop \<in> set es \<and> se_state s' = debateReducer (se_state s) CancelInput))"
proof (induction rule: session_run.induct)
  case (goes s e s1 es s2)
  from goes.prems(4) have e: "e \<noteq> Ask q r" for q r by auto
  from goes.prems(4) have es: "\<forall>q r. Ask q r \<notin> set es" by auto
  note 1 = idle_step [OF goes.prems(1,3) goes.hyps(1) e]
  note inv = session_inv_step [OF goes.prems(1,2) goes.hyps(1)]
  from 1 goes.IH [OF inv goes.prems(2) _ es]
  have "idle s2" "se_state s2 = se_state s1 \<or> (Stop \<in> set es \<and> se_state s2 = debateReducer (se_state s1) CancelInput)"
    by simp_all
  with 1 show ?case using cancelled_stays [of "se_state s"] by (auto split: if_splits simp del: debateReducer.simps)
qed simp

section \<open>Sockets of earlier sessions\<close>

definition dead :: "nat \<Rightarrow> ws_world \<Rightarrow> bool" where
  "dead n w \<longleftrightarrow> n < next_socket w \<and> handlers_of n w = None"

lemma dead_ws_step: "dead n w \<Longrightarrow> dead n (ws_step jp sp w i)"
  unfolding dead_def using handlers_of_step [of n w jp sp i] next_socket_step [of w jp sp i] by simp

lemma dead_create: "dead n w \<Longrightarrow> dead n (snd (createWsClient w))"
  using dead_ws_step [of n w "\<lambda>_. None" zod_reference CreateClient] by simp

lemma dead_dispose: "dead n w \<Longrightarrow> dead n (ws_dispose c w)"
  using dead_ws_step [of n w "\<lambda>_. None" zod_reference "DisposeInput c"] by simp

lemma dead_ask: "dead n w \<Longrightarrow> c < next_client w \<Longrightarrow> dead n (fst (ws_ask c q r w))"
  using dead_ws_step [of n w "\<lambda>_. None" zod_reference "AskInput c q r"] by simp

lemma dead_socket: "dead n w \<Longrightarrow> dead n (fst (on_socket jp sp k e w))"
  using dead_ws_step [of n w jp sp "SocketInput k e"] by simp

lemma dead_dispose_current: "dead n (se_world s) \<Longrightarrow> dead n (se_world (dispose_current s))"
  by (simp add: dispose_current_def dead_dispose split: option.split)

lemma dead_asked:
  assumes "dead n (se_world (dispose_current s))"
  shows "dead n (se_world (ask q r s))"
proof -
  have c: "next_client (se_world (dispose_current s)) < next_client (snd (createWsClient (se_world (dispose_current s))))"
    by (simp add: createWsClient_def)
  show ?thesis
    using dead_ask [OF dead_create [OF assms] c] dead_create [OF assms]
    by (cases "buildAsk q r") (simp_all add: ask_rejected ask_accepted)
qed

lemma dead_step:
  assumes "dead n (se_world s)" "session_step jp sp s e s'"
  shows "dead n (se_world s')"
  using assms dead_asked [OF dead_dispose_current [OF assms(1)]] dead_dispose_current [OF assms(1)]
  by (cases e) (auto simp: stop_eq unmount_eq goToLive_def setRate_callback_def Let_def on_socket_event_def
      split_beta dead_socket)

lemma dead_run: "session_run jp sp s es s' \<Longrightarrow> dead n (se_world s) \<Longrightarrow> dead n (se_world s')"
  by (induction rule: session_run.induct) (auto dest: dead_step)

lemma dead_event: "dead n (se_world s) \<Longrightarrow> on_socket_event jp sp n e s = s"
  by (simp add: dead_def on_socket_event_def silent_socket)

lemma old_sockets_die:
  assumes "session_inv s" "n < next_socket (se_world s)"
  shows "dead n (se_world (ask q r s))"
proof (rule dead_asked)
  have "next_socket (se_world (dispose_current s)) = next_socket (se_world s)"
    by (simp add: dispose_current_def split: option.split)
  with assms dispose_current_world(2) [OF assms(1)] show "dead n (se_world (dispose_current s))"
    by (simp add: dead_def silent_def)
qed

section \<open>After the verdict\<close>

lemma finished_pump:
  assumes "player_inv p" "cursor p = CurDone"
  shows "snd (pump p) = [] \<and> cursor (fst (pump p)) = CurDone"
proof -
  from assms have "\<not> hasReadyWork p" by (auto simp: ready_iff player_inv_def cursor_ok_def)
  with assms(2) show ?thesis by (simp add: pump_def step_parked)
qed

lemma finished_call:
  assumes "good_player (se_player s)" "wf_call k" "k \<noteq> OnStatus WsConnecting" "cursor (se_player s) = CurDone"
  shows "phase (se_state (on_client_call s k)) = phase (se_state s)
    \<and> verdict (se_state (on_client_call s k)) = verdict (se_state s)
    \<and> transcript (se_state (on_client_call s k)) = transcript (se_state s)
    \<and> cursor (se_player (on_client_call s k)) = CurDone"
proof -
  from assms(1) have inv: "player_inv (se_player s)" by (simp add: good_player_def)
  show ?thesis
  proof (cases k)
    case (OnEvent e)
    with assms finished_pump [OF record_inv [OF inv]] show ?thesis
      by (simp add: commit_def feed_def record_keeps)
  next
    case (OnStatus st)
    with assms finished_pump [OF closed_inv [OF inv]] show ?thesis by (cases st) (auto simp: commit_def)
  qed (use assms(4) in \<open>simp add: commit_def feedTransport_def\<close>)
qed

lemma socket_calls_one:
  "snd (on_socket jp sp n e w) = [] \<or> (\<exists>k. snd (on_socket jp sp n e w) = [k] \<and> k \<noteq> OnStatus WsConnecting)"
  by (cases e) (auto simp: on_open_def on_message_def on_error_def on_close_def receive_frame_def
      split: option.split frame.split parse_result.split)

lemma fresh_verdict:
  assumes "fresh p"
  shows "snd (feed (VerdictEvent v) p) = [Wire (VerdictEvent v)]"
proof -
  from assms have p: "p = reset p" by (simp add: fresh_def)
  show ?thesis
    by (subst p) (simp add: feed_def pump_def step_def prepareNextTurn.simps flushPending_def terminalKnown_def
        getText_def reset_def newPlayer_def Let_def)
qed

lemma settled_skip:
  assumes "player_inv p" "\<not> hasReadyWork p"
  shows "\<exists>q. skipToLive p = Some (q, []) \<and> cursor q = cursor p"
proof -
  obtain out q where s: "settles (p\<lparr>timer := None, draining := True\<rparr>) out q"
    "skipToLive p = Some (q\<lparr>draining := False\<rparr>, out)" using skip_settles [OF assms(1)] by blast
  from s(1) assms(2) have "out = []" "cursor q = cursor p" by (cases rule: settles.cases; auto simp: frame_simps)+
  with s(2) show ?thesis by simp
qed

lemma done_stays:
  assumes "zod_documented sp" "session_inv s" "phase (se_state s) = PhDone"
    and "session_step jp sp s e s'" "\<And>q r. e \<noteq> Ask q r"
  shows "phase (se_state s') = PhDone \<and> verdict (se_state s') = verdict (se_state s)
    \<and> transcript (se_state s') = transcript (se_state s)"
proof (cases "idle s")
  case True
  with idle_step [OF assms(2) _ assms(4,5)] assms(3)
  show ?thesis by (simp add: TERMINAL_def)
next
  case False
  from assms(2) False have "sync (se_player s) (se_state s)" "good_player (se_player s)" "player_inv (se_player s)"
    by (auto simp: session_inv_def idle_def good_player_def)
  with assms(3) have fin: "cursor (se_player s) = CurDone" by (auto simp: sync_def phase_ok_def split: if_splits)
  with \<open>player_inv (se_player s)\<close> have rest: "\<not> hasReadyWork (se_player s)"
    by (auto simp: ready_iff player_inv_def cursor_ok_def)
  show ?thesis
  proof (cases e)
    case (Socket n x)
    let ?s = "s\<lparr>se_world := fst (on_socket jp sp n x (se_world s))\<rparr>"
    from assms(4) Socket have s': "s' = foldl on_client_call ?s (snd (on_socket jp sp n x (se_world s)))"
      by (simp add: on_socket_event_def split_beta)
    from socket_calls_one [of jp sp n x "se_world s"] socket_calls_wf [OF assms(1), of jp n x "se_world s"]
    show ?thesis
      using s' finished_call [of ?s] \<open>good_player (se_player s)\<close> fin assms(3) by auto
  next
    case Timer
    with assms(3,4) fin \<open>player_inv (se_player s)\<close> finished_pump [of "(se_player s)\<lparr>timer := None\<rparr>"] show ?thesis
      by (auto simp: timer_fires_def commit_def frame_simps)
  next
    case GoToLive
    with assms(3,4) settled_skip [OF \<open>player_inv (se_player s)\<close> rest] show ?thesis
      by (auto simp: goToLive_def commit_def)
  qed (use assms(3-5) in \<open>auto simp: stop_eq unmount_eq setRate_callback_def Let_def TERMINAL_def\<close>)
qed

lemma ask_attached:
  assumes inv: "session_inv s" and ok: "buildAsk q r = AskOk m"
  shows "\<exists>h. handlers_of (next_socket (se_world s)) (se_world (ask q r s)) = Some h"
proof -
  have "next_socket (se_world (dispose_current s)) = next_socket (se_world s)"
    by (simp add: dispose_current_def split: option.split)
  with ok show ?thesis
    by (simp add: ask_accepted [OF ok]) (simp add: ws_ask_def createWsClient_def Let_def handlers_of_def)
qed

section \<open>A live debate is attended to\<close>

text \<open>While a debate is live a socket may still call back, or its close has been recorded; when none
  is live, nothing is going on at all, or the last debate was played to its end. Only a
  rejected question in mid-debate, or unmounting, breaks this.\<close>

definition live :: "session \<Rightarrow> bool" where
  "live s \<longleftrightarrow> phase (se_state s) \<in> {PhConnecting, PhDebating, PhModerating}"

definition attended :: "session \<Rightarrow> bool" where
  "attended s \<longleftrightarrow> (if live s then \<not> silent (se_world s) \<or> closed (se_player s)
     else idle s \<or> cursor (se_player s) = CurDone)"

lemma not_idle_again: "phase (debateReducer s i) = PhIdle \<Longrightarrow> phase s = PhIdle"
proof (cases i)
  case (Wire e)
  then show "phase (debateReducer s i) = PhIdle \<Longrightarrow> phase s = PhIdle"
    by (cases e) (auto simp: Let_def split: if_splits)
next
  case (StatusInput st)
  then show "phase (debateReducer s i) = PhIdle \<Longrightarrow> phase s = PhIdle" by (cases st) (auto split: if_splits)
qed (auto split: if_splits)

lemma reduced_not_idle: "phase (reduced s out) = PhIdle \<Longrightarrow> phase s = PhIdle"
  by (induction out arbitrary: s) (auto dest: not_idle_again)

lemma calls_not_idle: "phase (se_state (foldl on_client_call s ks)) = PhIdle \<Longrightarrow> phase (se_state s) = PhIdle"
proof (induction ks arbitrary: s)
  case (Cons k ks)
  then have "phase (se_state (on_client_call s k)) = PhIdle" by simp
  with on_client_call_routed [of k s] show ?case by (auto simp: commit_def dest: reduced_not_idle)
qed simp

lemma fresh_not_closed: "fresh p \<Longrightarrow> \<not> closed p"
  and fresh_cursor: "fresh p \<Longrightarrow> cursor p = CurPanelist 1 0"
proof -
  have "\<not> closed (reset p)" "cursor (reset p) = CurPanelist 1 0" by (simp_all add: reset_def newPlayer_def)
  then show "fresh p \<Longrightarrow> \<not> closed p" "fresh p \<Longrightarrow> cursor p = CurPanelist 1 0" by (auto simp: fresh_def)
qed

lemma finished_session:
  assumes "session_inv s" "cursor (se_player s) = CurDone"
  shows "\<not> live s \<and> sync (se_player s) (se_state s)"
proof -
  from assms(2) fresh_cursor have "\<not> fresh (se_player s)" by force
  with assms(1) have "sync (se_player s) (se_state s)" by (simp add: session_inv_def)
  with assms(2) show ?thesis by (auto simp: sync_def phase_ok_def live_def)
qed

text \<open>The three kinds of events nobody asked for.\<close>

definition spontaneous :: "session_event \<Rightarrow> bool" where
  "spontaneous e \<longleftrightarrow> e = Timer \<or> e = GoToLive \<or> (\<exists>n x. e = Socket n x)"

lemma finished_step:
  assumes good: "good_player (se_player s)" and fin: "cursor (se_player s) = CurDone" and zod: "zod_documented sp"
    and step: "session_step jp sp s e s'" and e: "spontaneous e"
  shows "cursor (se_player s') = CurDone"
proof -
  from good have inv: "player_inv (se_player s)" by (simp add: good_player_def)
  with fin have rest: "\<not> hasReadyWork (se_player s)" by (auto simp: ready_iff player_inv_def cursor_ok_def)
  consider "e = Timer" | "e = GoToLive" | n x where "e = Socket n x" using e by (auto simp: spontaneous_def)
  then show ?thesis
  proof cases
    case 1
    with step fin inv finished_pump [of "(se_player s)\<lparr>timer := None\<rparr>"] show ?thesis
      by (auto simp: timer_fires_def commit_def frame_simps)
  next
    case 2
    with step fin settled_skip [OF inv rest] show ?thesis by (auto simp: goToLive_def commit_def)
  next
    case (3 n x)
    let ?s = "s\<lparr>se_world := fst (on_socket jp sp n x (se_world s))\<rparr>"
    from step 3 have s': "s' = foldl on_client_call ?s (snd (on_socket jp sp n x (se_world s)))"
      by (simp add: on_socket_event_def split_beta)
    from socket_calls_one [of jp sp n x "se_world s"] socket_calls_wf [OF zod, of jp n x "se_world s"]
    show ?thesis using s' finished_call [of ?s] good fin by auto
  qed
qed

lemma spontaneous_not_idle:
  "session_step jp sp s e s' \<Longrightarrow> spontaneous e \<Longrightarrow> phase (se_state s') = PhIdle \<Longrightarrow> phase (se_state s) = PhIdle"
  by (auto simp: spontaneous_def goToLive_def commit_def on_socket_event_def split_beta
      dest!: reduced_not_idle calls_not_idle)

lemma does_closed:
  assumes "good_player p" "c \<in> {TimerFires, SkipToLive}" "player_does c p = Some (q, out)"
  shows "closed q = closed p"
  using does_recording [of p c q out] assms by (auto simp: same_recording_def)

lemma heard_or_closed:
  assumes "\<not> silent w"
  shows "\<not> silent (fst (on_socket jp sp n e w)) \<or> snd (on_socket jp sp n e w) = [OnStatus WsClosed]"
proof -
  obtain k h where k: "handlers_of k w = Some h" using assms by (auto simp: silent_def)
  show ?thesis
  proof (cases "e = SockClose")
    case True
    with assms show ?thesis by (cases "handlers_of n w") (auto simp: on_close_def)
  next
    case False
    with k have "handlers_of k (fst (on_socket jp sp n e w)) = Some h"
      by (cases e) (auto simp: on_open_def on_message_def on_error_def socket_send_def handlers_of_keep
          split: option.split prod.split)
    then show ?thesis unfolding silent_def by (metis option.distinct(1))
  qed
qed

lemma heard_or_closed_step:
  assumes inv: "session_inv s" and step: "session_step jp sp s e s'" and e: "spontaneous e"
    and heard: "\<not> silent (se_world s) \<or> closed (se_player s)"
  shows "\<not> silent (se_world s') \<or> closed (se_player s')"
proof -
  from inv have good: "good_player (se_player s)" and inv': "player_inv (se_player s)"
    by (simp_all add: session_inv_def good_player_def)
  consider "e = Timer" | "e = GoToLive" | n x where "e = Socket n x" using e by (auto simp: spontaneous_def)
  then show ?thesis
  proof cases
    case 1
    with does_closed [OF good, of TimerFires "se_player s'"] step heard show ?thesis
      by (cases "timer_fires (se_player s)") (auto simp: commit_def)
  next
    case 2
    with does_closed [OF good, of SkipToLive "se_player s'"] step heard show ?thesis
      by (auto simp: commit_def goToLive_def)
  next
    case (3 n x)
    show ?thesis
    proof (cases "silent (se_world s)")
      case True
      with step 3 silent_event heard show ?thesis by simp
    next
      case False
      let ?s = "s\<lparr>se_world := fst (on_socket jp sp n x (se_world s))\<rparr>"
      from step 3 have s': "s' = foldl on_client_call ?s (snd (on_socket jp sp n x (se_world s)))"
        by (simp add: on_socket_event_def split_beta)
      from heard_or_closed [OF False, of jp sp n x] show ?thesis
      proof
        assume "snd (on_socket jp sp n x (se_world s)) = [OnStatus WsClosed]"
        with s' pump_recording [OF closed_inv [OF inv']] show ?thesis
          by (simp add: commit_def same_recording_def)
      qed (simp add: s')
    qed
  qed
qed

lemma attended_step:
  assumes inv: "session_inv s" and zod: "zod_documented sp" and step: "session_step jp sp s e s'"
    and att: "attended s" and e: "e \<noteq> Unmount" "\<And>q r. e = Ask q r \<Longrightarrow> \<exists>m. buildAsk q r = AskOk m"
  shows "attended s'"
proof (cases "spontaneous e")
  case False
  then consider q r where "e = Ask q r" | "e = Stop" | x where "e = ChooseRate x"
    using e(1) by (cases e) (auto simp: spontaneous_def)
  then show ?thesis
  proof cases
    case (1 q r)
    with e(2) obtain m where m: "buildAsk q r = AskOk m" by blast
    from ask_attached [OF inv m] have "\<not> silent (se_world (ask q r s))" by (auto simp: silent_def)
    with 1 m step show ?thesis by (simp add: attended_def live_def ask_accepted)
  next
    case 2
    with step stop_idle [OF inv] show ?thesis by (auto simp: attended_def live_def stop_eq TERMINAL_def)
  next
    case (3 x)
    with step att fresh_setRate [of "se_player s" x] show ?thesis
      by (auto simp: attended_def live_def idle_def setRate_callback_def Let_def setRate_def split: if_splits)
  qed
next
  case True
  have ask: "e \<noteq> Ask q r" "e \<noteq> Stop" for q r using True by (auto simp: spontaneous_def)
  note inv' = session_inv_step [OF inv zod step]
  consider "idle s" "\<not> live s" | "cursor (se_player s) = CurDone" | "live s" using att by (auto simp: attended_def split: if_splits)
  then show ?thesis
  proof cases
    case 1
    with idle_step [OF inv 1(1) step ask(1)] ask show ?thesis by (simp add: attended_def live_def)
  next
    case 2
    have "cursor (se_player s') = CurDone"
      using finished_step [OF _ 2 zod step True] inv by (simp add: session_inv_def)
    with finished_session [OF inv'] show ?thesis by (simp add: attended_def)
  next
    case 3
    with att have heard: "\<not> silent (se_world s) \<or> closed (se_player s)" by (simp add: attended_def)
    show ?thesis
    proof (cases "live s'")
      case True
      with heard_or_closed_step [OF inv step \<open>spontaneous e\<close> heard] show ?thesis by (simp add: attended_def)
    next
      case False
      from heard inv fresh_not_closed have "sync (se_player s) (se_state s)" by (auto simp: session_inv_def)
      from live_step [OF inv this zod step] True have "sync (se_player s') (se_state s')"
        by (auto simp: spontaneous_def live_inv_def)
      moreover have "phase (se_state s') \<noteq> PhIdle"
        using spontaneous_not_idle [OF step True] 3 by (auto simp: live_def)
      ultimately have "cursor (se_player s') = CurDone"
        using False by (auto simp: sync_def phase_ok_def live_def split: if_splits)
      with False show ?thesis by (simp add: attended_def)
    qed
  qed
qed

text \<open>Nothing but a question makes a session live.\<close>

lemma not_live_stays:
  assumes inv: "session_inv s" and zod: "zod_documented sp" and step: "session_step jp sp s e s'"
    and att: "attended s" and "\<not> live s" and e: "\<And>q r. e \<noteq> Ask q r"
  shows "\<not> live s'"
proof (cases "idle s")
  case True
  with idle_step [OF inv True step e] \<open>\<not> live s\<close> show ?thesis by (auto simp: live_def TERMINAL_def split: if_splits)
next
  case False
  with att \<open>\<not> live s\<close> have fin: "cursor (se_player s) = CurDone" by (simp add: attended_def)
  show ?thesis
  proof (cases "spontaneous e")
    case True
    from finished_step [OF _ fin zod step True] inv have "cursor (se_player s') = CurDone" by (simp add: session_inv_def)
    with finished_session [OF session_inv_step [OF inv zod step]] show ?thesis by simp
  next
    case False
    with step e \<open>\<not> live s\<close> show ?thesis
      by (cases e) (auto simp: spontaneous_def live_def stop_eq unmount_eq setRate_callback_def Let_def TERMINAL_def)
  qed
qed

lemma attended_init: "attended (useDebate m)"
  by (simp add: attended_def idle_def live_def useDebate_def silent_def ws_init_def handlers_of_def initialState_def)

lemma attended_live:
  assumes inv: "session_inv s" and att: "attended s" and live: "live s"
  shows "(\<exists>n c m. handlers_of n (se_world s) = Some (c, m) \<and> se_client s = Some c) \<or> timer (se_player s) \<noteq> None"
proof (cases "silent (se_world s)")
  case False
  then obtain n c m where "handlers_of n (se_world s) = Some (c, m)" by (auto simp: silent_def)
  with inv show ?thesis unfolding session_inv_def current_only_def by blast
next
  case True
  with att live have "closed (se_player s)" by (simp add: attended_def)
  then have known: "terminalKnown (se_player s)" by (simp add: terminalKnown_def)
  have "timer (se_player s) \<noteq> None"
  proof
    assume "timer (se_player s) = None"
    with inv have "\<not> hasReadyWork (se_player s)" by (simp add: session_inv_def good_player_def awake_def)
    with known have fin: "cursor (se_player s) = CurDone" by (auto simp: ready_iff)
    then have "\<not> fresh (se_player s)" using fresh_cursor by force
    with inv have "sync (se_player s) (se_state s)" by (simp add: session_inv_def)
    with fin live show False by (auto simp: sync_def phase_ok_def live_def)
  qed
  then show ?thesis by blast
qed

section \<open>From the wire to the screen\<close>

text \<open>How a call of the player comes about in the hook, when the events travel over socket
  \<open>n\<close>, encoded by \<open>enc\<close>.\<close>

fun as_event :: "(debate_event \<Rightarrow> jstr) \<Rightarrow> nat \<Rightarrow> player_call \<Rightarrow> session_event" where
  "as_event enc n (Feed e) = Socket n (SockMessage (TextFrame (enc e)))"
| "as_event enc n (FeedStatus st) = Socket n (if st = WsOpen then SockOpen else if st = WsError then SockError else SockClose)"
| "as_event enc n TimerFires = Timer"
| "as_event enc n (SetRate x) = ChooseRate x"
| "as_event enc n SkipToLive = GoToLive"
| "as_event enc n (FeedTransport m) = Socket n (SockMessage BinaryFrame)"
| "as_event enc n ResetCall = Unmount"

text \<open>The calls a well-behaved connection makes while it is open.\<close>

fun by_wire :: "player_call \<Rightarrow> bool" where
  "by_wire (Feed e) = wf_event e"
| "by_wire (FeedStatus st) = (st = WsOpen \<or> st = WsError)"
| "by_wire (FeedTransport m) = False"
| "by_wire ResetCall = False"
| "by_wire _ = True"

text \<open>A frame is read as the object the backend marshalled; and, apart from that, no frame is longer
  than the client takes. The backend bounds neither an answer nor the verdict, which travels as one
  frame, so the second is a restriction to debates of ordinary size (\<open>oversized_frame_is_dropped\<close>).\<close>

definition encodes :: "(jstr \<Rightarrow> json option) \<Rightarrow> (debate_event \<Rightarrow> jstr) \<Rightarrow> player_call list \<Rightarrow> bool" where
  "encodes jp enc cs \<longleftrightarrow> (\<forall>e. Feed e \<in> set cs \<longrightarrow> jp (enc e) = Some (go_marshal (go_of_event e)))"

definition frames_fit :: "(debate_event \<Rightarrow> jstr) \<Rightarrow> player_call list \<Rightarrow> bool" where
  "frames_fit enc cs \<longleftrightarrow> (\<forall>e. Feed e \<in> set cs \<longrightarrow> length (enc e) \<le> 256 * 1024)"

lemma oversized_frame_is_dropped:
  assumes "handlers_of n (se_world s) = Some h" "256 * 1024 < length t"
  shows "let s' = on_socket_event jp sp n (SockMessage (TextFrame t)) s in
    se_player s' = se_player s \<and> phase (se_state s') = phase (se_state s) \<and> verdict (se_state s') = verdict (se_state s)
    \<and> errors (se_state s') = withError (errors (se_state s)) \<lparr>de_persona = None, de_message = js ''frame too large''\<rparr>"
  using assms
  by (simp add: on_socket_event_def on_message_def receive_frame_def MAX_FRAME_CHARS_def commit_def feedTransport_def Let_def)

text \<open>What a user can do about a debate other than to end it, and what its timers do.\<close>

fun viewing :: "session_event \<Rightarrow> bool" where
  "viewing Timer = True"
| "viewing (ChooseRate x) = True"
| "viewing GoToLive = True"
| "viewing _ = False"

lemma received_marshalled:
  assumes "zod_documented sp" "wf_event e" "jp (enc e) = Some (go_marshal (go_of_event e))"
    "length (enc e) \<le> MAX_FRAME_CHARS"
  shows "receive_frame jp sp (TextFrame (enc e)) = OnEvent e"
  using parse_marshalled [of sp e jp "enc e", OF assms(1-3)] assms(4) by (simp add: receive_frame_def)

lemma attached_world:
  "handlers_of n w = Some h \<Longrightarrow> e \<noteq> SockClose \<Longrightarrow> handlers_of n (fst (on_socket jp sp n e w)) = Some h"
  by (cases e) (auto simp: on_open_def on_message_def on_error_def socket_send_def handlers_of_keep
      split: option.split prod.split)

lemma wire_step:
  assumes zod: "zod_documented sp" and att: "handlers_of n (se_world s) = Some h" and c: "by_wire c"
    and enc: "\<And>e. c = Feed e \<Longrightarrow> jp (enc e) = Some (go_marshal (go_of_event e)) \<and> length (enc e) \<le> MAX_FRAME_CHARS"
    and step: "session_step jp sp s (as_event enc n c) s'"
  shows "player_does c (se_player s) = Some (se_player s', snd (the (player_does c (se_player s))))
    \<and> se_state s' = reduced (se_state s) (snd (the (player_does c (se_player s))))
    \<and> handlers_of n (se_world s') = Some h"
proof (cases c)
  case (Feed e)
  with received_marshalled [OF zod, of e jp enc] enc c
  have "receive_frame jp sp (TextFrame (enc e)) = OnEvent e" by simp
  with Feed step att show ?thesis
    by (simp add: on_socket_event_def on_message_def commit_def split_beta)
next
  case (FeedStatus st)
  with c have "st = WsOpen \<or> st = WsError" by simp
  with FeedStatus step att attached_world [OF att, of SockOpen] show ?thesis
    by (auto simp: on_socket_event_def on_open_def on_error_def commit_def split_beta split: prod.splits)
qed (use c step att in \<open>auto simp: goToLive_def setRate_callback_def Let_def commit_def split_beta\<close>)

lemma wire_run:
  "session_run jp sp s (map (as_event enc n) cs) s' \<Longrightarrow> zod_documented sp \<Longrightarrow> handlers_of n (se_world s) = Some h \<Longrightarrow>
   list_all by_wire cs \<Longrightarrow> encodes jp enc cs \<Longrightarrow> frames_fit enc cs \<Longrightarrow>
   playback cs (se_player s, se_state s) = Some (se_player s', se_state s') \<and> handlers_of n (se_world s') = Some h"
proof (induction cs arbitrary: s)
  case (Cons c cs)
  from Cons.prems(1) obtain s1 where 1: "session_step jp sp s (as_event enc n c) s1"
    "session_run jp sp s1 (map (as_event enc n) cs) s'" by auto
  have enc: "jp (enc e) = Some (go_marshal (go_of_event e)) \<and> length (enc e) \<le> MAX_FRAME_CHARS" if "c = Feed e" for e
    using Cons.prems(5,6) that by (auto simp: encodes_def frames_fit_def MAX_FRAME_CHARS_def)
  have "encodes jp enc cs" "frames_fit enc cs" using Cons.prems(5,6) by (simp_all add: encodes_def frames_fit_def)
  with wire_step [OF Cons.prems(2,3) _ enc 1(1)] Cons.IH [OF 1(2) Cons.prems(2)] Cons.prems(4)
  show ?case by (auto split: option.split)
qed simp

text \<open>Once the socket has closed the viewer's calls go on.\<close>

fun viewer_call :: "player_call \<Rightarrow> bool" where
  "viewer_call TimerFires = True"
| "viewer_call (SetRate x) = True"
| "viewer_call SkipToLive = True"
| "viewer_call _ = False"

lemma viewing_step:
  assumes "session_step jp sp s e s1" "viewing e"
  shows "\<exists>c. viewer_call c \<and> playback [c] (se_player s, se_state s) = Some (se_player s1, se_state s1)"
proof (cases e)
  case Timer
  with assms show ?thesis by (intro exI [of _ TimerFires]) (simp add: commit_def split_beta)
next
  case (ChooseRate x)
  with assms show ?thesis
    by (intro exI [of _ "SetRate x"]) (simp add: setRate_callback_def Let_def commit_def split_beta)
next
  case GoToLive
  with assms show ?thesis
    by (intro exI [of _ SkipToLive]) (auto simp: goToLive_def commit_def split_beta)
qed (use assms in simp_all)

lemma playback_append:
  "playback (cs @ ds) ps = Option.bind (playback cs ps) (playback ds)"
  by (induction cs ps rule: playback.induct) (auto split: option.split)

lemma viewing_run:
  "session_run jp sp s es s' \<Longrightarrow> list_all viewing es \<Longrightarrow>
   \<exists>cs. list_all viewer_call cs \<and> playback cs (se_player s, se_state s) = Some (se_player s', se_state s')"
proof (induction rule: session_run.induct)
  case (stays s)
  then show ?case by (intro exI [of _ "[]"]) simp
next
  case (goes s e s1 es s2)
  obtain c where "viewer_call c" "playback [c] (se_player s, se_state s) = Some (se_player s1, se_state s1)"
    using viewing_step [OF goes.hyps(1)] goes.prems by auto
  moreover obtain cs where "list_all viewer_call cs" "playback cs (se_player s1, se_state s1) = Some (se_player s2, se_state s2)"
    using goes.IH goes.prems by auto
  ultimately show ?case using playback_append [of "[c]" cs] by (intro exI [of _ "c # cs"]) (simp del: playback.simps(2))
qed

lemma viewer_calls: "list_all viewer_call cs \<Longrightarrow> in_order st cs \<and> fed x r cs = [] \<and> list_all ok_call cs"
  by (induction cs arbitrary: st) (auto elim!: viewer_call.elims)

lemma fed_append: "fed x r (cs @ ds) = fed x r cs @ fed x r ds"
proof (induction cs)
  case (Cons c cs)
  then show ?case using fed_Cons [of x r c] by (metis append_Cons append_assoc)
qed simp

lemma in_order_closed:
  "in_order st cs \<Longrightarrow> list_all viewer_call ds \<Longrightarrow> in_order st (cs @ FeedStatus WsClosed # ds)"
  by (induction st cs rule: in_order.induct) (auto dest: viewer_calls)

lemma by_wire_ok: "by_wire c \<Longrightarrow> ok_call c"
  by (cases c) auto

lemma fed_closed: "list_all viewer_call ds \<Longrightarrow> fed x r (cs @ FeedStatus WsClosed # ds) = fed x r cs"
  using viewer_calls [of ds] by (simp add: fed_append)

lemma close_step:
  assumes "handlers_of n (se_world s) = Some h" "session_step jp sp s (Socket n SockClose) s'"
  shows "playback [FeedStatus WsClosed] (se_player s, se_state s) = Some (se_player s', se_state s')"
  using assms by (cases h) (auto simp: on_socket_event_def on_close_def commit_def split_beta)

text \<open>The shortest debate: a question, and a verdict frame.\<close>

lemma ask_example: "buildAsk (js ''a'') None = AskOk \<lparr>ask_question = js ''a'', ask_rounds = None\<rparr>"
  by (simp add: buildAsk_def js_trim_def trim_by_def js_def is_js_space_def runeCount_def is_high_surrogate_def
      MAX_QUESTION_RUNES_def)

lemma hears_event:
  assumes "handlers_of n (se_world s) = Some h" "wf_event e" "jp t = Some (go_marshal (go_of_event e))" "length t \<le> MAX_FRAME_CHARS"
  shows "on_socket_event jp zod_reference n (SockMessage (TextFrame t)) s = commit (feed e (se_player s)) s"
proof -
  have "receive_frame jp zod_reference (TextFrame t) = OnEvent e"
    using received_marshalled [OF zod_reference_documented, of e jp "\<lambda>_. t"] assms(2-4) by simp
  with assms(1) show ?thesis by (simp add: on_socket_event_def on_message_def)
qed

lemma verdict_at_once:
  assumes ok: "buildAsk q r = AskOk m"
  shows "phase (se_state (on_socket_event (\<lambda>_. Some (go_marshal (go_of_event (VerdictEvent v)))) zod_reference 0
    (SockMessage (TextFrame [])) (ask q r (useDebate b)))) = PhDone"
proof -
  let ?jp = "\<lambda>_. Some (go_marshal (go_of_event (VerdictEvent v)))"
  let ?a = "ask q r (useDebate b)"
  have "next_socket (se_world (useDebate b)) = 0" by (simp add: useDebate_def ws_init_def)
  then obtain h where "handlers_of 0 (se_world ?a) = Some h" using ask_attached [OF session_inv_init ok] by metis
  from hears_event [OF this, of "VerdictEvent v" ?jp "[]"]
  have "on_socket_event ?jp zod_reference 0 (SockMessage (TextFrame [])) ?a = commit (feed (VerdictEvent v) (se_player ?a)) ?a" by simp
  moreover have "snd (feed (VerdictEvent v) (se_player ?a)) = [Wire (VerdictEvent v)]"
    by (rule fresh_verdict) (simp add: ask_accepted [OF ok])
  ultimately show ?thesis by (simp add: commit_def)
qed

text \<open>A debate from the wire to the screen: player and reducer see what the socket received.\<close>

lemma wire_to_screen:
  assumes "zod_documented sp" "session_run jp sp (useDebate m) before s" "buildAsk q r = AskOk msg"
    and "list_all by_wire cs" "encodes jp enc cs" "frames_fit enc cs" "in_order ({}, False, False) cs"
    and "Feed (VerdictEvent v) \<in> set cs"
    and "\<And>k. 1 \<le> k \<Longrightarrow> k \<le> n \<Longrightarrow> Feed (RoundCompleteEvent k) \<in> set cs"
    and "sock = next_socket (se_world s)"
    and "session_run jp sp (ask q r s) (map (as_event enc sock) cs) s1"
    and "session_step jp sp s1 (Socket sock SockClose) s2"
    and "session_run jp sp s2 es s3" "list_all viewing es"
  shows "\<exists>p out. run_timers (se_player s3) [] = Some (p, out) \<and> isAtLive p
    \<and> (let st = foldl debateReducer (se_state s3) out in
       phase st = PhDone \<and> verdict st = v \<and> activeSpeakers st = []
       \<and> (\<forall>x k. x \<noteq> Moderator \<and> 1 \<le> k \<and> k \<le> n \<longrightarrow> cell (transcript st) x k = take 200000 (concat (fed x k cs)))
       \<and> (\<forall>k. (\<forall>j. fed Moderator j cs \<noteq> [] \<longrightarrow> j = k) \<longrightarrow>
            cell (transcript st) Moderator k = take 200000 (concat (fed Moderator k cs))))"
proof -
  have inv: "session_inv s" using session_run_inv [OF assms(2) session_inv_init assms(1)] .
  let ?s = "ask q r s"
  have inv': "session_inv ?s" by (rule ask_inv [OF inv])
  obtain h where att: "handlers_of sock (se_world ?s) = Some h" using ask_attached [OF inv assms(3)] assms(10) by blast
  note run = wire_run [OF assms(11,1) att assms(4-6)]
  obtain ds where ds: "list_all viewer_call ds"
    "playback ds (se_player s2, se_state s2) = Some (se_player s3, se_state s3)"
    using viewing_run [OF assms(13,14)] by blast
  let ?cs = "cs @ FeedStatus WsClosed # ds"
  from run close_step [OF _ assms(12)]
  have "playback (cs @ [FeedStatus WsClosed]) (se_player ?s, se_state ?s) = Some (se_player s2, se_state s2)"
    by (auto simp: playback_append)
  with ds(2) have play: "playback ?cs (se_player ?s, se_state ?s) = Some (se_player s3, se_state s3)"
    using playback_append [of "cs @ [FeedStatus WsClosed]" ds] by simp
  have start: "good_player (se_player ?s)" "fresh (se_player ?s)" "sync (se_player ?s) (se_state ?s)"
    using inv' sync_reset_connecting by (simp_all add: session_inv_def ask_accepted [OF assms(3)])
  have ok: "list_all ok_call ?cs" "in_order ({}, False, False) ?cs" "Feed (VerdictEvent v) \<in> set ?cs"
    using assms(4,8) in_order_closed [OF assms(7) ds(1)] viewer_calls [OF ds(1)] by (auto simp: list_all_iff by_wire_ok)
  have rounds: "Feed (RoundCompleteEvent k) \<in> set ?cs" if "1 \<le> k" "k \<le> n" for k using assms(9) that by simp
  have "session_inv s2"
    using session_inv_step [OF session_run_inv [OF assms(11) inv' assms(1)] assms(1,12)] .
  from session_run_inv [OF assms(13) this assms(1)]
  have inv3: "player_inv (se_player s3)" "awake (se_player s3)" by (simp_all add: session_inv_def good_player_def)
  obtain out p where p: "settles ((se_player s3)\<lparr>timer := None\<rparr>) out p" "run_timers (se_player s3) [] = Some (p, out)"
    using timers_settle [OF inv3] by blast
  have "\<not> hasReadyWork p" using settles_inv [OF p(1)] inv3(1) by (simp add: frame_simps)
  with replay_from [OF start ok rounds] play p(2) show ?thesis
    by (auto simp: fed_closed [OF ds(1)] isAtLive_def Let_def)
qed

section \<open>Properties\<close>

text \<open>C8. Whatever the user, the network and the timers do, in whatever order: at most one
  speaker is active, the state is bounded, the speed shown is the player's, only the socket of
  the current client can still call back, and every event has an outcome.\<close>

theorem session_always_coherent:
  assumes "zod_documented sp" "session_run jp sp (useDebate m) es s"
  shows "length (activeSpeakers (se_state s)) \<le> 1 \<and> length (errors (se_state s)) \<le> 50
    \<and> (\<forall>p r. length (cell (transcript (se_state s)) p r) \<le> 200000)
    \<and> se_rate s = rate (se_player s)
    \<and> (\<forall>n c msg. handlers_of n (se_world s) = Some (c, msg) \<longrightarrow> se_client s = Some c)
    \<and> (\<forall>e. \<exists>s'. session_step jp sp s e s')"
proof -
  have inv: "session_inv s" using session_run_inv [OF assms(2) session_inv_init assms(1)] .
  with session_step_exists [OF inv] show ?thesis
    by (simp add: session_inv_def reducer_inv_def current_only_def MAX_ERRORS_def MAX_CELL_CHARS_def)
qed

theorem session_always_coherent_witness:
  "\<exists>s. session_run (\<lambda>_. None) zod_reference (useDebate False)
      [Ask (js ''why'') None, Socket 0 SockOpen, Socket 0 (SockMessage BinaryFrame), Timer, GoToLive, Stop] s
    \<and> length (activeSpeakers (se_state s)) \<le> 1"
  using session_run_exists [OF session_inv_init zod_reference_documented,
      of "\<lambda>_. None" False "[Ask (js ''why'') None, Socket 0 SockOpen, Socket 0 (SockMessage BinaryFrame), Timer, GoToLive, Stop]"]
    session_always_coherent [OF zod_reference_documented]
  by blast

text \<open>C14. After \<open>stop\<close> the debate state is final: no buffered turn, no late frame, no close of the
  abandoned socket changes it, until the next question.\<close>

theorem nothing_after_stop:
  assumes "zod_documented sp" "session_run jp sp (useDebate m) before s"
    and "session_run jp sp (stop s) es s'" "\<forall>q r. Ask q r \<notin> set es"
  shows "se_state s' = se_state (stop s) \<and> phase (se_state s') \<in> {PhDone, PhStopped, PhError}"
proof -
  have inv: "session_inv s" using session_run_inv [OF assms(2) session_inv_init assms(1)] .
  from idle_run [OF assms(3) stop_inv [OF inv] assms(1) stop_idle [OF inv] assms(4)]
  have "se_state s' = se_state (stop s)"
    using cancelled_stays [of "se_state s"] by (auto simp: stop_eq simp del: debateReducer.simps)
  then show ?thesis by (simp add: stop_eq TERMINAL_def)
qed

theorem nothing_after_stop_witness:
  "\<exists>s'. session_run (\<lambda>_. Some (go_marshal (go_of_event (VerdictEvent [])))) zod_reference
      (stop (ask (js ''a'') None (useDebate False))) [Timer, Socket 0 (SockMessage (TextFrame [])), Socket 0 SockClose] s'
    \<and> phase (se_state (ask (js ''a'') None (useDebate False))) = PhConnecting
    \<and> se_state s' = initialState\<lparr>phase := PhStopped\<rparr>"
proof -
  let ?jp = "\<lambda>_. Some (go_marshal (go_of_event (VerdictEvent [])))" and ?a = "ask (js ''a'') None (useDebate False)"
  note ok = ask_example
  have before: "session_run ?jp zod_reference (useDebate False) [Ask (js ''a'') None] ?a" by simp
  obtain s' where run: "session_run ?jp zod_reference (stop ?a) [Timer, Socket 0 (SockMessage (TextFrame [])), Socket 0 SockClose] s'"
    using session_run_exists [OF stop_inv [OF ask_inv [OF session_inv_init]] zod_reference_documented] by blast
  have "phase (se_state ?a) = PhConnecting" "se_state (stop ?a) = initialState\<lparr>phase := PhStopped\<rparr>"
    by (simp_all add: stop_eq ask_accepted [OF ok] initialState_def TERMINAL_def)
  moreover from nothing_after_stop [OF zod_reference_documented before run] have "se_state s' = se_state (stop ?a)" by simp
  ultimately show ?thesis using run by metis
qed

text \<open>C13. A superseded session cannot interfere: once a question is asked, no event of any socket
  opened before, at any later time, changes anything.\<close>

theorem superseded_socket_cannot_interfere:
  assumes "zod_documented sp" "session_run jp sp (useDebate m) before s" "n < next_socket (se_world s)"
    and "session_run jp sp (ask q r s) es s'"
  shows "session_step jp sp s' (Socket n x) s'' \<longleftrightarrow> s'' = s'"
proof -
  have "session_inv s" using session_run_inv [OF assms(2) session_inv_init assms(1)] .
  from dead_run [OF assms(4) old_sockets_die [OF this assms(3)]] show ?thesis by (simp add: dead_event)
qed

theorem superseded_socket_cannot_interfere_witness:
  "\<forall>s2. session_step (\<lambda>_. None) zod_reference (ask (js ''a'') None (ask (js ''a'') None (useDebate False))) (Socket 0 SockClose) s2
    \<longleftrightarrow> s2 = ask (js ''a'') None (ask (js ''a'') None (useDebate False))"
proof (rule allI, rule superseded_socket_cannot_interfere [where es = "[]" and n = 0, OF zod_reference_documented])
  show "session_run (\<lambda>_. None) zod_reference (useDebate False) [Ask (js ''a'') None] (ask (js ''a'') None (useDebate False))"
    by simp
  show "0 < next_socket (se_world (ask (js ''a'') None (useDebate False)))"
    by (simp add: ask_def useDebate_def ws_init_def createWsClient_def ws_ask_def buildAsk_def js_trim_def trim_by_def
        js_def is_js_space_def runeCount_def is_high_surrogate_def MAX_QUESTION_RUNES_def Let_def dispose_current_def)
qed simp

text \<open>A valid question starts afresh: the debate state is the initial one, connecting; nothing
  of the previous debate is left in the player, whose speed stays; and exactly one socket is
  attached, a new one that will send this question.\<close>

theorem valid_ask_starts_afresh:
  assumes "zod_documented sp" "session_run jp sp (useDebate m) before s" "buildAsk q r = AskOk msg"
  shows "let s' = ask q r s in
    se_state s' = initialState\<lparr>phase := PhConnecting\<rparr>
    \<and> se_player s' = (newPlayer (reducedMotion (se_player s)))\<lparr>rate := rate (se_player s)\<rparr>
    \<and> (\<forall>n. handlers_of n (se_world s') =
         (if n = next_socket (se_world s) then Some (the (se_client s'), stringify_ask msg) else None))"
proof -
  have inv: "session_inv s" using session_run_inv [OF assms(2) session_inv_init assms(1)] .
  have "next_socket (se_world (dispose_current s)) = next_socket (se_world s)"
    by (simp add: dispose_current_def split: option.split)
  with dispose_current_world(2) [OF inv] assms(3) show ?thesis
    by (simp add: ask_accepted [OF assms(3)] Let_def reset_def)
      (simp add: ws_ask_def createWsClient_def Let_def silent_def handlers_of_def)
qed

theorem valid_ask_starts_afresh_witness:
  "se_state (ask (js ''a'') None (useDebate True)) = initialState\<lparr>phase := PhConnecting\<rparr>"
proof -
  note ask_example
  from valid_ask_starts_afresh [OF zod_reference_documented session_run.stays this] show ?thesis
    by (simp add: Let_def)
qed

text \<open>C39. A question that \<open>buildAsk\<close> rejects freezes the debate on screen: the client is disposed
  and the player reset before the question is checked, so nothing but an error is added, the
  phase stays what it was, and nothing ever moves again until the next question or \<open>stop\<close>.\<close>

theorem rejected_ask_freezes_the_debate:
  assumes "zod_documented sp" "session_run jp sp (useDebate m) before s" "buildAsk q r = AskErr e"
    and "session_run jp sp (ask q r s) es s'" "\<forall>q r. Ask q r \<notin> set es" "Stop \<notin> set es"
  shows "phase (se_state s') = phase (se_state s) \<and> activeSpeakers (se_state s') = activeSpeakers (se_state s)
    \<and> transcript (se_state s') = transcript (se_state s)
    \<and> errors (se_state s') = withError (errors (se_state s)) \<lparr>de_persona = None, de_message = e\<rparr>"
proof -
  have inv: "session_inv s" using session_run_inv [OF assms(2) session_inv_init assms(1)] .
  have "idle (ask q r s)"
    using dispose_current_world(2) [OF inv] by (simp add: idle_def ask_rejected [OF assms(3)] silent_def)
  with idle_run [OF assms(4) ask_inv [OF inv] assms(1) _ assms(5)] assms(6)
  have "se_state s' = se_state (ask q r s)" by simp
  then show ?thesis by (simp add: ask_rejected [OF assms(3)])
qed

theorem rejected_ask_freezes_the_debate_witness:
  "\<exists>s s'. session_run (\<lambda>_. None) zod_reference (useDebate False) [Ask (js ''a'') None] s
    \<and> session_run (\<lambda>_. None) zod_reference (ask [] None s) [Timer, Socket 0 SockClose, GoToLive] s' \<and> phase (se_state s') = PhConnecting"
proof -
  let ?a = "ask (js ''a'') None (useDebate False)"
  note ok = ask_example
  have before: "session_run (\<lambda>_. None) zod_reference (useDebate False) [Ask (js ''a'') None] ?a" by simp
  obtain s' where run: "session_run (\<lambda>_. None) zod_reference (ask [] None ?a) [Timer, Socket 0 SockClose, GoToLive] s'"
    using session_run_exists [OF ask_inv [OF ask_inv [OF session_inv_init]] zod_reference_documented] by blast
  have "buildAsk [] None = AskErr (js ''Ask a question to convene the council.'')"
    by (simp add: buildAsk_def js_trim_def trim_by_def)
  from rejected_ask_freezes_the_debate [OF zod_reference_documented before this run] have "phase (se_state s') = PhConnecting"
    by (simp add: ask_accepted [OF ok])
  with before run show ?thesis by blast
qed

text \<open>C15. The verdict is final: once the phase is done, no late frame, close, timer, skip or
  \<open>stop\<close> changes the phase, the verdict or the transcript; only a new question does.\<close>

theorem verdict_is_final:
  assumes "zod_documented sp" "session_run jp sp (useDebate m) before s" "phase (se_state s) = PhDone"
    and "session_step jp sp s e s'" "\<And>q r. e \<noteq> Ask q r"
  shows "phase (se_state s') = PhDone \<and> verdict (se_state s') = verdict (se_state s)
    \<and> transcript (se_state s') = transcript (se_state s)"
  using done_stays [OF assms(1) session_run_inv [OF assms(2) session_inv_init assms(1)] assms(3-5)] .

theorem verdict_is_final_witness:
  "\<exists>s. phase (se_state s) = PhDone \<and> phase (se_state (stop s)) = PhDone
    \<and> verdict (se_state (stop s)) = verdict (se_state s)"
proof -
  let ?jp = "\<lambda>_. Some (go_marshal (go_of_event (VerdictEvent (js ''yes''))))"
  let ?s = "on_socket_event ?jp zod_reference 0 (SockMessage (TextFrame [])) (ask (js ''a'') None (useDebate False))"
  note ok = ask_example
  note fin = verdict_at_once [OF ok, where v = "js ''yes''" and b = False]
  have run: "session_run ?jp zod_reference (useDebate False) [Ask (js ''a'') None, Socket 0 (SockMessage (TextFrame []))] ?s"
    by (rule session_run.goes [OF session_step.asks session_run.goes [OF session_step.socket session_run.stays]])
  have "session_step ?jp zod_reference ?s Stop (stop ?s)" by (rule session_step.stops)
  from verdict_is_final [OF zod_reference_documented run fin this] fin show ?thesis by auto
qed

text \<open>C3. From the wire to the screen. A valid question is asked, whatever happened before; the
  backend's events, encoded as Go encodes them and none in a frame of more than the 256 * 1024 units the
  client takes (\<open>frames_fit\<close>), arrive in the backend's order on the new socket, which then closes; timers,
  changes of speed and skips interleave at will, before the close and after it. When playback has
  come to rest, the debate is done with the backend's verdict, nobody speaks, and every panelist's text of
  every completed round is there, up to the cap of 200,000 units of a cell.\<close>

theorem debate_from_wire_to_screen:
  assumes "zod_documented sp" "session_run jp sp (useDebate m) before s" "buildAsk q r = AskOk msg"
    and "list_all by_wire cs" "encodes jp enc cs" "frames_fit enc cs" "in_order ({}, False, False) cs"
    and "Feed (VerdictEvent v) \<in> set cs"
    and "\<And>k. 1 \<le> k \<Longrightarrow> k \<le> n \<Longrightarrow> Feed (RoundCompleteEvent k) \<in> set cs"
    and "sock = next_socket (se_world s)"
    and "session_run jp sp (ask q r s) (map (as_event enc sock) cs) s1"
    and "session_step jp sp s1 (Socket sock SockClose) s2"
    and "session_run jp sp s2 es s3" "list_all viewing es"
  shows "\<exists>p out. run_timers (se_player s3) [] = Some (p, out) \<and> isAtLive p
    \<and> (let st = foldl debateReducer (se_state s3) out in
       phase st = PhDone \<and> verdict st = v \<and> activeSpeakers st = []
       \<and> (\<forall>x k. x \<noteq> Moderator \<and> 1 \<le> k \<and> k \<le> n \<longrightarrow> cell (transcript st) x k = take 200000 (concat (fed x k cs))))"
  using wire_to_screen [OF assms] by (fastforce simp: Let_def)

theorem debate_from_wire_to_screen_witness:
  "\<exists>(s3 :: session) p out. run_timers (se_player s3) [] = Some (p, out)
    \<and> phase (foldl debateReducer (se_state s3) out) = PhDone
    \<and> verdict (foldl debateReducer (se_state s3) out) = js ''yes''"
proof -
  let ?e = "VerdictEvent (js ''yes'')"
  let ?jp = "\<lambda>_. Some (go_marshal (go_of_event ?e))" let ?enc = "\<lambda>_. []" let ?cs = "[Feed ?e, TimerFires]"
  let ?es = "[ChooseRate (JNum 2), Timer, GoToLive]"
  let ?s = "useDebate False"
  note ok = ask_example
  have enc: "encodes ?jp ?enc ?cs" by (simp add: encodes_def)
  have fit: "frames_fit ?enc ?cs" by (simp add: frames_fit_def)
  have inv: "session_inv (ask (js ''a'') None ?s)" by (rule ask_inv [OF session_inv_init])
  obtain s1 where s1: "session_run ?jp zod_reference (ask (js ''a'') None ?s) (map (as_event ?enc 0) ?cs) s1"
    using session_run_exists [OF inv zod_reference_documented] by blast
  obtain s2 where s2: "session_step ?jp zod_reference s1 (Socket 0 SockClose) s2"
    using session_step_exists [OF session_run_inv [OF s1 inv zod_reference_documented]] by blast
  obtain s3 where s3: "session_run ?jp zod_reference s2 ?es s3"
    using session_run_exists [OF session_inv_step [OF session_run_inv [OF s1 inv zod_reference_documented]
        zod_reference_documented s2] zod_reference_documented] by blast
  have "0 = next_socket (se_world ?s)" by (simp add: useDebate_def ws_init_def)
  from debate_from_wire_to_screen [OF zod_reference_documented session_run.stays ok _ enc fit _ _ _ this s1 s2 s3,
      of "js ''yes''" 0]
  obtain p out where "run_timers (se_player s3) [] = Some (p, out)"
    "phase (foldl debateReducer (se_state s3) out) = PhDone"
    "verdict (foldl debateReducer (se_state s3) out) = js ''yes''"
    by (auto simp: Let_def)
  then show ?thesis by blast
qed

end
