(* ===== verification/Stage_Views.thy ===== *)
theory Stage_Views
  imports Session
begin

text \<open>
  The pure derivations behind the 3D stage: \<open>three/robotVisualState.ts\<close>, \<open>robotAnimation.ts\<close>,
  \<open>bubbleContent.ts\<close>, \<open>seating.ts\<close>, \<open>cameraTarget.ts\<close>, \<open>robotShape.ts\<close>, and of the components
  \<open>StageScene.tsx\<close> and \<open>RobotPersona.tsx\<close> what decides what a robot shows: where its label
  goes, when a re-render is skipped, and one frame of its animation. Coordinates and
  magnitudes are reals.
\<close>

section \<open>Robot states\<close>

datatype robot_status = RobotIdle | RobotThinking | RobotTalking | RobotDone

record robot_visual =
  rv_id :: persona_id
  rv_status :: robot_status
  rv_speaking :: bool
  rv_dimmed :: bool
  rv_round :: nat

definition VERDICT_PHASES :: "debate_phase set" where
  "VERDICT_PHASES = {PhModerating, PhDone}"

definition hasSpokenIn :: "debate_state \<Rightarrow> persona_id \<Rightarrow> nat \<Rightarrow> bool" where
  "hasSpokenIn s p r = (case transcript s p of None \<Rightarrow> False | Some rs \<Rightarrow> map_of rs r \<noteq> None)"

definition hasSpokenEver :: "debate_state \<Rightarrow> persona_id \<Rightarrow> bool" where
  "hasSpokenEver s p = (case transcript s p of None \<Rightarrow> False | Some rs \<Rightarrow> length (map fst rs) > 0)"

definition panelistStatus :: "debate_state \<Rightarrow> persona_id \<Rightarrow> robot_status" where
  "panelistStatus s p =
    (case phase s of
       PhIdle \<Rightarrow> RobotIdle
     | PhConnecting \<Rightarrow> RobotIdle
     | PhDebating \<Rightarrow>
        if p \<in> set (activeSpeakers s) then RobotTalking
        else if hasSpokenIn s p (currentRound s) then RobotDone else RobotThinking
     | _ \<Rightarrow> if hasSpokenEver s p then RobotDone else RobotIdle)"

definition moderatorStatus :: "debate_state \<Rightarrow> robot_status" where
  "moderatorStatus s =
    (if phase s = PhModerating then RobotTalking
     else if phase s = PhDone then RobotDone
     else if phase s = PhStopped \<or> phase s = PhError
       then (if hasSpokenEver s MODERATOR_ID then RobotDone else RobotIdle)
     else RobotIdle)"

definition visualOf :: "debate_state \<Rightarrow> persona_id \<Rightarrow> robot_visual" where
  "visualOf s p =
    (let status = (if p = MODERATOR_ID then moderatorStatus s else panelistStatus s p)
     in \<lparr>rv_id = p, rv_status = status, rv_speaking = (status = RobotTalking),
         rv_dimmed = (phase s \<in> VERDICT_PHASES \<and> p \<noteq> MODERATOR_ID), rv_round = currentRound s\<rparr>)"

definition robotVisualState :: "debate_state \<Rightarrow> robot_visual list" where
  "robotVisualState s = map (visualOf s) PERSONA_IDS"

section \<open>Animation targets\<close>

record robot_targets =
  rt_emissive :: real
  rt_bob :: real
  rt_sway :: real
  rt_speed :: real
  rt_light :: real

fun BASE :: "robot_status \<Rightarrow> robot_targets" where
  "BASE RobotIdle = \<lparr>rt_emissive = 0.7, rt_bob = 0.015, rt_sway = 0.02, rt_speed = 0.6, rt_light = 0.35\<rparr>"
| "BASE RobotThinking = \<lparr>rt_emissive = 0.95, rt_bob = 0.03, rt_sway = 0.05, rt_speed = 1.4, rt_light = 0.9\<rparr>"
| "BASE RobotTalking = \<lparr>rt_emissive = 1.6, rt_bob = 0.05, rt_sway = 0.14, rt_speed = 3.2, rt_light = 2.6\<rparr>"
| "BASE RobotDone = \<lparr>rt_emissive = 1.05, rt_bob = 0.02, rt_sway = 0.015, rt_speed = 0.8, rt_light = 1.0\<rparr>"

definition DIM_EMISSIVE :: real where "DIM_EMISSIVE = 0.12"
definition DIM_LIGHT :: real where "DIM_LIGHT = 0.05"

definition targetsFor :: "robot_visual \<Rightarrow> bool \<Rightarrow> robot_targets" where
  "targetsFor v still =
    (let base = BASE (rv_status v);
         dimmed = (if rv_dimmed v
                   then base\<lparr>rt_emissive := rt_emissive base * DIM_EMISSIVE, rt_light := rt_light base * DIM_LIGHT\<rparr>
                   else base)
     in if \<not> still then dimmed else dimmed\<lparr>rt_bob := 0, rt_sway := 0, rt_speed := 0\<rparr>)"

section \<open>Bubbles\<close>

datatype bubble_mode = Nameplate | Streaming | Settled | Verdict

record persona_bubble =
  pb_id :: persona_id
  pb_displayName :: jstr
  pb_role :: jstr
  pb_text :: jstr
  pb_mode :: bubble_mode
  pb_streaming :: bool
  pb_dimmed :: bool

definition latestRoundText :: "debate_state \<Rightarrow> persona_id \<Rightarrow> jstr" where
  "latestRoundText s p =
    (case transcript s p of
       None \<Rightarrow> []
     | Some rs \<Rightarrow>
        (if rs = [] then []
         else case map_of rs (Max (set (map fst rs))) of None \<Rightarrow> [] | Some x \<Rightarrow> x))"

definition bubble_of :: "persona_id \<Rightarrow> bool \<Rightarrow> jstr \<Rightarrow> bubble_mode \<Rightarrow> bool \<Rightarrow> persona_bubble" where
  "bubble_of p dimmed words mode streaming =
    \<lparr>pb_id = p, pb_displayName = displayName (personaMeta p), pb_role = meta_role (personaMeta p),
     pb_text = words, pb_mode = mode, pb_streaming = streaming, pb_dimmed = dimmed\<rparr>"

definition panelistBubble :: "debate_state \<Rightarrow> robot_visual \<Rightarrow> persona_bubble" where
  "panelistBubble s v =
    (if phase s \<in> VERDICT_PHASES then bubble_of (rv_id v) (rv_dimmed v) [] Nameplate False
     else case rv_status v of
       RobotTalking \<Rightarrow> bubble_of (rv_id v) (rv_dimmed v) (latestRoundText s (rv_id v)) Streaming True
     | RobotDone \<Rightarrow> bubble_of (rv_id v) (rv_dimmed v) (latestRoundText s (rv_id v)) Settled False
     | _ \<Rightarrow> bubble_of (rv_id v) (rv_dimmed v) [] Nameplate False)"

definition moderatorBubble :: "debate_state \<Rightarrow> robot_visual \<Rightarrow> persona_bubble" where
  "moderatorBubble s v =
    (if phase s = PhModerating
       then bubble_of MODERATOR_ID (rv_dimmed v) (latestRoundText s MODERATOR_ID) Verdict True
     else if phase s = PhDone then bubble_of MODERATOR_ID (rv_dimmed v) (verdict s) Verdict False
     else bubble_of MODERATOR_ID (rv_dimmed v) [] Nameplate False)"

definition personaBubbles :: "debate_state \<Rightarrow> persona_bubble list" where
  "personaBubbles s =
    (let byId = map_of (rev (map (\<lambda>v. (rv_id v, v)) (robotVisualState s)))
     in map (\<lambda>p. let v = the (byId p)
                 in if p = MODERATOR_ID then moderatorBubble s v else panelistBubble s v) PERSONA_IDS)"

section \<open>Seats\<close>

type_synonym point = "real \<times> real \<times> real"

record seat =
  seat_position :: point
  seat_rotationY :: real

definition DEG :: real where "DEG = pi / 180"
definition PANEL_RADIUS :: real where "PANEL_RADIUS = 3.2"
definition MODERATOR_RADIUS :: real where "MODERATOR_RADIUS = 3.6"
definition HEAD_LABEL_HEIGHT :: real where "HEAD_LABEL_HEIGHT = 2.5"

definition PANEL_ANGLES_DEG :: "real list" where
  "PANEL_ANGLES_DEG = [- 70, - 35, 35, 70]"

definition seatAt :: "real \<Rightarrow> real \<Rightarrow> seat" where
  "seatAt angleDeg radius =
    (let a = angleDeg * DEG
     in \<lparr>seat_position = (- radius * sin a, 0, - radius * cos a), seat_rotationY = a\<rparr>)"

definition panelEntries :: "(persona_id \<times> seat) list" where
  "panelEntries = map (\<lambda>(p, a). (p, seatAt a PANEL_RADIUS)) (zip PANELISTS PANEL_ANGLES_DEG)"

definition SEATING :: "persona_id \<Rightarrow> seat option" where
  "SEATING = (map_of panelEntries)(MODERATOR_ID \<mapsto> seatAt 0 MODERATOR_RADIUS)"

definition seat_of :: "persona_id \<Rightarrow> seat" where
  "seat_of p = the (SEATING p)"

text \<open>What the module checks when it is loaded; it throws where one fails.\<close>

definition angles_match :: bool where
  "angles_match \<longleftrightarrow> length PANEL_ANGLES_DEG = length PANELISTS"

definition everyone_seated :: bool where
  "everyone_seated \<longleftrightarrow> list_all (\<lambda>p. SEATING p \<noteq> None) PERSONA_IDS"

lemma seating_loads: angles_match everyone_seated
  by (simp_all add: angles_match_def everyone_seated_def PANEL_ANGLES_DEG_def PANELISTS_def PERSONA_IDS_def
      SEATING_def panelEntries_def MODERATOR_ID_def)

section \<open>The camera\<close>

record camera_target =
  ct_lookAt :: point
  ct_distance :: real

definition COUNCIL_LOOK :: point where "COUNCIL_LOOK = (0, 0.9, 0)"
definition COUNCIL_DISTANCE :: real where "COUNCIL_DISTANCE = 8.4"
definition FOCUS_HEIGHT :: real where "FOCUS_HEIGHT = HEAD_LABEL_HEIGHT - 0.9"
definition FOCUS_DISTANCE :: real where "FOCUS_DISTANCE = 6.2"

definition focusSeat :: "persona_id \<Rightarrow> camera_target" where
  "focusSeat p = (case seat_position (seat_of p) of (x, _, z) \<Rightarrow>
     \<lparr>ct_lookAt = (x, FOCUS_HEIGHT, z), ct_distance = FOCUS_DISTANCE\<rparr>)"

definition cameraTargetFor :: "debate_state \<Rightarrow> camera_target" where
  "cameraTargetFor s =
    (if phase s \<in> VERDICT_PHASES then focusSeat MODERATOR_ID
     else if phase s = PhDebating \<and> length (activeSpeakers s) = 1 then focusSeat (hd (activeSpeakers s))
     else \<lparr>ct_lookAt = COUNCIL_LOOK, ct_distance = COUNCIL_DISTANCE\<rparr>)"

section \<open>Robot shapes\<close>

datatype head_kind = Faceted | Round | Visored | Diamond | Centered

record robot_shape =
  rs_head :: head_kind
  rs_headTiltBias :: real
  rs_antennaOffsetX :: real
  rs_roughness :: real
  rs_metalness :: real
  rs_torsoScale :: real
  rs_gavel :: bool
  rs_mortarboard :: bool

fun shapeFor :: "persona_id \<Rightarrow> robot_shape" where
  "shapeFor Skeptic = \<lparr>rs_head = Faceted, rs_headTiltBias = 0, rs_antennaOffsetX = 0, rs_roughness = 0.2,
     rs_metalness = 0.65, rs_torsoScale = 0.88, rs_gavel = False, rs_mortarboard = False\<rparr>"
| "shapeFor Optimist = \<lparr>rs_head = Round, rs_headTiltBias = 0, rs_antennaOffsetX = 0, rs_roughness = 0.7,
     rs_metalness = 0.15, rs_torsoScale = 1.14, rs_gavel = False, rs_mortarboard = False\<rparr>"
| "shapeFor Expert = \<lparr>rs_head = Visored, rs_headTiltBias = 0, rs_antennaOffsetX = 0, rs_roughness = 0.45,
     rs_metalness = 0.4, rs_torsoScale = 1.0, rs_gavel = False, rs_mortarboard = True\<rparr>"
| "shapeFor Contrarian = \<lparr>rs_head = Diamond, rs_headTiltBias = 0.22, rs_antennaOffsetX = 0.14, rs_roughness = 0.5,
     rs_metalness = 0.35, rs_torsoScale = 1.0, rs_gavel = False, rs_mortarboard = False\<rparr>"
| "shapeFor Moderator = \<lparr>rs_head = Centered, rs_headTiltBias = 0, rs_antennaOffsetX = 0, rs_roughness = 0.35,
     rs_metalness = 0.5, rs_torsoScale = 1.05, rs_gavel = True, rs_mortarboard = False\<rparr>"

section \<open>The scene\<close>

record robot_props =
  rp_id :: persona_id
  rp_accent :: string
  rp_position :: point
  rp_rotationY :: real
  rp_scale :: real
  rp_visual :: "robot_visual option"
  rp_shape :: "robot_shape option"
  rp_reducedMotion :: bool

record persona_label =
  pl_bubble :: persona_bubble
  pl_position :: point
  pl_accent :: string

definition MODERATOR_SCALE :: real where "MODERATOR_SCALE = 1.12"
definition MODERATOR_LABEL_LIFT :: real where "MODERATOR_LABEL_LIFT = 0.25"

definition labelPosition :: "persona_id \<Rightarrow> point" where
  "labelPosition p = (case seat_position (seat_of p) of (x, _, z) \<Rightarrow>
     (x, HEAD_LABEL_HEIGHT + (if p = MODERATOR_ID then MODERATOR_LABEL_LIFT else 0), z))"

text \<open>One group per persona: its robot, and its label when there is a bubble for it.\<close>

definition StageScene ::
    "robot_visual list \<Rightarrow> persona_bubble list \<Rightarrow> bool \<Rightarrow> (robot_props \<times> persona_label option) list" where
  "StageScene visuals bubbles still =
    (let byId = map_of (rev (map (\<lambda>v. (rv_id v, v)) visuals));
         bubbleById = map_of (rev (map (\<lambda>b. (pb_id b, b)) bubbles))
     in map (\<lambda>p.
          (\<lparr>rp_id = p, rp_accent = accentOf p, rp_position = seat_position (seat_of p),
            rp_rotationY = seat_rotationY (seat_of p),
            rp_scale = (if p = MODERATOR_ID then MODERATOR_SCALE else 1),
            rp_visual = byId p, rp_shape = None, rp_reducedMotion = still\<rparr>,
           map_option (\<lambda>b. \<lparr>pl_bubble = b, pl_position = labelPosition p, pl_accent = accentOf p\<rparr>) (bubbleById p)))
        PERSONA_IDS)"

section \<open>One robot\<close>

definition RING_BASE :: real where "RING_BASE = 1.8"
definition CHEST_BASE :: real where "CHEST_BASE = 2"
definition VISOR_BASE :: real where "VISOR_BASE = 2.6"
definition TIP_BASE :: real where "TIP_BASE = 2.4"
definition PULSE_DEPTH :: real where "PULSE_DEPTH = 0.35"
definition LAMBDA :: real where "LAMBDA = 4"
definition FLASH_PEAK :: real where "FLASH_PEAK = 1.2"
definition FLASH_LAMBDA :: real where "FLASH_LAMBDA = 3"

definition restingVisual :: "persona_id \<Rightarrow> robot_visual" where
  "restingVisual p = \<lparr>rv_id = p, rv_status = RobotIdle, rv_speaking = False, rv_dimmed = False, rv_round = 0\<rparr>"

text \<open>The refs the frame loop writes to, \<open>None\<close> before React has attached one; of an object the fields the
  loop writes. \<open>head_tilt\<close> has the angles about z and x. \<open>damp\<close> is \<open>MathUtils.damp\<close> of three.js: current
  value, target, rate, elapsed seconds.\<close>

record robot_refs =
  bob_y :: "real option"
  head_tilt :: "(real \<times> real) option"
  spot :: "real option"
  ring :: "real option"
  chest :: "real option"
  visor :: "real option"
  tip :: "real option"
  prevStatus :: robot_status
  flashLevel :: real

type_synonym damp = "real \<Rightarrow> real \<Rightarrow> real \<Rightarrow> real \<Rightarrow> real"

definition flash_fires :: "robot_props \<Rightarrow> robot_visual \<Rightarrow> robot_refs \<Rightarrow> bool" where
  "flash_fires ps v a \<longleftrightarrow>
     rp_id ps = MODERATOR_ID \<and> \<not> rp_reducedMotion ps \<and> prevStatus a \<noteq> RobotDone \<and> rv_status v = RobotDone"

definition visual_shown :: "robot_props \<Rightarrow> robot_visual" where
  "visual_shown ps = (case rp_visual ps of Some v \<Rightarrow> v | None \<Rightarrow> restingVisual (rp_id ps))"

definition easeEmissive :: "damp \<Rightarrow> real option \<Rightarrow> real \<Rightarrow> real \<Rightarrow> real option" where
  "easeEmissive damp material target dt =
    (case material of None \<Rightarrow> None | Some emissiveIntensity \<Rightarrow> Some (damp emissiveIntensity target LAMBDA dt))"

definition robot_frame :: "damp \<Rightarrow> robot_props \<Rightarrow> real \<Rightarrow> real \<Rightarrow> robot_refs \<Rightarrow> robot_refs" where
  "robot_frame damp ps clock delta a =
    (let v = visual_shown ps;
         t = targetsFor v (rp_reducedMotion ps);
         dt = min delta 0.1;
         pulse = (if rv_speaking v then 1 + PULSE_DEPTH * sin (clock * rt_speed t * 2) else 1);
         flash = damp (if flash_fires ps v a then FLASH_PEAK else flashLevel a) 0 FLASH_LAMBDA dt;
         glowPulse = pulse + flash
     in \<lparr>bob_y = map_option (\<lambda>y. damp y (rt_bob t * sin (clock * rt_speed t)) LAMBDA dt) (bob_y a),
         head_tilt = map_option (\<lambda>(z, x).
           (damp z (rt_sway t * sin (clock * rt_speed t * 0.9)) LAMBDA dt,
            damp x (rt_sway t * 0.5 * sin (clock * rt_speed t * 1.3)) LAMBDA dt)) (head_tilt a),
         spot = map_option (\<lambda>i. damp i (rt_light t * glowPulse) LAMBDA dt) (spot a),
         ring = easeEmissive damp (ring a) (RING_BASE * rt_emissive t * glowPulse) dt,
         chest = easeEmissive damp (chest a) (CHEST_BASE * rt_emissive t * glowPulse) dt,
         visor = easeEmissive damp (visor a) (VISOR_BASE * rt_emissive t * glowPulse) dt,
         tip = easeEmissive damp (tip a) (TIP_BASE * rt_emissive t * glowPulse) dt,
         prevStatus = rv_status v, flashLevel = flash\<rparr>)"

definition robot_shape_shown :: "robot_props \<Rightarrow> robot_shape" where
  "robot_shape_shown ps = (case rp_shape ps of Some sh \<Rightarrow> sh | None \<Rightarrow> shapeFor (rp_id ps))"

text \<open>The comparison given to \<open>memo\<close>. \<open>===\<close> on positions and shapes compares references, which
  is at least as fine as the equality of values used here.\<close>

fun visualEqual :: "robot_visual option \<Rightarrow> robot_visual option \<Rightarrow> bool" where
  "visualEqual None None = True"
| "visualEqual (Some a) (Some b) =
     (a = b \<or> (rv_status a = rv_status b \<and> rv_speaking a = rv_speaking b \<and> rv_dimmed a = rv_dimmed b \<and> rv_round a = rv_round b))"
| "visualEqual _ _ = False"

definition propsEqual :: "robot_props \<Rightarrow> robot_props \<Rightarrow> bool" where
  "propsEqual a b \<longleftrightarrow>
     rp_id a = rp_id b \<and> rp_accent a = rp_accent b \<and> rp_rotationY a = rp_rotationY b
   \<and> rp_scale a = rp_scale b \<and> rp_position a = rp_position b \<and> rp_shape a = rp_shape b
   \<and> rp_reducedMotion a = rp_reducedMotion b \<and> visualEqual (rp_visual a) (rp_visual b)"

text \<open>\<open>memo\<close>: the props the mounted robot goes on with.\<close>

definition memo_props :: "robot_props \<Rightarrow> robot_props \<Rightarrow> robot_props" where
  "memo_props old new = (if propsEqual old new then old else new)"

section \<open>Who talks\<close>

definition talking :: "debate_state \<Rightarrow> persona_id \<Rightarrow> bool" where
  "talking s p \<longleftrightarrow> rv_speaking (visualOf s p)"

lemma talking_iff:
  "talking s p \<longleftrightarrow> (if p = Moderator then phase s = PhModerating else phase s = PhDebating \<and> p \<in> set (activeSpeakers s))"
  by (cases "phase s") (auto simp: talking_def visualOf_def Let_def moderatorStatus_def panelistStatus_def)

text \<open>While panelists debate, the moderator is not on the roster.\<close>

definition roster_ok :: "debate_state \<Rightarrow> bool" where
  "roster_ok s \<longleftrightarrow> (phase s = PhDebating \<longrightarrow> Moderator \<notin> set (activeSpeakers s))"

lemma sync_roster:
  assumes "player_inv p" "sync p s"
  shows "roster_ok s"
proof (cases "active p")
  case None
  with assms show ?thesis
    by (auto simp: roster_ok_def sync_def speakers_ok_def player_inv_def pending_ok_def split: option.splits)
next
  case (Some a)
  with assms(1) have "turn_ok p a" by (simp add: player_inv_def)
  then have "at_persona a = Moderator \<Longrightarrow> isModerator a" "cursor p \<noteq> CurDone"
    by (auto simp: turn_ok_def nat_less_iff split: if_splits)
  with Some assms(2) show ?thesis
    by (auto simp: roster_ok_def sync_def speakers_ok_def phase_ok_def split: if_splits)
qed

lemma roster_step:
  assumes inv: "session_inv s" and ok: "roster_ok (se_state s)" and zod: "zod_documented sp"
    and step: "session_step jp sp s e s'"
  shows "roster_ok (se_state s')"
proof (cases "sync (se_player s') (se_state s')")
  case True
  with session_inv_step [OF inv zod step] show ?thesis
    by (intro sync_roster) (auto simp: session_inv_def good_player_def)
next
  case False
  have frozen: "se_state s' = se_state s" if "e \<in> {GoToLive, Timer} \<or> (\<exists>n x. e = Socket n x)"
  proof (cases "sync (se_player s) (se_state s)")
    case True
    from live_step [OF inv True zod step that] False show ?thesis by (simp add: live_inv_def)
  next
    case False
    with inv have "idle s" by (simp add: session_inv_def idle_def)
    from idle_step [OF inv this step] that show ?thesis by auto
  qed
  show ?thesis
  proof (cases e)
    case (Ask q r)
    with step ok False sync_reset_connecting show ?thesis
      by (cases "buildAsk q r") (auto simp: ask_rejected ask_accepted roster_ok_def)
  qed (use step ok frozen in \<open>auto simp: stop_eq unmount_eq setRate_callback_def Let_def roster_ok_def TERMINAL_def\<close>)
qed

lemma session_roster:
  "session_run jp sp s es s' \<Longrightarrow> session_inv s \<Longrightarrow> zod_documented sp \<Longrightarrow> roster_ok (se_state s) \<Longrightarrow> roster_ok (se_state s')"
  by (induction rule: session_run.induct) (auto dest: roster_step session_inv_step)

lemma roster_init: "roster_ok (se_state (useDebate m))"
  by (simp add: roster_ok_def useDebate_def initialState_def)

section \<open>Where everybody sits\<close>

definition sq_dist :: "point \<Rightarrow> point \<Rightarrow> real" where
  "sq_dist p q = (case (p, q) of ((x, y, z), (x', y', z')) \<Rightarrow> (x - x')\<^sup>2 + (y - y')\<^sup>2 + (z - z')\<^sup>2)"

lemma sq_dist_seats:
  "sq_dist (seat_position (seatAt d R)) (seat_position (seatAt d' R')) = R\<^sup>2 + R'\<^sup>2 - 2 * R * R' * cos ((d - d') * DEG)"
proof -
  have "(- R * sin a + R' * sin b)\<^sup>2 + (- R * cos a + R' * cos b)\<^sup>2
      = R\<^sup>2 * ((sin a)\<^sup>2 + (cos a)\<^sup>2) + R'\<^sup>2 * ((sin b)\<^sup>2 + (cos b)\<^sup>2) - 2 * R * R' * (cos a * cos b + sin a * sin b)" for a b
    by algebra
  moreover have "cos (d * DEG) * cos (d' * DEG) + sin (d * DEG) * sin (d' * DEG) = cos ((d - d') * DEG)"
    by (simp add: cos_diff left_diff_distrib)
  ultimately show ?thesis by (simp add: sq_dist_def seatAt_def Let_def)
qed

lemma cos_apart:
  assumes "30 \<le> \<bar>d\<bar>" "\<bar>d\<bar> \<le> 180"
  shows "cos (d * DEG) \<le> 0.867"
proof -
  have "cos (d * DEG) = cos (\<bar>d\<bar> * DEG)" by (simp add: abs_if)
  also have "\<dots> \<le> cos (30 * DEG)"
    using assms by (intro cos_monotone_0_pi_le) (auto simp: DEG_def field_simps)
  also have "30 * DEG = pi / 6" by (simp add: DEG_def)
  also have "cos (pi / 6) = sqrt 3 / 2" by (rule cos_30)
  also have "sqrt 3 \<le> 1.734" by (rule real_le_lsqrt) (simp_all add: power2_eq_square)
  then have "sqrt 3 / 2 \<le> 0.867" by simp
  finally show ?thesis .
qed

lemma seat_of_simps:
  "seat_of Skeptic = seatAt (- 70) PANEL_RADIUS" "seat_of Optimist = seatAt (- 35) PANEL_RADIUS"
  "seat_of Expert = seatAt 35 PANEL_RADIUS" "seat_of Contrarian = seatAt 70 PANEL_RADIUS"
  "seat_of Moderator = seatAt 0 MODERATOR_RADIUS"
  by (simp_all add: seat_of_def SEATING_def panelEntries_def PANELISTS_def PANEL_ANGLES_DEG_def)

text \<open>Radius of the widest part of a robot, the bottom of its pedestal, before scaling.\<close>

definition PEDESTAL_RADIUS :: real where "PEDESTAL_RADIUS = 0.62"

definition robot_scale :: "persona_id \<Rightarrow> real" where
  "robot_scale p = (if p = MODERATOR_ID then MODERATOR_SCALE else 1)"

fun seat_angle :: "persona_id \<Rightarrow> real" where
  "seat_angle Skeptic = - 70"
| "seat_angle Optimist = - 35"
| "seat_angle Expert = 35"
| "seat_angle Contrarian = 70"
| "seat_angle Moderator = 0"

definition seat_radius :: "persona_id \<Rightarrow> real" where
  "seat_radius p = (if p = Moderator then MODERATOR_RADIUS else PANEL_RADIUS)"

lemma seat_of_eq: "seat_of p = seatAt (seat_angle p) (seat_radius p)"
  by (cases p) (simp_all add: seat_of_simps seat_radius_def)

lemma seat_angles_apart: "p \<noteq> q \<Longrightarrow> 30 \<le> \<bar>seat_angle p - seat_angle q\<bar> \<and> \<bar>seat_angle p - seat_angle q\<bar> \<le> 180"
  by (cases p; cases q) simp_all

lemma seats_apart:
  assumes "p \<noteq> q"
  shows "(PEDESTAL_RADIUS * (robot_scale p + robot_scale q))\<^sup>2 < sq_dist (seat_position (seat_of p)) (seat_position (seat_of q))"
proof -
  let ?R = "seat_radius p" let ?R' = "seat_radius q"
  have "cos ((seat_angle p - seat_angle q) * DEG) \<le> 0.867" using seat_angles_apart [OF assms] by (intro cos_apart) auto
  moreover have "0 \<le> 2 * ?R * ?R'" by (simp add: seat_radius_def MODERATOR_RADIUS_def PANEL_RADIUS_def)
  ultimately have "2 * ?R * ?R' * cos ((seat_angle p - seat_angle q) * DEG) \<le> 2 * ?R * ?R' * 0.867"
    by (intro mult_left_mono)
  then have "?R\<^sup>2 + ?R'\<^sup>2 - 2 * ?R * ?R' * 0.867 \<le> sq_dist (seat_position (seat_of p)) (seat_position (seat_of q))"
    by (simp add: seat_of_eq sq_dist_seats)
  moreover have "(PEDESTAL_RADIUS * (robot_scale p + robot_scale q))\<^sup>2 < ?R\<^sup>2 + ?R'\<^sup>2 - 2 * ?R * ?R' * 0.867"
    using assms by (cases "p = Moderator"; cases "q = Moderator")
      (simp_all add: seat_radius_def robot_scale_def MODERATOR_SCALE_def PEDESTAL_RADIUS_def MODERATOR_RADIUS_def
        PANEL_RADIUS_def power2_eq_square)
  ultimately show ?thesis by linarith
qed

section \<open>The flash\<close>

fun run_frames :: "damp \<Rightarrow> robot_refs \<Rightarrow> (robot_props \<times> real \<times> real) list \<Rightarrow> robot_refs" where
  "run_frames damp a [] = a"
| "run_frames damp a ((ps, clock, delta) # fs) = run_frames damp (robot_frame damp ps clock delta a) fs"

fun flashes :: "damp \<Rightarrow> robot_refs \<Rightarrow> (robot_props \<times> real \<times> real) list \<Rightarrow> nat" where
  "flashes damp a [] = 0"
| "flashes damp a ((ps, clock, delta) # fs) =
     (if flash_fires ps (visual_shown ps) a then 1 else 0) + flashes damp (robot_frame damp ps clock delta a) fs"

lemma prevStatus_frame [simp]: "prevStatus (robot_frame damp ps clock delta a) = rv_status (visual_shown ps)"
  by (simp add: robot_frame_def Let_def)

lemma flashes_rises:
  "\<forall>(ps, _) \<in> set fs. rp_id ps = Moderator \<and> \<not> rp_reducedMotion ps \<Longrightarrow>
   flashes damp a fs = rises (\<lambda>st. st = RobotDone) (prevStatus a) (map (\<lambda>(ps, _). rv_status (visual_shown ps)) fs)"
  by (induction damp a fs rule: flashes.induct) (auto simp: flash_fires_def rising_def)

lemma flashes_still: "\<forall>(ps, _) \<in> set fs. rp_id ps \<noteq> Moderator \<or> rp_reducedMotion ps \<Longrightarrow> flashes damp a fs = 0"
  by (induction damp a fs rule: flashes.induct) (auto simp: flash_fires_def)

section \<open>The lights\<close>

text \<open>\<open>MathUtils.damp\<close> as three.js documents it: an interpolation towards the target that does not depend on
  the frame rate. A robot's light is mounted dark, and no flash is left over.\<close>

definition damp_documented :: "damp \<Rightarrow> bool" where
  "damp_documented damp \<longleftrightarrow> (\<forall>x y l dt. damp x y l dt = x + (1 - exp (- (l * dt))) * (y - x))"

definition fresh_robot :: "robot_refs \<Rightarrow> bool" where
  "fresh_robot a \<longleftrightarrow> spot a = Some 0 \<and> flashLevel a = 0"

text \<open>Frames of one robot, and the time they advance its animation by.\<close>

definition frames_of :: "persona_id \<Rightarrow> (robot_props \<times> real \<times> real) list \<Rightarrow> bool" where
  "frames_of p fs \<longleftrightarrow> (\<forall>(ps, clock, delta) \<in> set fs. rp_id ps = p \<and> 0 \<le> delta)"

definition frame_time :: "(robot_props \<times> real \<times> real) list \<Rightarrow> real" where
  "frame_time fs = sum_list (map (\<lambda>(ps, clock, delta). min delta 0.1) fs)"

definition pulse_at :: "robot_props \<Rightarrow> real \<Rightarrow> real" where
  "pulse_at ps clock =
    (if rv_speaking (visual_shown ps)
     then 1 + 0.35 * sin (clock * rt_speed (targetsFor (visual_shown ps) (rp_reducedMotion ps)) * 2) else 1)"

definition light_goal :: "damp \<Rightarrow> robot_props \<Rightarrow> real \<Rightarrow> real \<Rightarrow> robot_refs \<Rightarrow> real" where
  "light_goal damp ps clock delta a =
    rt_light (targetsFor (visual_shown ps) (rp_reducedMotion ps)) *
     (pulse_at ps clock + flashLevel (robot_frame damp ps clock delta a))"

definition lit :: "persona_id \<Rightarrow> robot_refs \<Rightarrow> bool" where
  "lit p a \<longleftrightarrow> (\<exists>i. spot a = Some i \<and> 0 \<le> i \<and> i \<le> 7) \<and> 0 \<le> flashLevel a \<and> flashLevel a \<le> 1.2
    \<and> (p \<noteq> Moderator \<longrightarrow> flashLevel a = 0)"

lemma spot_frame:
  assumes "damp_documented damp" "spot a = Some i"
  shows "spot (robot_frame damp ps clock delta a) =
    Some (i + (1 - exp (- (4 * min delta 0.1))) * (light_goal damp ps clock delta a - i))"
  using assms by (simp add: robot_frame_def light_goal_def pulse_at_def damp_documented_def Let_def LAMBDA_def PULSE_DEPTH_def)

lemma eased_between:
  assumes "l \<le> x" "x \<le> u" "l \<le> y" "y \<le> u" "0 \<le> (d::real)"
  shows "l \<le> x + (1 - exp (- d)) * (y - x)" "x + (1 - exp (- d)) * (y - x) \<le> (u::real)"
proof -
  have k: "0 \<le> 1 - exp (- d)" "0 \<le> exp (- d)" using assms(5) by simp_all
  have eq: "x + (1 - exp (- d)) * (y - x) = (1 - exp (- d)) * y + exp (- d) * x" by (simp add: algebra_simps)
  have "(1 - exp (- d)) * l + exp (- d) * l \<le> (1 - exp (- d)) * y + exp (- d) * x"
    using assms k by (intro add_mono mult_left_mono)
  then show "l \<le> x + (1 - exp (- d)) * (y - x)" unfolding eq by (simp add: algebra_simps)
  have "(1 - exp (- d)) * y + exp (- d) * x \<le> (1 - exp (- d)) * u + exp (- d) * u"
    using assms k by (intro add_mono mult_left_mono)
  then show "x + (1 - exp (- d)) * (y - x) \<le> u" unfolding eq by (simp add: algebra_simps)
qed

lemma flash_frame:
  assumes "damp_documented damp" "lit p a" "rp_id ps = p" "0 \<le> delta"
  shows "0 \<le> flashLevel (robot_frame damp ps clock delta a)" "flashLevel (robot_frame damp ps clock delta a) \<le> 1.2"
    and "p \<noteq> Moderator \<Longrightarrow> flashLevel (robot_frame damp ps clock delta a) = 0"
proof -
  let ?x = "if flash_fires ps (visual_shown ps) a then 1.2 else flashLevel a"
  have eq: "flashLevel (robot_frame damp ps clock delta a) = ?x + (1 - exp (- (3 * min delta 0.1))) * (0 - ?x)"
    using assms(1) by (simp add: robot_frame_def damp_documented_def Let_def FLASH_PEAK_def FLASH_LAMBDA_def)
  have x: "0 \<le> ?x" "?x \<le> 1.2" using assms(2) by (simp_all add: lit_def)
  show "0 \<le> flashLevel (robot_frame damp ps clock delta a)"
    unfolding eq using x assms(4) by (intro eased_between(1) [of 0 _ "1.2"]) auto
  show "flashLevel (robot_frame damp ps clock delta a) \<le> 1.2"
    unfolding eq using x assms(4) by (intro eased_between(2) [of 0 _ "1.2"]) auto
  show "flashLevel (robot_frame damp ps clock delta a) = 0" if "p \<noteq> Moderator"
    unfolding eq using that assms(2,3) by (simp add: lit_def flash_fires_def MODERATOR_ID_def)
qed

lemma pulse_between: "0.65 \<le> pulse_at ps clock" "pulse_at ps clock \<le> 1.35"
proof -
  have "13 / 20 \<le> 1 + 7 / 20 * sin x" "1 + 7 / 20 * sin x \<le> 27 / 20" for x :: real
    using sin_ge_minus_one [of x] sin_le_one [of x] by linarith+
  from this [where x = "clock * rt_speed (targetsFor (visual_shown ps) (rp_reducedMotion ps)) * 2"]
  show "0.65 \<le> pulse_at ps clock" "pulse_at ps clock \<le> 1.35" by (simp_all add: pulse_at_def)
qed

lemma light_range: "0 \<le> rt_light (targetsFor v still)" "rt_light (targetsFor v still) \<le> 2.6"
  by (cases "rv_status v"; simp add: targetsFor_def Let_def DIM_LIGHT_def)+

lemma lit_frame:
  assumes "damp_documented damp" "lit p a" "rp_id ps = p" "0 \<le> delta"
  shows "lit p (robot_frame damp ps clock delta a)"
proof -
  note fl = flash_frame [OF assms, where clock = clock]
  let ?g = "pulse_at ps clock + flashLevel (robot_frame damp ps clock delta a)"
  have g: "0 \<le> ?g" "?g \<le> 2.55" using fl(1,2) pulse_between [of ps clock] by simp_all
  have "light_goal damp ps clock delta a = rt_light (targetsFor (visual_shown ps) (rp_reducedMotion ps)) * ?g"
    by (simp add: light_goal_def)
  moreover have "0 \<le> rt_light (targetsFor (visual_shown ps) (rp_reducedMotion ps)) * ?g" using g light_range by simp
  moreover have "rt_light (targetsFor (visual_shown ps) (rp_reducedMotion ps)) * ?g \<le> 2.6 * 2.55"
    using g light_range by (intro mult_mono) auto
  ultimately have goal: "0 \<le> light_goal damp ps clock delta a" "light_goal damp ps clock delta a \<le> 7" by simp_all
  obtain i where i: "spot a = Some i" "0 \<le> i" "i \<le> 7" using assms(2) by (auto simp: lit_def)
  show ?thesis
    using eased_between [of 0 i 7 "light_goal damp ps clock delta a" "4 * min delta 0.1"] i goal assms(4) fl
    by (simp add: lit_def spot_frame [OF assms(1) i(1)])
qed

lemma lit_frames: "damp_documented damp \<Longrightarrow> lit p a \<Longrightarrow> frames_of p fs \<Longrightarrow> lit p (run_frames damp a fs)"
  by (induction damp a fs rule: run_frames.induct) (auto simp: frames_of_def lit_frame)

lemma lit_fresh: "fresh_robot a \<Longrightarrow> lit p a"
  by (simp add: fresh_robot_def lit_def)

text \<open>Towards a goal that stays above, or below, a level, the distance from that level dies away.\<close>

lemma light_rises:
  assumes "damp_documented damp" "frames_of p fs" "lit p a" "spot a = Some i"
    and "\<And>ps clock delta b. (ps, clock, delta) \<in> set fs \<Longrightarrow> lit p b \<Longrightarrow> L \<le> light_goal damp ps clock delta b"
  shows "\<exists>j. spot (run_frames damp a fs) = Some j \<and> L - j \<le> exp (- 4 * frame_time fs) * (L - i)"
  using assms(2-5)
proof (induction fs arbitrary: a i)
  case (Cons f fs)
  obtain ps clock delta where f: "f = (ps, clock, delta)" by (cases f)
  let ?d = "min delta 0.1" let ?j = "i + (1 - exp (- (4 * ?d))) * (light_goal damp ps clock delta a - i)"
  from Cons.prems(1) have d: "rp_id ps = p" "0 \<le> delta" "frames_of p fs" by (auto simp: frames_of_def f)
  note lit = lit_frame [OF assms(1) Cons.prems(2) d(1,2), where clock = clock]
  obtain k where k: "spot (run_frames damp a (f # fs)) = Some k" "L - k \<le> exp (- 4 * frame_time fs) * (L - ?j)"
    using Cons.IH [OF d(3) lit spot_frame [OF assms(1) Cons.prems(3)]] Cons.prems(4) by (auto simp: f)
  have "L \<le> light_goal damp ps clock delta a" using Cons.prems(2,4) by (simp add: f)
  then have "(1 - exp (- (4 * ?d))) * L \<le> (1 - exp (- (4 * ?d))) * light_goal damp ps clock delta a"
    using d(2) by (intro mult_left_mono) simp_all
  then have "L - ?j \<le> exp (- (4 * ?d)) * (L - i)" by (simp add: algebra_simps)
  then have "exp (- 4 * frame_time fs) * (L - ?j) \<le> exp (- 4 * frame_time fs) * (exp (- (4 * ?d)) * (L - i))"
    by (intro mult_left_mono) simp_all
  also have "\<dots> = exp (- 4 * frame_time (f # fs)) * (L - i)"
    by (simp add: frame_time_def f exp_add [symmetric] algebra_simps)
  finally show ?case using k by auto
qed (simp add: frame_time_def)

lemma light_falls:
  assumes "damp_documented damp" "frames_of p fs" "lit p a" "spot a = Some i"
    and "\<And>ps clock delta b. (ps, clock, delta) \<in> set fs \<Longrightarrow> lit p b \<Longrightarrow> light_goal damp ps clock delta b \<le> U"
  shows "\<exists>j. spot (run_frames damp a fs) = Some j \<and> j - U \<le> exp (- 4 * frame_time fs) * (i - U)"
  using assms(2-5)
proof (induction fs arbitrary: a i)
  case (Cons f fs)
  obtain ps clock delta where f: "f = (ps, clock, delta)" by (cases f)
  let ?d = "min delta 0.1" let ?j = "i + (1 - exp (- (4 * ?d))) * (light_goal damp ps clock delta a - i)"
  from Cons.prems(1) have d: "rp_id ps = p" "0 \<le> delta" "frames_of p fs" by (auto simp: frames_of_def f)
  note lit = lit_frame [OF assms(1) Cons.prems(2) d(1,2), where clock = clock]
  obtain k where k: "spot (run_frames damp a (f # fs)) = Some k" "k - U \<le> exp (- 4 * frame_time fs) * (?j - U)"
    using Cons.IH [OF d(3) lit spot_frame [OF assms(1) Cons.prems(3)]] Cons.prems(4) by (auto simp: f)
  have "light_goal damp ps clock delta a \<le> U" using Cons.prems(2,4) by (simp add: f)
  then have "(1 - exp (- (4 * ?d))) * light_goal damp ps clock delta a \<le> (1 - exp (- (4 * ?d))) * U"
    using d(2) by (intro mult_left_mono) simp_all
  then have "?j - U \<le> exp (- (4 * ?d)) * (i - U)" by (simp add: algebra_simps)
  then have "exp (- 4 * frame_time fs) * (?j - U) \<le> exp (- 4 * frame_time fs) * (exp (- (4 * ?d)) * (i - U))"
    by (intro mult_left_mono) simp_all
  also have "\<dots> = exp (- 4 * frame_time (f # fs)) * (i - U)"
    by (simp add: frame_time_def f exp_add [symmetric] algebra_simps)
  finally show ?case using k by auto
qed (simp add: frame_time_def)

text \<open>The scene hands each robot what the state says of its persona.\<close>

definition scene_frames :: "debate_state \<Rightarrow> bool \<Rightarrow> (robot_props \<times> real \<times> real) list \<Rightarrow> bool" where
  "scene_frames st still fs \<longleftrightarrow> (\<forall>(ps, clock, delta) \<in> set fs.
     ps \<in> fst ` set (StageScene (robotVisualState st) (personaBubbles st) still))"

lemma scene_props:
  assumes "ps \<in> fst ` set (StageScene (robotVisualState st) bubbles still)"
  shows "visual_shown ps = visualOf st (rp_id ps)" "rp_reducedMotion ps = still"
  using assms
  by (auto simp: StageScene_def Let_def visual_shown_def robotVisualState_def PERSONA_IDS_def visualOf_def)

lemma scene_frame:
  assumes "frames_of p fs" "scene_frames st still fs" "(ps, clock, delta) \<in> set fs"
  shows "rp_id ps = p" "0 \<le> delta" "visual_shown ps = visualOf st p"
proof -
  show id: "rp_id ps = p" and "0 \<le> delta" using assms(1,3) by (auto simp: frames_of_def)
  from assms(2,3) have "ps \<in> fst ` set (StageScene (robotVisualState st) (personaBubbles st) still)"
    unfolding scene_frames_def by blast
  from scene_props(1) [OF this] show "visual_shown ps = visualOf st p" unfolding id .
qed

lemma talker_goal:
  assumes "damp_documented damp" "talking st p" "lit p b" "rp_id ps = p" "0 \<le> delta"
    and "visual_shown ps = visualOf st p"
  shows "1.69 \<le> light_goal damp ps clock delta b"
proof -
  have v: "rt_light (targetsFor (visualOf st p) still) = 2.6" "rv_speaking (visualOf st p)" for still
    using assms(2)
    by (cases "phase st"; cases "p = Moderator";
      auto simp: talking_def visualOf_def Let_def targetsFor_def VERDICT_PHASES_def moderatorStatus_def panelistStatus_def split: if_splits)+
  have "0.65 \<le> pulse_at ps clock + flashLevel (robot_frame damp ps clock delta b)"
    using flash_frame(1) [OF assms(1,3-5), of clock] pulse_between(1) [of ps clock] by linarith
  then show ?thesis by (simp add: light_goal_def assms(6) v)
qed

lemma listener_goal:
  assumes "damp_documented damp" "talking st p" "\<not> talking st q" "lit q b" "rp_id ps = q" "0 \<le> delta"
    and "visual_shown ps = visualOf st q"
  shows "light_goal damp ps clock delta b \<le> 1"
proof -
  note fl = flash_frame [OF assms(1,4-6), where clock = clock]
  have quiet: "\<not> rv_speaking (visualOf st q)" using assms(3) by (simp add: talking_def)
  then have steady: "pulse_at ps clock = 1" by (simp add: pulse_at_def assms(7))
  show ?thesis
  proof (cases "q = Moderator")
    case True
    with assms(2,3) have "phase st = PhDebating" by (auto simp: talking_iff split: if_splits)
    with True have dark: "rt_light (targetsFor (visualOf st q) (rp_reducedMotion ps)) = 0.35"
      by (simp add: visualOf_def Let_def moderatorStatus_def targetsFor_def VERDICT_PHASES_def)
    show ?thesis unfolding light_goal_def assms(7) dark steady using fl(2) by simp
  next
    case False
    have "rt_light (targetsFor (visualOf st q) still) \<le> 1" for still
      using quiet by (cases "rv_status (visualOf st q)")
        (auto simp: visualOf_def Let_def targetsFor_def DIM_LIGHT_def)
    with steady fl(3) [OF False] show ?thesis by (simp add: light_goal_def assms(7))
  qed
qed

lemma talker_outshines:
  assumes "damp_documented damp" "talking st p" "\<not> talking st q" "lit p a" "lit q b"
    and "frames_of p fs" "scene_frames st still fs" "1 \<le> frame_time fs"
    and "frames_of q gs" "scene_frames st still gs" "1 \<le> frame_time gs"
  shows "\<exists>i j. spot (run_frames damp a fs) = Some i \<and> spot (run_frames damp b gs) = Some j \<and> j < i"
proof -
  obtain x y where x: "spot a = Some x" "0 \<le> x" and y: "spot b = Some y" "y \<le> 7" using assms(4,5) by (auto simp: lit_def)
  have small: "exp (- 4 * t) \<le> 1 / 16" if "1 \<le> t" for t :: real
  proof -
    have "2 \<le> exp (1::real)" using exp_ge_add_one_self [of 1] by simp
    then have "2 ^ 4 \<le> exp (1::real) ^ 4" by (intro power_mono) simp_all
    also have "\<dots> = exp 4" by (simp add: exp_of_nat_mult [symmetric])
    also have "\<dots> \<le> exp (4 * t)" using that by simp
    finally show ?thesis by (simp add: exp_minus field_simps)
  qed
  have "1.69 \<le> light_goal damp ps clock delta c" if "(ps, clock, delta) \<in> set fs" "lit p c" for ps clock delta c
    using that scene_frame [OF assms(6,7) that(1)] by (intro talker_goal [OF assms(1,2)]) simp_all
  from light_rises [OF assms(1,6,4) x(1) this] obtain i where i: "spot (run_frames damp a fs) = Some i"
    "1.69 - i \<le> exp (- 4 * frame_time fs) * (1.69 - x)" by blast
  have "light_goal damp ps clock delta c \<le> 1" if "(ps, clock, delta) \<in> set gs" "lit q c" for ps clock delta c
    using that scene_frame [OF assms(9,10) that(1)] by (intro listener_goal [OF assms(1-3)]) simp_all
  from light_falls [OF assms(1,9,5) y(1) this] obtain j where j: "spot (run_frames damp b gs) = Some j"
    "j - 1 \<le> exp (- 4 * frame_time gs) * (y - 1)" by blast
  have "exp (- 4 * frame_time fs) * (1.69 - x) \<le> exp (- 4 * frame_time fs) * 1.69" using x(2) by (intro mult_left_mono) simp_all
  also have "\<dots> \<le> 1 / 16 * 1.69" using small [OF assms(8)] by (intro mult_right_mono) simp_all
  finally have "1.69 - i \<le> 1 / 16 * 1.69" using i(2) by linarith
  moreover have "exp (- 4 * frame_time gs) * (y - 1) \<le> exp (- 4 * frame_time gs) * 6" using y(2) by (intro mult_left_mono) simp_all
  then have "exp (- 4 * frame_time gs) * (y - 1) \<le> 1 / 16 * 6" using small [OF assms(11)] by linarith
  with j(2) have "j - 1 \<le> 1 / 16 * 6" by linarith
  ultimately have "j < i" by simp
  with i(1) j(1) show ?thesis by blast
qed

lemma run_frames_append: "run_frames damp a (fs @ gs) = run_frames damp (run_frames damp a fs) gs"
  by (induction damp a fs rule: run_frames.induct) simp_all

definition damp_reference :: damp where
  "damp_reference x y l dt = x + (1 - exp (- (l * dt))) * (y - x)"

lemma scene_has_everybody:
  "\<exists>ps \<in> fst ` set (StageScene visuals bubbles still). rp_id ps = p"
  by (cases p) (auto simp: StageScene_def Let_def PERSONA_IDS_def)

section \<open>Properties\<close>

text \<open>C27. The stage shows who speaks. In every state a session can reach, at most one robot talks;
  the camera frames exactly that robot, and without one it frames the whole council, or the
  moderator once the verdict is in. The envelope of light and glow of the talking robot's status is above
  that of every other, with or without reduced motion. And its light outshines every other's, whatever the
  robots showed before, after a second of frames (of at most 0.1 s each) with that state, wherever the
  pulse, which takes up to 35 percent off it, happens to be; the glow of a robot's rings, which pulses as
  well, is not claimed to.\<close>

theorem stage_shows_the_speaker:
  assumes "zod_documented sp" "session_run jp sp (useDebate m) es s" "damp_documented damp"
  defines "st \<equiv> se_state s"
  shows "(\<forall>p q. talking st p \<and> talking st q \<longrightarrow> p = q)
    \<and> (\<forall>p. talking st p \<longrightarrow> cameraTargetFor st = focusSeat p)
    \<and> ((\<forall>p. \<not> talking st p) \<longrightarrow> cameraTargetFor st =
         (if phase st = PhDone then focusSeat Moderator else \<lparr>ct_lookAt = (0, 0.9, 0), ct_distance = 8.4\<rparr>))
    \<and> (\<forall>p q still. talking st p \<and> q \<noteq> p \<longrightarrow>
         rt_light (targetsFor (visualOf st q) still) < rt_light (targetsFor (visualOf st p) still)
       \<and> rt_emissive (targetsFor (visualOf st q) still) < rt_emissive (targetsFor (visualOf st p) still))
    \<and> (\<forall>p q still a b past past' fs gs. talking st p \<and> q \<noteq> p \<and> fresh_robot a \<and> fresh_robot b
       \<and> frames_of p (past @ fs) \<and> scene_frames st still fs \<and> 1 \<le> frame_time fs
       \<and> frames_of q (past' @ gs) \<and> scene_frames st still gs \<and> 1 \<le> frame_time gs \<longrightarrow>
         (\<exists>i j. spot (run_frames damp a (past @ fs)) = Some i \<and> spot (run_frames damp b (past' @ gs)) = Some j \<and> j < i))"
proof -
  have inv: "session_inv s" using session_run_inv [OF assms(2) session_inv_init assms(1)] .
  then have one: "length (activeSpeakers st) \<le> 1" by (simp add: session_inv_def st_def)
  have ros: "roster_ok st" using session_roster [OF assms(2) session_inv_init assms(1) roster_init] by (simp add: st_def)
  from one consider "activeSpeakers st = []" | p where "activeSpeakers st = [p]"
    by (cases "activeSpeakers st") auto
  then have cam: "(\<forall>p q. talking st p \<and> talking st q \<longrightarrow> p = q)
    \<and> (\<forall>p. talking st p \<longrightarrow> cameraTargetFor st = focusSeat p)
    \<and> ((\<forall>p. \<not> talking st p) \<longrightarrow> cameraTargetFor st =
         (if phase st = PhDone then focusSeat Moderator else \<lparr>ct_lookAt = (0, 0.9, 0), ct_distance = 8.4\<rparr>))"
  proof cases
    case 1
    then show ?thesis
      by (auto simp: talking_iff cameraTargetFor_def VERDICT_PHASES_def COUNCIL_LOOK_def COUNCIL_DISTANCE_def)
  next
    case (2 p)
    with ros have t: "talking st q \<longleftrightarrow> (q = p \<and> phase st = PhDebating) \<or> (q = Moderator \<and> phase st = PhModerating)" for q
      by (auto simp: talking_iff roster_ok_def)
    have c: "cameraTargetFor st = (if phase st \<in> {PhModerating, PhDone} then focusSeat Moderator
        else if phase st = PhDebating then focusSeat p else \<lparr>ct_lookAt = (0, 0.9, 0), ct_distance = 8.4\<rparr>)"
      using 2 by (simp add: cameraTargetFor_def VERDICT_PHASES_def COUNCIL_LOOK_def COUNCIL_DISTANCE_def)
    show ?thesis unfolding t c by (cases "phase st") simp_all
  qed
  moreover have "rt_light (targetsFor (visualOf st q) still) < rt_light (targetsFor (visualOf st p) still)
       \<and> rt_emissive (targetsFor (visualOf st q) still) < rt_emissive (targetsFor (visualOf st p) still)"
    if "talking st p" "q \<noteq> p" for p q still
  proof -
    from that cam have "\<not> talking st q" by blast
    with that(1) show ?thesis
      by (cases "rv_status (visualOf st q)"; cases "phase st"; cases "p = Moderator"; cases "q = Moderator")
        (auto simp: talking_def visualOf_def Let_def targetsFor_def VERDICT_PHASES_def DIM_LIGHT_def DIM_EMISSIVE_def
          moderatorStatus_def panelistStatus_def split: if_splits)
  qed
  moreover have "\<exists>i j. spot (run_frames damp a (past @ fs)) = Some i \<and> spot (run_frames damp b (past' @ gs)) = Some j \<and> j < i"
    if "talking st p" "q \<noteq> p" "fresh_robot a" "fresh_robot b"
      and fs: "frames_of p (past @ fs)" "scene_frames st still fs" "1 \<le> frame_time fs"
      and gs: "frames_of q (past' @ gs)" "scene_frames st still gs" "1 \<le> frame_time gs"
    for p q still a b past past' fs gs
  proof -
    from that(1,2) cam have quiet: "\<not> talking st q" by blast
    have "lit p (run_frames damp a past)" "lit q (run_frames damp b past')"
      using lit_frames [OF assms(3) lit_fresh] that(3,4) fs(1) gs(1) by (auto simp: frames_of_def)
    moreover have "frames_of p fs" "frames_of q gs" using fs(1) gs(1) by (auto simp: frames_of_def)
    ultimately show ?thesis
      using talker_outshines [OF assms(3) that(1) quiet] fs(2,3) gs(2,3) by (simp add: run_frames_append)
  qed
  ultimately show ?thesis by blast
qed

theorem stage_shows_the_speaker_witness:
  "\<exists>jp s. session_run jp zod_reference (useDebate True)
      [Ask (js ''a'') None, Socket 0 (SockMessage (TextFrame [1])), Socket 0 (SockMessage (TextFrame []))] s
    \<and> talking (se_state s) Skeptic \<and> cameraTargetFor (se_state s) = focusSeat Skeptic
    \<and> (\<exists>ps qs a i j. spot (run_frames damp_reference a (replicate 10 (ps, 0, 0.1))) = Some i
         \<and> spot (run_frames damp_reference a (replicate 10 (qs, 0, 0.1))) = Some j \<and> j < i)"
proof -
  let ?t = "TokenEvent Skeptic 1 [104]"
  define jp where "jp f = Some (go_marshal (go_of_event (if f = [] then RoundCompleteEvent 1 else ?t)))" for f :: jstr
  let ?a = "ask (js ''a'') None (useDebate True)"
  let ?b = "on_socket_event jp zod_reference 0 (SockMessage (TextFrame [1])) ?a"
  let ?c = "on_socket_event jp zod_reference 0 (SockMessage (TextFrame [])) ?b"
  let ?p = "record_event ?t (newPlayer True)"
  note ok = ask_example
  have "next_socket (se_world (useDebate True)) = 0" by (simp add: useDebate_def ws_init_def)
  then obtain h where h: "handlers_of 0 (se_world ?a) = Some h" using ask_attached [OF session_inv_init ok] by metis
  have player: "se_player ?a = newPlayer True" "se_state ?a = initialState\<lparr>phase := PhConnecting\<rparr>"
    by (simp_all add: ask_accepted [OF ok] useDebate_def reset_def newPlayer_def)
  have records: "feed ?t (newPlayer True) = (?p, [])"
    by (simp add: feed_def pump_def step_def prepareNextTurn.simps terminalKnown_def newPlayer_def Let_def del: One_nat_def)
  have b: "?b = commit (?p, []) ?a"
    using hears_event [where e = ?t and t = "[1]" and jp = jp, OF h]
    by (simp add: jp_def MAX_WIRE_ROUND_def MAX_ROUNDS_def MAX_FRAME_CHARS_def player records del: One_nat_def record_event.simps)
  have reveals: "snd (feed (RoundCompleteEvent 1) ?p) = [Wire ?t]"
    by (simp add: feed_def pump_def step_def prepareNextTurn.simps flushPending_def newPlayer_def Let_def getText_def appendText_def
        MAX_TURN_CHARS_def PANELISTS_def set_add_def revealStep_def slice_def)
  have "?c = commit (feed (RoundCompleteEvent 1) ?p) ?b"
    using hears_event [where e = "RoundCompleteEvent 1" and n = 0 and s = ?b and t = "[]" and jp = jp] h
    by (simp add: b commit_def jp_def MAX_WIRE_ROUND_def MAX_ROUNDS_def)
  then have "se_state ?c = debateReducer (initialState\<lparr>phase := PhConnecting\<rparr>) (Wire ?t)"
    unfolding b commit_def by (simp add: reveals player reduced_def del: One_nat_def record_event.simps debateReducer.simps)
  then have talks: "talking (se_state ?c) Skeptic" by (simp add: talking_iff initialState_def)
  have run: "session_run jp zod_reference (useDebate True)
      [Ask (js ''a'') None, Socket 0 (SockMessage (TextFrame [1])), Socket 0 (SockMessage (TextFrame []))] ?c"
    by (rule session_run.goes [OF session_step.asks session_run.goes [OF session_step.socket
        session_run.goes [OF session_step.socket session_run.stays]]])
  let ?scene = "fst ` set (StageScene (robotVisualState (se_state ?c)) (personaBubbles (se_state ?c)) False)"
  obtain ps qs where ps: "ps \<in> ?scene" "rp_id ps = Skeptic" and qs: "qs \<in> ?scene" "rp_id qs = Expert"
    using scene_has_everybody by meson
  define a where "a = \<lparr>bob_y = None, head_tilt = None, spot = Some 0, ring = None, chest = None, visor = None,
    tip = None, prevStatus = RobotIdle, flashLevel = 0\<rparr>"
  have damp: "damp_documented damp_reference" by (simp add: damp_documented_def damp_reference_def)
  have a: "fresh_robot a" by (simp add: a_def fresh_robot_def)
  have frames: "scene_frames (se_state ?c) False (replicate 10 (xs, 0, 0.1))" "frames_of (rp_id xs) ([] @ replicate 10 (xs, 0, 0.1))"
    "1 \<le> frame_time (replicate 10 (xs, 0, 0.1))" if "xs \<in> ?scene" for xs
    using that by (simp_all add: scene_frames_def frames_of_def frame_time_def sum_list_replicate)
  note shows_it = stage_shows_the_speaker [OF zod_reference_documented run damp]
  have "\<exists>i j. spot (run_frames damp_reference a ([] @ replicate 10 (ps, 0, 0.1))) = Some i
      \<and> spot (run_frames damp_reference a ([] @ replicate 10 (qs, 0, 0.1))) = Some j \<and> j < i"
    using shows_it talks a frames [OF ps(1)] frames [OF qs(1)] ps(2) qs(2) persona_id.distinct by metis
  with shows_it talks run show ?thesis by (metis append_Nil)
qed

text \<open>The seats are well chosen: all five exist, every robot faces the centre of the table
  from its seat, and no two robots, the enlarged moderator included, touch.\<close>

lemma seats_face_the_table_and_do_not_touch:
  "(\<forall>p. SEATING p \<noteq> None)
    \<and> (\<forall>p. case seat_position (seat_of p) of (x, y, z) \<Rightarrow>
         y = 0 \<and> (\<exists>r > 0. x + r * sin (seat_rotationY (seat_of p)) = 0 \<and> z + r * cos (seat_rotationY (seat_of p)) = 0))
    \<and> (\<forall>p q. p = q \<or> 0.62 * ((if p = Moderator then 1.12 else 1) + (if q = Moderator then 1.12 else 1))
         < sqrt (sq_dist (seat_position (seat_of p)) (seat_position (seat_of q))))"
proof (intro conjI allI)
  show "SEATING p \<noteq> None" for p
    by (cases p) (simp_all add: SEATING_def panelEntries_def PANELISTS_def PANEL_ANGLES_DEG_def)
  show "case seat_position (seat_of p) of (x, y, z) \<Rightarrow>
      y = 0 \<and> (\<exists>r > 0. x + r * sin (seat_rotationY (seat_of p)) = 0 \<and> z + r * cos (seat_rotationY (seat_of p)) = 0)" for p
    by (auto simp: seat_of_eq seatAt_def Let_def seat_radius_def MODERATOR_RADIUS_def PANEL_RADIUS_def
        intro!: exI [of _ "seat_radius p"])
  show "p = q \<or> 0.62 * ((if p = Moderator then 1.12 else 1) + (if q = Moderator then 1.12 else 1))
      < sqrt (sq_dist (seat_position (seat_of p)) (seat_position (seat_of q)))" for p q
  proof (cases "p = q")
    case False
    have scale: "robot_scale r = (if r = Moderator then 1.12 else 1)" for r
      by (simp add: robot_scale_def MODERATOR_SCALE_def)
    from real_less_rsqrt [OF seats_apart [OF False]] show ?thesis
      unfolding scale PEDESTAL_RADIUS_def ..
  qed simp
qed

text \<open>C38. The memoised robot misses nothing: when \<open>propsEqual\<close> lets React skip a render, every
  later frame moves, lights and flashes exactly as it would have with the new props, and the
  robot has the same shape, place, size and colour.\<close>

theorem memo_misses_nothing:
  "robot_frame damp (memo_props old new) clock delta a = robot_frame damp new clock delta a
    \<and> robot_shape_shown (memo_props old new) = robot_shape_shown new
    \<and> rp_position (memo_props old new) = rp_position new \<and> rp_rotationY (memo_props old new) = rp_rotationY new
    \<and> rp_scale (memo_props old new) = rp_scale new \<and> rp_accent (memo_props old new) = rp_accent new"
proof (cases "propsEqual old new")
  case True
  then have same: "rp_id old = rp_id new" "rp_reducedMotion old = rp_reducedMotion new" "rp_shape old = rp_shape new"
    and vis: "visualEqual (rp_visual old) (rp_visual new)" by (simp_all add: propsEqual_def)
  have "rv_status (visual_shown old) = rv_status (visual_shown new)"
    "rv_speaking (visual_shown old) = rv_speaking (visual_shown new)"
    "rv_dimmed (visual_shown old) = rv_dimmed (visual_shown new)"
    using vis same(1)
    by (cases "rp_visual old"; cases "rp_visual new"; auto simp: visual_shown_def restingVisual_def)+
  then have vis_eqs: "targetsFor (visual_shown old) b = targetsFor (visual_shown new) b"
    "flash_fires old (visual_shown old) a = flash_fires new (visual_shown new) a" for b
    by (simp_all add: targetsFor_def flash_fires_def same)
  with \<open>rv_speaking (visual_shown old) = _\<close> \<open>rv_status (visual_shown old) = _\<close>
  have "robot_frame damp old clock delta a = robot_frame damp new clock delta a"
    by (simp only: robot_frame_def Let_def same)
  with True same show ?thesis by (simp add: memo_props_def robot_shape_shown_def propsEqual_def split: option.split)
qed (simp add: memo_props_def)

end
