(* ===== verification/Camera_Director.thy ===== *)
theory Camera_Director
  imports Stage_Views
begin

text \<open>
  \<open>three/CameraDirector.tsx\<close>: the component inside the canvas that eases the camera towards what the
  state should frame, and yields to the user's hand. Of three.js, \<open>V\<close> is its
  \<open>Vector3\<close>, and \<open>update\<close> its \<open>OrbitControls.update\<close>, which puts the camera back within the
  controls' limits. Coordinates are reals, times are milliseconds, a frame's \<open>delta\<close> is seconds.
\<close>

section \<open>Vectors\<close>

text \<open>The operations of three.js's \<open>Vector3\<close> the source calls, and what their documentation says of
  them: the difference, the sum with a multiple, the interpolation between two vectors, the squared
  length, and the vector of length one in the same direction.\<close>

record vector3 =
  v3_sub :: "point \<Rightarrow> point \<Rightarrow> point"
  v3_addScaledVector :: "point \<Rightarrow> point \<Rightarrow> real \<Rightarrow> point"
  v3_lerp :: "point \<Rightarrow> point \<Rightarrow> real \<Rightarrow> point"
  v3_lengthSq :: "point \<Rightarrow> real"
  v3_normalize :: "point \<Rightarrow> point"

fun vec_add :: "point \<Rightarrow> point \<Rightarrow> point" where
  "vec_add (x, y, z) (x', y', z') = (x + x', y + y', z + z')"

fun vec_sub :: "point \<Rightarrow> point \<Rightarrow> point" where
  "vec_sub (x, y, z) (x', y', z') = (x - x', y - y', z - z')"

fun vec_scale :: "real \<Rightarrow> point \<Rightarrow> point" where
  "vec_scale a (x, y, z) = (a * x, a * y, a * z)"

fun lengthSq :: "point \<Rightarrow> real" where
  "lengthSq (x, y, z) = x * x + y * y + z * z"

definition three_documented :: "vector3 \<Rightarrow> bool" where
  "three_documented V \<longleftrightarrow>
     (\<forall>v w. v3_sub V v w = vec_sub v w)
   \<and> (\<forall>v w a. v3_addScaledVector V v w a = vec_add v (vec_scale a w))
   \<and> (\<forall>v w a. v3_lerp V v w a = vec_add v (vec_scale a (vec_sub w v)))
   \<and> (\<forall>v. v3_lengthSq V v = lengthSq v)
   \<and> (\<forall>u a. lengthSq u = 1 \<longrightarrow> 0 < a \<longrightarrow> v3_normalize V (vec_scale a u) = u)"

definition three_reference :: vector3 where
  "three_reference = \<lparr>v3_sub = vec_sub, v3_addScaledVector = (\<lambda>v w a. vec_add v (vec_scale a w)),
     v3_lerp = (\<lambda>v w a. vec_add v (vec_scale a (vec_sub w v))), v3_lengthSq = lengthSq,
     v3_normalize = (\<lambda>v. vec_scale (1 / sqrt (lengthSq v)) v)\<rparr>"

section \<open>The director\<close>

definition CAMERA_LAMBDA :: real where "CAMERA_LAMBDA = 2.4"
definition USER_PAUSE_MS :: real where "USER_PAUSE_MS = 2500"

text \<open>The camera and the point its controls turn around; \<open>None\<close> while there are no controls.\<close>

record camera =
  cm_position :: point
  cm_target :: point

record camera_director =
  cd_camera :: camera
  cd_controls :: bool
  cd_pausedUntil :: real

definition CameraDirector :: "camera \<Rightarrow> bool \<Rightarrow> camera_director" where
  "CameraDirector c controls = \<lparr>cd_camera = c, cd_controls = controls, cd_pausedUntil = 0\<rparr>"

text \<open>The listener of the controls' \<open>start\<close> event, added when there are controls.\<close>

definition onStart :: "real \<Rightarrow> camera_director \<Rightarrow> camera_director" where
  "onStart now d = (if cd_controls d then d\<lparr>cd_pausedUntil := now + USER_PAUSE_MS\<rparr> else d)"

definition camera_frame ::
    "vector3 \<Rightarrow> (camera \<Rightarrow> camera) \<Rightarrow> bool \<Rightarrow> camera_target \<Rightarrow> real \<Rightarrow> real \<Rightarrow> camera_director \<Rightarrow> camera_director" where
  "camera_frame V update still target now delta d =
    (if still \<or> \<not> cd_controls d then d
     else if now < cd_pausedUntil d then d
     else
       let c = cd_camera d;
           desiredLook = ct_lookAt target;
           dir = v3_sub V (cm_position c) (cm_target c);
           dir = (if v3_lengthSq V dir < 1 / 10 ^ 6 then (0, 0, 1) else dir);
           dir = v3_normalize V dir;
           desiredPos = v3_addScaledVector V desiredLook dir (ct_distance target);
           k = 1 - exp (- CAMERA_LAMBDA * delta)
       in d\<lparr>cd_camera := update \<lparr>cm_position = v3_lerp V (cm_position c) desiredPos k,
                                  cm_target = v3_lerp V (cm_target c) desiredLook k\<rparr>\<rparr>)"

text \<open>What happens to a mounted director: a drag or zoom starts, the camera is moved by hand, or a
  frame is rendered with the state of the last render.\<close>

datatype camera_event =
    UserStarts real
  | UserMoves camera
  | Frame debate_state real real

fun camera_step :: "vector3 \<Rightarrow> (camera \<Rightarrow> camera) \<Rightarrow> bool \<Rightarrow> camera_director \<Rightarrow> camera_event \<Rightarrow> camera_director" where
  "camera_step V update still d (UserStarts now) = onStart now d"
| "camera_step V update still d (UserMoves c) = d\<lparr>cd_camera := c\<rparr>"
| "camera_step V update still d (Frame s now delta) = camera_frame V update still (cameraTargetFor s) now delta d"

section \<open>Easing\<close>

lemma lengthSq_scale: "lengthSq (vec_scale a v) = a\<^sup>2 * lengthSq v"
  by (cases v) (simp add: power2_eq_square algebra_simps)

lemma vec_scale_scale: "vec_scale a (vec_scale b v) = vec_scale (a * b) v" "vec_scale 1 v = v"
  by (cases v; simp)+

lemma three_reference_documented: "three_documented three_reference"
proof -
  have "vec_scale (1 / sqrt (lengthSq (vec_scale a u))) (vec_scale a u) = u" if "lengthSq u = 1" "0 < a" for u a
    using that by (simp add: lengthSq_scale vec_scale_scale)
  then show ?thesis by (simp add: three_documented_def three_reference_def)
qed

lemma three_simps:
  assumes "three_documented V"
  shows "v3_sub V v w = vec_sub v w" "v3_addScaledVector V v w a = vec_add v (vec_scale a w)"
    "v3_lerp V v w a = vec_add v (vec_scale a (vec_sub w v))" "v3_lengthSq V v = lengthSq v"
    "lengthSq u = 1 \<Longrightarrow> 0 < a \<Longrightarrow> v3_normalize V (vec_scale a u) = u"
  using assms unfolding three_documented_def by blast+

lemma cameraTarget_distance: "5 \<le> ct_distance (cameraTargetFor s)" "ct_distance (cameraTargetFor s) \<le> 12"
  by (simp_all add: cameraTargetFor_def focusSeat_def FOCUS_DISTANCE_def COUNCIL_DISTANCE_def split: prod.split)

text \<open>The limits \<open>DebateStage.tsx\<close> gives the controls, on the distance, the polar angle and the azimuth of
  the camera around its target, in the spherical coordinates of three.js. Of \<open>update\<close> its documentation is
  used: once the glide of a drag is over (\<open>enableDamping\<close>), it only puts the camera back within the limits,
  and so leaves one that is within them where it is. What it does to others is not said.\<close>

fun spherical :: "real \<Rightarrow> real \<Rightarrow> real \<Rightarrow> point" where
  "spherical r polar azimuth = (r * sin polar * sin azimuth, r * cos polar, r * sin polar * cos azimuth)"

definition within_limits :: "camera \<Rightarrow> bool" where
  "within_limits c \<longleftrightarrow> (\<exists>r polar azimuth. 5 \<le> r \<and> r \<le> 12 \<and> pi * 0.18 \<le> polar \<and> polar \<le> pi * 0.46
     \<and> - (pi * 0.33) \<le> azimuth \<and> azimuth \<le> pi * 0.33
     \<and> cm_position c = vec_add (cm_target c) (spherical r polar azimuth))"

definition controls_documented :: "(camera \<Rightarrow> camera) \<Rightarrow> bool" where
  "controls_documented update \<longleftrightarrow> (\<forall>c. within_limits c \<longrightarrow> update c = c)"

lemma lengthSq_spherical: "lengthSq (spherical 1 polar azimuth) = 1"
proof -
  have "sin p * sin a * (sin p * sin a) + cos p * cos p + sin p * cos a * (sin p * cos a)
    = (sin p)\<^sup>2 * ((sin a)\<^sup>2 + (cos a)\<^sup>2) + (cos p)\<^sup>2" for p a :: real
    by algebra
  then show ?thesis by (simp only: lengthSq.simps spherical.simps mult_1 sin_cos_squared_add mult_1_right)
qed

lemma spherical_scale: "spherical r polar azimuth = vec_scale r (spherical 1 polar azimuth)"
  by simp

text \<open>A camera at distance \<open>far\<close> from its target in the direction \<open>u\<close>.\<close>

definition looking :: "point \<Rightarrow> real \<Rightarrow> point \<Rightarrow> camera" where
  "looking look far u = \<lparr>cm_position = vec_add look (vec_scale far u), cm_target = look\<rparr>"

lemma vec_diff: "vec_sub (vec_add v w) v = w"
  by (cases v; cases w) simp

definition toward :: "real \<Rightarrow> point \<Rightarrow> point \<Rightarrow> point" where
  "toward e final v = vec_add final (vec_scale e (vec_sub v final))"

lemma toward_toward: "toward e final (toward e' final v) = toward (e * e') final v"
  by (cases final; cases v) (simp add: toward_def algebra_simps)

lemma toward_1: "toward 1 final v = v"
  by (cases final; cases v) (simp add: toward_def)

lemma frame_eases:
  assumes V: "three_documented V" and "cd_camera d = looking look far u" "cd_controls d" "cd_pausedUntil d \<le> now"
    and "lengthSq u = 1" "1 / 1000 \<le> far"
  shows "camera_frame V update False target now delta d = d\<lparr>cd_camera := update
    (looking (toward (exp (- (CAMERA_LAMBDA * delta))) (ct_lookAt target) look)
      (ct_distance target + exp (- (CAMERA_LAMBDA * delta)) * (far - ct_distance target)) u)\<rparr>"
proof -
  let ?e = "exp (- (CAMERA_LAMBDA * delta))"
  have "(1 / 1000)\<^sup>2 \<le> far\<^sup>2" by (rule power_mono) (use assms(6) in simp_all)
  then have apart: "\<not> lengthSq (vec_scale far u) * 1000000 < 1"
    by (simp add: lengthSq_scale assms(5) power2_eq_square)
  have pos: "v3_lerp V (vec_add look (vec_scale far u)) (vec_add (ct_lookAt target) (vec_scale (ct_distance target) u)) (1 - ?e)
     = vec_add (toward ?e (ct_lookAt target) look) (vec_scale (ct_distance target + ?e * (far - ct_distance target)) u)"
    by (cases look; cases "ct_lookAt target"; cases u) (simp add: three_simps [OF V] toward_def algebra_simps)
  have look: "v3_lerp V look (ct_lookAt target) (1 - ?e) = toward ?e (ct_lookAt target) look"
    by (cases look; cases "ct_lookAt target") (simp add: three_simps [OF V] toward_def algebra_simps)
  show ?thesis
    using assms(2-4) three_simps(5) [OF V assms(5), of far] assms(6)
    by (simp add: camera_frame_def Let_def looking_def vec_diff apart three_simps(1,2,4) [OF V] pos look)
qed

text \<open>A run of frames with one target, none of them paused.\<close>

lemma frames_ease:
  assumes V: "three_documented V" and "cd_camera d = looking look far u" "cd_controls d" "lengthSq u = 1" "5 \<le> far" "far \<le> 12"
    and "\<And>look far. 5 \<le> far \<Longrightarrow> far \<le> 12 \<Longrightarrow> update (looking look far u) = looking look far u"
    and "\<forall>(now, delta)\<in>set fs. cd_pausedUntil d \<le> now \<and> 0 \<le> delta"
  shows "let d' = foldl (\<lambda>d (now, delta). camera_step V update False d (Frame s now delta)) d fs;
      target = cameraTargetFor s; e = exp (- CAMERA_LAMBDA * sum_list (map snd fs));
      far' = ct_distance target + e * (far - ct_distance target)
    in d' = d\<lparr>cd_camera := looking (toward e (ct_lookAt target) look) far' u\<rparr> \<and> 5 \<le> far' \<and> far' \<le> 12"
  using assms(2,3,5,6,8)
proof (induction fs arbitrary: d look far)
  case Nil
  then show ?case by (simp add: toward_1 Let_def)
next
  case (Cons f fs)
  obtain now delta where f: "f = (now, delta)" by (cases f)
  let ?t = "cameraTargetFor s" let ?e = "exp (- (CAMERA_LAMBDA * delta))"
  let ?look = "toward ?e (ct_lookAt ?t) look" let ?far = "ct_distance ?t + ?e * (far - ct_distance ?t)"
  let ?d = "d\<lparr>cd_camera := looking ?look ?far u\<rparr>"
  from Cons.prems(5) f have fr: "cd_pausedUntil d \<le> now" "0 \<le> delta" by simp_all
  have far: "5 \<le> ?far" "?far \<le> 12"
  proof -
    have e: "0 \<le> ?e" "?e \<le> 1" using fr(2) by (simp_all add: CAMERA_LAMBDA_def)
    have eq: "?far = (1 - ?e) * ct_distance ?t + ?e * far" by (simp add: algebra_simps)
    have "(1 - ?e) * 5 + ?e * 5 \<le> (1 - ?e) * ct_distance ?t + ?e * far"
      using e Cons.prems(3) cameraTarget_distance(1) [of s] by (intro add_mono mult_left_mono) simp_all
    then show "5 \<le> ?far" unfolding eq by (simp add: algebra_simps)
    have "(1 - ?e) * ct_distance ?t + ?e * far \<le> (1 - ?e) * 12 + ?e * 12"
      using e Cons.prems(4) cameraTarget_distance(2) [of s] by (intro add_mono mult_left_mono) simp_all
    then show "?far \<le> 12" unfolding eq by (simp add: algebra_simps)
  qed
  have frame: "camera_frame V update False ?t now delta d = ?d"
    using frame_eases [OF V Cons.prems(1,2) fr(1) assms(4), of update ?t delta] Cons.prems(3) assms(7) [OF far] by simp
  have IH: "let d' = foldl (\<lambda>d (now, delta). camera_step V update False d (Frame s now delta)) ?d fs;
      target = cameraTargetFor s; e = exp (- CAMERA_LAMBDA * sum_list (map snd fs));
      far' = ct_distance target + e * (?far - ct_distance target)
    in d' = ?d\<lparr>cd_camera := looking (toward e (ct_lookAt target) ?look) far' u\<rparr> \<and> 5 \<le> far' \<and> far' \<le> 12"
    by (rule Cons.IH) (use Cons.prems far in auto)
  have "exp (- (CAMERA_LAMBDA * (delta + x))) = exp (- (CAMERA_LAMBDA * x)) * exp (- (CAMERA_LAMBDA * delta))" for x
    by (simp add: exp_add [symmetric] algebra_simps)
  with frame IH show ?case by (simp add: f Let_def toward_toward mult.assoc)
qed

section \<open>Properties\<close>

text \<open>C29. The camera keeps the user's angle, and its easing does not depend on the frame rate. Take a camera
  within the limits of the controls, with no drag gliding on, and frames of whatever durations none of
  which is held back: they bring the point looked at and the distance to those of the target by one factor,
  which depends on the time passed alone; the direction the camera looks from never changes, and the camera
  stays within the limits, so that \<open>OrbitControls.update\<close>, which clamps, takes nothing of it back.\<close>

theorem camera_eases_at_any_frame_rate:
  assumes V: "three_documented V" and controls: "controls_documented update" and "cd_controls d"
    and "5 \<le> far" "far \<le> 12" "pi * 0.18 \<le> polar" "polar \<le> pi * 0.46" "\<bar>azimuth\<bar> \<le> pi * 0.33"
    and "cm_target (cd_camera d) = look" "cm_position (cd_camera d) = vec_add look (spherical far polar azimuth)"
    and "\<forall>(now, delta)\<in>set fs. cd_pausedUntil d \<le> now \<and> 0 \<le> delta"
  shows "let c = cd_camera (foldl (\<lambda>d (now, delta). camera_step V update False d (Frame s now delta)) d fs);
             target = cameraTargetFor s; e = exp (- 2.4 * sum_list (map snd fs));
             final = ct_lookAt target
         in cm_target c = vec_add final (vec_scale e (vec_sub look final))
          \<and> cm_position c = vec_add (cm_target c) (spherical (ct_distance target + e * (far - ct_distance target)) polar azimuth)
          \<and> within_limits c"
proof -
  obtain u where scale: "\<And>r. spherical r polar azimuth = vec_scale r u" and u: "lengthSq u = 1"
    using spherical_scale lengthSq_spherical by metis
  have az: "- (pi * 0.33) \<le> azimuth" "azimuth \<le> pi * 0.33" using assms(8) abs_le_D1 abs_le_D2 by linarith+
  have limits: "within_limits (looking v r u)" if "5 \<le> r" "r \<le> 12" for v r
    by (unfold within_limits_def, rule exI [of _ r], rule exI [of _ polar], rule exI [of _ azimuth])
      (use that assms(6,7) az in \<open>simp add: looking_def scale del: spherical.simps\<close>)
  have camera: "cd_camera d = looking look far u"
    using assms(9,10) by (simp add: looking_def scale del: spherical.simps)
  have "update (looking v r u) = looking v r u" if "5 \<le> r" "r \<le> 12" for v r
    using controls limits [OF that] by (simp add: controls_documented_def)
  from frames_ease [OF V camera assms(3) u assms(4,5) this assms(11), of s]
  have "let d' = foldl (\<lambda>d (now, delta). camera_step V update False d (Frame s now delta)) d fs;
      target = cameraTargetFor s; e = exp (- CAMERA_LAMBDA * sum_list (map snd fs));
      far' = ct_distance target + e * (far - ct_distance target)
    in d' = d\<lparr>cd_camera := looking (toward e (ct_lookAt target) look) far' u\<rparr> \<and> 5 \<le> far' \<and> far' \<le> 12" .
  with limits show ?thesis
    by (simp add: Let_def CAMERA_LAMBDA_def del: spherical.simps)
      (simp add: looking_def toward_def scale del: spherical.simps)
qed

text \<open>Controls for the witness: one position to which a camera out of the limits is put back.\<close>

definition example_camera :: camera where
  "example_camera = \<lparr>cm_position = vec_add (0, 0.9, 0) (spherical 9 (pi / 3) (pi / 5)), cm_target = (0, 0.9, 0)\<rparr>"

definition controls_reference :: "camera \<Rightarrow> camera" where
  "controls_reference c = (if within_limits c then c else example_camera)"

theorem camera_eases_at_any_frame_rate_witness:
  "let d = CameraDirector example_camera True; step = camera_step three_reference controls_reference False;
       c = cd_camera (step (step d (Frame (initialState\<lparr>phase := PhDone\<rparr>) 0 1)) (Frame (initialState\<lparr>phase := PhDone\<rparr>) 0 2));
       final = ct_lookAt (focusSeat Moderator)
   in controls_documented controls_reference
    \<and> cm_position c = vec_add (cm_target c) (spherical (6.2 + exp (- 7.2) * (9 - 6.2)) (pi / 3) (pi / 5))
    \<and> cm_target c = vec_add final (vec_scale (exp (- 7.2)) (vec_sub (0, 0.9, 0) final))"
proof -
  have controls: "controls_documented controls_reference"
    by (simp add: controls_documented_def controls_reference_def)
  have "pi * 0.18 \<le> pi / 3" "pi / 3 \<le> pi * 0.46" "\<bar>pi / 5\<bar> \<le> pi * 0.33" by (simp_all add: field_simps)
  from camera_eases_at_any_frame_rate [OF three_reference_documented controls _ _ _ this,
      of "CameraDirector example_camera True" 9 "(0, 0.9, 0)" "[(0, 1), (0, 2)]" "initialState\<lparr>phase := PhDone\<rparr>"]
  show ?thesis
    by (simp add: CameraDirector_def Let_def example_camera_def cameraTargetFor_def VERDICT_PHASES_def controls
        focusSeat_def FOCUS_DISTANCE_def split: prod.split del: camera_step.simps spherical.simps vec_add.simps)
qed

text \<open>Events during which the camera is left to the user until \<open>till\<close>.\<close>

fun held_back :: "bool \<Rightarrow> real \<Rightarrow> camera_event \<Rightarrow> bool" where
  "held_back still till (Frame _ now _) = (still \<or> now < till)"
| "held_back still till (UserStarts now) = (till \<le> now + 2500)"
| "held_back still till (UserMoves c) = True"

text \<open>Where the user's hand has left the camera.\<close>

fun moved :: "camera \<Rightarrow> camera_event list \<Rightarrow> camera" where
  "moved c [] = c"
| "moved c (UserMoves c' # es) = moved c' es"
| "moved c (_ # es) = moved c es"

lemma held_frames:
  assumes "till \<le> cd_pausedUntil d" "list_all (held_back still till) es"
  shows "cd_camera (foldl (camera_step V update still) d es)
    = moved (cd_camera d) es"
  using assms
proof (induction es arbitrary: d)
  case (Cons e es)
  show ?case
  proof (cases e)
    case (UserStarts now)
    with Cons.prems Cons.IH [of "onStart now d"] show ?thesis
      by (cases "cd_controls d") (simp_all add: onStart_def USER_PAUSE_MS_def)
  next
    case (UserMoves c)
    with Cons.prems Cons.IH [of "d\<lparr>cd_camera := c\<rparr>"] show ?thesis by simp
  next
    case (Frame s now delta)
    with Cons.prems have "camera_frame V update still (cameraTargetFor s) now delta d = d"
      by (auto simp: camera_frame_def)
    with Cons Frame show ?thesis by simp
  qed
qed simp

text \<open>C28. The camera yields. From the moment the user takes hold of it, and for two and a half seconds
  after, no frame moves it, whatever the debate does; and with reduced motion none ever does.\<close>

theorem camera_yields_to_the_user:
  assumes "cd_controls d" "list_all (held_back still (now + 2500)) es"
  shows "cd_camera (foldl (camera_step V update still) (camera_step V update still d (UserStarts now)) es)
    = moved (cd_camera d) es"
  using held_frames [of "now + 2500" "onStart now d" still es V update] assms
  by (simp add: onStart_def USER_PAUSE_MS_def)

theorem camera_yields_to_the_user_witness:
  "let d = CameraDirector \<lparr>cm_position = (0, 0, 5), cm_target = (0, 0, 0)\<rparr> True in
   cd_camera (camera_step three_reference (\<lambda>c. c) False (camera_step three_reference (\<lambda>c. c) False d (UserStarts 100)) (Frame initialState 2599 1))
   = cd_camera d"
  using camera_yields_to_the_user [of "CameraDirector \<lparr>cm_position = (0, 0, 5), cm_target = (0, 0, 0)\<rparr> True"
      False 100 "[Frame initialState 2599 1]" three_reference "\<lambda>c. c"]
  by (simp add: CameraDirector_def)

end
