(* ===== verification/Scene_Graph.thy ===== *)
theory Scene_Graph
  imports Stage_Hooks Transcript_Views Camera_Director
begin

text \<open>
  What the canvas holds: \<open>three/RobotPersona.tsx\<close> and \<open>three/parts/\<close> (one robot),
  \<open>three/Chamber.tsx\<close> (the room), \<open>three/PersonaLabel.tsx\<close> (the DOM above a robot),
  \<open>three/StageScene.tsx\<close>, \<open>three/StageEffects.tsx\<close> and \<open>three/DebateStage.tsx\<close>, as trees of elements
  with the properties they are given. Numbers are reals, colours strings; a \<open>ref\<close> is the name of the
  variable it is bound to, as it is what the frame loop writes through.
\<close>

section \<open>Scenes\<close>

datatype sval = SNum real | SVec "real list" | SStr string | SFlag bool

text \<open>\<open>Html\<close> is drei's element for DOM in the scene.\<close>

datatype 'a scene =
    Obj string "(string \<times> sval) list" "'a scene list"
  | Html "(string \<times> sval) list" "'a node"

text \<open>All values of one property, in the order of the tree.\<close>

fun all_of :: "string \<Rightarrow> 'a scene \<Rightarrow> sval list" where
  "all_of k (Obj tag ps cs) = map snd (filter (\<lambda>(k', _). k' = k) ps) @ concat (map (all_of k) cs)"
| "all_of k (Html ps n) = []"

fun tags_of :: "'a scene \<Rightarrow> string list" where
  "tags_of (Obj tag ps cs) = tag # concat (map tags_of cs)"
| "tags_of (Html ps n) = [''Html'']"

section \<open>A robot\<close>

datatype head_geometry =
    BoxHead "real list" real "real option"
  | SphereHead real real
  | OctahedronHead real real

definition BOX_SIZE :: "real list" where "BOX_SIZE = [0.62, 0.46, 0.5]"

fun HEAD_GEOMETRY :: "head_kind \<Rightarrow> head_geometry" where
  "HEAD_GEOMETRY Faceted = OctahedronHead 0.34 0.22"
| "HEAD_GEOMETRY Round = SphereHead 0.32 0.2"
| "HEAD_GEOMETRY Visored = BoxHead BOX_SIZE 0.26 None"
| "HEAD_GEOMETRY Diamond = BoxHead [0.5, 0.5, 0.5] 0.26 (Some (pi / 4))"
| "HEAD_GEOMETRY Centered = BoxHead BOX_SIZE 0.26 None"

fun visorZ :: "head_geometry \<Rightarrow> real" where
  "visorZ (BoxHead _ z _) = z"
| "visorZ (SphereHead _ z) = z"
| "visorZ (OctahedronHead _ z) = z"

definition material :: "string \<Rightarrow> real \<Rightarrow> real \<Rightarrow> 'a scene" where
  "material color roughness metalness = Obj ''meshStandardMaterial''
     [(''color'', SStr color), (''roughness'', SNum roughness), (''metalness'', SNum metalness)] []"

text \<open>An accent mesh's material: dark, and glowing in the accent.\<close>

definition glow :: "string \<Rightarrow> string \<Rightarrow> string \<Rightarrow> real \<Rightarrow> 'a scene" where
  "glow ref color accent intensity = Obj ''meshStandardMaterial''
     [(''ref'', SStr ref), (''color'', SStr color), (''emissive'', SStr accent),
      (''emissiveIntensity'', SNum intensity), (''toneMapped'', SFlag False)] []"

definition RobotHead :: "robot_shape \<Rightarrow> string \<Rightarrow> string \<Rightarrow> string \<Rightarrow> 'a scene" where
  "RobotHead shape accent bodyColor chassisDark =
    (let geo = HEAD_GEOMETRY (rs_head shape)
     in Obj ''group'' [(''ref'', SStr ''headTilt''), (''name'', SStr ''head''), (''position'', SVec [0, 1.4, 0]),
          (''rotation'', SVec [0, rs_headTiltBias shape, 0])]
         ((case geo of
             BoxHead boxSize _ roll \<Rightarrow>
               [Obj ''mesh'' [(''position'', SVec [0, 0.22, 0]),
                    (''rotation'', SVec [0, 0, case roll of Some r \<Rightarrow> r | None \<Rightarrow> 0])]
                  [Obj ''boxGeometry'' [(''args'', SVec boxSize)] [],
                   material bodyColor (rs_roughness shape) (rs_metalness shape)]]
           | SphereHead radius _ \<Rightarrow>
               [Obj ''mesh'' [(''position'', SVec [0, 0.22, 0])]
                  [Obj ''sphereGeometry'' [(''args'', SVec [radius, 20, 16])] [],
                   material bodyColor (rs_roughness shape) (rs_metalness shape)]]
           | OctahedronHead radius _ \<Rightarrow>
               [Obj ''mesh'' [(''position'', SVec [0, 0.22, 0])]
                  [Obj ''octahedronGeometry'' [(''args'', SVec [radius, 0])] [],
                   Obj ''meshStandardMaterial'' [(''color'', SStr bodyColor), (''roughness'', SNum (rs_roughness shape)),
                     (''metalness'', SNum (rs_metalness shape)), (''flatShading'', SFlag True)] []]])
          @ (if rs_head shape = Visored then
               [Obj ''mesh'' [(''position'', SVec [0, 0.34, 0.18])]
                  [Obj ''boxGeometry'' [(''args'', SVec [0.5, 0.06, 0.2])] [], material chassisDark 0.3 0.6]]
             else [])
          @ (if rs_mortarboard shape then
               [Obj ''group'' [(''name'', SStr ''mortarboard''), (''position'', SVec [0, 0.48, 0]), (''rotation'', SVec [0, 0.35, 0])]
                 [Obj ''mesh'' []
                    [Obj ''boxGeometry'' [(''args'', SVec [0.72, 0.04, 0.72])] [], material bodyColor 0.55 0.35],
                  Obj ''mesh'' [(''position'', SVec [0, 0.04, 0])]
                    [Obj ''cylinderGeometry'' [(''args'', SVec [0.05, 0.05, 0.04, 12])] [], material chassisDark 0.6 0.3],
                  Obj ''mesh'' [(''position'', SVec [0.32, -0.09, 0.32])]
                    [Obj ''cylinderGeometry'' [(''args'', SVec [0.012, 0.012, 0.2, 6])] [], material chassisDark 0.8 0.2],
                  Obj ''mesh'' [(''position'', SVec [0.32, -0.21, 0.32])]
                    [Obj ''sphereGeometry'' [(''args'', SVec [0.045, 12, 12])] [], material chassisDark 0.8 0.2]]]
             else [])
          @ [Obj ''mesh'' [(''position'', SVec [0, 0.24, visorZ geo])]
               [Obj ''boxGeometry'' [(''args'', SVec [0.44, 0.12, 0.05])] [], glow ''visor'' chassisDark accent VISOR_BASE],
             Obj ''mesh'' [(''position'', SVec [rs_antennaOffsetX shape, 0.6, 0])]
               [Obj ''cylinderGeometry'' [(''args'', SVec [0.025, 0.025, 0.36, 8])] [], material chassisDark 0.8 0.3],
             Obj ''mesh'' [(''position'', SVec [rs_antennaOffsetX shape, 0.82, 0])]
               [Obj ''sphereGeometry'' [(''args'', SVec [0.07, 16, 16])] [], glow ''tip'' chassisDark accent TIP_BASE]]))"

definition HANDLE_COLOR :: string where "HANDLE_COLOR = ''#3B2A1E''"
definition HEAD_COLOR :: string where "HEAD_COLOR = ''#0A0E1A''"
definition HEAD_EMISSIVE_INTENSITY :: real where "HEAD_EMISSIVE_INTENSITY = 0.55"

definition GavelProp :: "string \<Rightarrow> 'a scene" where
  "GavelProp accent =
    Obj ''group'' [(''name'', SStr ''gavel''), (''prop'', SStr ''gavel''), (''position'', SVec [0.5, 0.55, 0.3]),
        (''rotation'', SVec [0, 0, -0.4])]
      [Obj ''mesh'' [(''position'', SVec [0, 0, 0])]
         [Obj ''cylinderGeometry'' [(''args'', SVec [0.03, 0.03, 0.5, 8])] [], material HANDLE_COLOR 0.7 0.1],
       Obj ''mesh'' [(''position'', SVec [0, 0.28, 0]), (''rotation'', SVec [0, 0, pi / 2])]
         [Obj ''cylinderGeometry'' [(''args'', SVec [0.09, 0.09, 0.22, 12])] [],
          Obj ''meshStandardMaterial'' [(''color'', SStr HEAD_COLOR), (''emissive'', SStr accent),
            (''emissiveIntensity'', SNum HEAD_EMISSIVE_INTENSITY), (''toneMapped'', SFlag False),
            (''roughness'', SNum 0.4), (''metalness'', SNum 0.5)] []]]"

definition BODY_COLOR :: string where "BODY_COLOR = pal_panel palette_tokens"
definition CHASSIS_DARK :: string where "CHASSIS_DARK = ''#0A0E1A''"

fun vec_of :: "point \<Rightarrow> real list" where
  "vec_of (x, y, z) = [x, y, z]"

definition RobotPersona :: "robot_props \<Rightarrow> 'a scene" where
  "RobotPersona rp =
    (let accent = rp_accent rp;
         robotShape = (case rp_shape rp of Some s \<Rightarrow> s | None \<Rightarrow> shapeFor (rp_id rp))
     in Obj ''group'' [(''name'', SStr (persona_name (rp_id rp))), (''personaId'', SStr (persona_name (rp_id rp))),
          (''position'', SVec (vec_of (rp_position rp))), (''rotation'', SVec [0, rp_rotationY rp, 0]),
          (''scale'', SNum (rp_scale rp))]
         [Obj ''pointLight'' [(''ref'', SStr ''spotlight''), (''color'', SStr accent), (''position'', SVec [0, 2.4, 0.6]),
            (''intensity'', SNum 0), (''distance'', SNum 5), (''decay'', SNum 2)] [],
          Obj ''group'' [(''ref'', SStr ''bob'')]
            ([Obj ''mesh'' [(''position'', SVec [0, 0.12, 0])]
                [Obj ''cylinderGeometry'' [(''args'', SVec [0.55, 0.62, 0.24, 24])] [], material CHASSIS_DARK 0.85 0.25],
              Obj ''mesh'' [(''position'', SVec [0, 0.26, 0]), (''rotation'', SVec [pi / 2, 0, 0])]
                [Obj ''torusGeometry'' [(''args'', SVec [0.5, 0.035, 12, 48])] [], glow ''ring'' CHASSIS_DARK accent RING_BASE],
              Obj ''mesh'' [(''position'', SVec [0, 0.92, 0]),
                  (''scale'', SVec [rs_torsoScale robotShape, 1, rs_torsoScale robotShape])]
                [Obj ''capsuleGeometry'' [(''args'', SVec [0.42, 0.7, 6, 16])] [], material BODY_COLOR 0.6 0.35],
              Obj ''mesh'' [(''position'', SVec [0, 0.98, 0.34])]
                [Obj ''boxGeometry'' [(''args'', SVec [0.2, 0.2, 0.06])] [], glow ''chest'' CHASSIS_DARK accent CHEST_BASE],
              RobotHead robotShape accent BODY_COLOR CHASSIS_DARK]
             @ (if rs_gavel robotShape then [GavelProp accent] else []))])"

section \<open>The room\<close>

definition TABLE_RADIUS :: real where "TABLE_RADIUS = 1.7"
definition TABLE_HEIGHT :: real where "TABLE_HEIGHT = 0.95"
definition ACCENT_LIGHT_HEIGHT :: real where "ACCENT_LIGHT_HEIGHT = 2.5"
definition ACCENT_LIGHT_INTENSITY :: real where "ACCENT_LIGHT_INTENSITY = 7"
definition ACCENT_LIGHT_DISTANCE :: real where "ACCENT_LIGHT_DISTANCE = 6"

definition accent_light :: "persona_id \<Rightarrow> 'a scene" where
  "accent_light p = (case seat_position (seat_of p) of (x, _, z) \<Rightarrow>
     Obj ''pointLight'' [(''position'', SVec [x, ACCENT_LIGHT_HEIGHT, z]), (''color'', SStr (accentOf p)),
       (''intensity'', SNum ACCENT_LIGHT_INTENSITY), (''distance'', SNum ACCENT_LIGHT_DISTANCE)] [])"

definition Chamber :: "'a scene" where
  "Chamber = Obj ''group'' []
    ([Obj ''fog'' [(''attach'', SStr ''fog''), (''color'', SStr (pal_bg palette_tokens)), (''near'', SNum 9), (''far'', SNum 24)] [],
      Obj ''ambientLight'' [(''intensity'', SNum 0.12)] [],
      Obj ''hemisphereLight'' [(''color'', SStr ''#2A3358''), (''groundColor'', SStr ''#05070D''), (''intensity'', SNum 0.45)] [],
      Obj ''directionalLight'' [(''position'', SVec [5, 9, 6]), (''intensity'', SNum 0.5), (''color'', SStr ''#AFC0FF'')] []]
     @ map accent_light PERSONA_IDS
     @ [Obj ''mesh'' [(''rotation'', SVec [- pi / 2, 0, 0]), (''position'', SVec [0, 0, 0])]
          [Obj ''circleGeometry'' [(''args'', SVec [14, 64])] [], material (pal_bg palette_tokens) 1 0],
        Obj ''mesh'' [(''position'', SVec [0, TABLE_HEIGHT, 0])]
          [Obj ''cylinderGeometry'' [(''args'', SVec [TABLE_RADIUS, TABLE_RADIUS, 0.06, 64])] [],
           Obj ''meshStandardMaterial'' [(''color'', SStr (pal_panel palette_tokens)), (''roughness'', SNum 0.3),
             (''metalness'', SNum 0.5), (''transparent'', SFlag True), (''opacity'', SNum 0.65)] []],
        Obj ''mesh'' [(''position'', SVec [0, TABLE_HEIGHT + 0.04, 0]), (''rotation'', SVec [pi / 2, 0, 0])]
          [Obj ''torusGeometry'' [(''args'', SVec [TABLE_RADIUS, 0.04, 16, 96])] [],
           Obj ''meshStandardMaterial'' [(''color'', SStr (pal_panelBorder palette_tokens)), (''emissive'', SStr (pal_ink palette_tokens)),
             (''emissiveIntensity'', SNum 0.35), (''toneMapped'', SFlag False)] []],
        Obj ''mesh'' [(''position'', SVec [0, TABLE_HEIGHT / 2, 0])]
          [Obj ''cylinderGeometry'' [(''args'', SVec [0.35, 0.5, TABLE_HEIGHT, 24])] [],
           material (pal_panel palette_tokens) 0.7 0.4]])"

section \<open>Labels\<close>

definition DISTANCE_FACTOR :: real where "DISTANCE_FACTOR = 7"

text \<open>\<open>sm\<close> is the state of the label's \<open>useSmoothText\<close>.\<close>

definition PersonaLabel :: "smooth \<Rightarrow> persona_label \<Rightarrow> 'a scene" where
  "PersonaLabel sm l =
    (let bubble = pl_bubble l;
         shown = smooth_output (pb_text bubble) sm;
         hasText = (pb_mode bubble \<noteq> Nameplate)
     in Html [(''position'', SVec (vec_of (pl_position l))), (''center'', SFlag True),
          (''distanceFactor'', SNum DISTANCE_FACTOR), (''zIndexRange'', SVec [20, 0]), (''pointerEvents'', SStr ''none'')]
         (El ''div'' [AriaHidden, Accent (pl_accent l), DataDimmed (pb_dimmed bubble)]
           (El ''div'' [] [El ''span'' [] [Txt (pb_displayName bubble)], El ''span'' [] [Txt (pb_role bubble)]]
            # (if hasText \<and> length shown > 0 then
                 [El ''div'' [] [El ''p'' []
                    (Txt shown # (if pb_streaming bubble
                       then [El ''span'' [] [TypingIndicator (pb_displayName bubble @ js '' speaking'')]] else []))]]
               else []))))"

section \<open>The stage\<close>

definition LUMINANCE_THRESHOLD :: real where "LUMINANCE_THRESHOLD = 1"
definition LUMINANCE_SMOOTHING :: real where "LUMINANCE_SMOOTHING = 0.15"
definition BLOOM_INTENSITY :: real where "BLOOM_INTENSITY = 0.6"
definition BLOOM_RADIUS :: real where "BLOOM_RADIUS = 0.55"

definition StageEffects :: "'a scene" where
  "StageEffects = Obj ''EffectComposer'' [(''multisampling'', SNum 0), (''enableNormalPass'', SFlag False)]
    [Obj ''Bloom'' [(''mipmapBlur'', SFlag True), (''luminanceThreshold'', SNum LUMINANCE_THRESHOLD),
       (''luminanceSmoothing'', SNum LUMINANCE_SMOOTHING), (''intensity'', SNum BLOOM_INTENSITY),
       (''radius'', SNum BLOOM_RADIUS)] []]"

definition scene_of :: "(persona_id \<Rightarrow> smooth) \<Rightarrow> robot_visual list \<Rightarrow> persona_bubble list \<Rightarrow> bool \<Rightarrow> 'a scene list" where
  "scene_of sm visuals bubbles still = Chamber #
    map (\<lambda>(rp, label). Obj ''group'' []
      (RobotPersona rp # (case label of None \<Rightarrow> [] | Some l \<Rightarrow> [PersonaLabel (sm (rp_id rp)) l])))
      (StageScene visuals bubbles still)"

definition CAMERA_POSITION :: "real list" where "CAMERA_POSITION = [5.2, 4.2, 6.4]"
definition CAMERA_FOV :: real where "CAMERA_FOV = 38"
definition ORBIT_TARGET :: "real list" where "ORBIT_TARGET = [0, 0.9, 0]"

fun mode_name :: "frameloop_mode \<Rightarrow> string" where
  "mode_name Always = ''always''"
| "mode_name Demand = ''demand''"

text \<open>\<open>h\<close> is the state of \<open>useStageFrameloop\<close>, \<open>still\<close> what \<open>usePrefersReducedMotion\<close> says.\<close>

definition DebateStage :: "(persona_id \<Rightarrow> smooth) \<Rightarrow> frameloop \<Rightarrow> bool \<Rightarrow> debate_state \<Rightarrow> 'a scene" where
  "DebateStage sm h still s =
    Obj ''Canvas'' [(''dpr'', SVec [1, 2]), (''frameloop'', SStr (mode_name (fl_mode h))),
        (''cameraPosition'', SVec CAMERA_POSITION), (''fov'', SNum CAMERA_FOV), (''antialias'', SFlag True)]
      ([Obj ''color'' [(''attach'', SStr ''background''), (''args'', SStr (pal_bg palette_tokens))] []]
       @ scene_of sm (robotVisualState s) (personaBubbles s) still
       @ (if \<not> still then [StageEffects] else [])
       @ [Obj ''CameraDirector'' [(''reducedMotion'', SFlag still)] [],
          Obj ''OrbitControls'' [(''makeDefault'', SFlag True), (''enableDamping'', SFlag True), (''target'', SVec ORBIT_TARGET),
            (''enablePan'', SFlag False), (''minDistance'', SNum 5), (''maxDistance'', SNum 12),
            (''minPolarAngle'', SNum (pi * 0.18)), (''maxPolarAngle'', SNum (pi * 0.46)),
            (''minAzimuthAngle'', SNum (- pi * 0.33)), (''maxAzimuthAngle'', SNum (pi * 0.33))] []])"

section \<open>What the scene shows\<close>

fun scene_actions :: "'a scene \<Rightarrow> 'a set" where
  "scene_actions (Obj tag ps cs) = \<Union> (scene_actions ` set cs)"
| "scene_actions (Html ps n) = actions n"

fun doms :: "'a scene \<Rightarrow> 'a node list" where
  "doms (Obj tag ps cs) = concat (map doms cs)"
| "doms (Html ps n) = [n]"

text \<open>A label takes no click: its DOM has no handler, and lets pointer events through.\<close>

lemma label_is_decorative:
  "PersonaLabel sm l = Html ps n \<Longrightarrow> actions n = {} \<and> (''pointerEvents'', SStr ''none'') \<in> set ps"
  by (auto simp: PersonaLabel_def Let_def TypingIndicator_def numeral_3_eq_3 split: if_splits)

lemma doms_robot: "doms (RobotPersona rp) = []"
  by (simp add: RobotPersona_def RobotHead_def GavelProp_def material_def glow_def Let_def split: head_geometry.split)

lemma doms_Chamber: "doms Chamber = []"
  by (simp add: Chamber_def material_def accent_light_def PERSONA_IDS_def split: prod.split)

lemma stage_no_handlers: "actions_of (doms (DebateStage sm h still s)) = {}"
proof -
  have "actions n = {}" if "n \<in> set (doms (PersonaLabel sm' l))" for n :: "'a node" and sm' l
  proof (cases "PersonaLabel sm' l :: 'a scene")
    case (Html ps m)
    with label_is_decorative [OF Html] that show ?thesis by simp
  qed (simp add: PersonaLabel_def Let_def)
  then have "actions n = {}" if "n \<in> set (doms (DebateStage sm h still s))" for n :: "'a node"
    using that by (auto simp: DebateStage_def scene_of_def StageEffects_def doms_Chamber doms_robot split: option.splits)
  then show ?thesis by (auto simp: actions_of_def)
qed

text \<open>Every robot glows in its own accent only; each variable the frame loop writes through is bound
  to one element; the gavel is the moderator's, the mortarboard the expert's.\<close>

lemma robot_identity:
  assumes "rp_shape rp = None"
  shows "set (all_of ''emissive'' (RobotPersona rp)) = {SStr (rp_accent rp)}"
    and "mset (all_of ''ref'' (RobotPersona rp)) =
      mset (map SStr [''spotlight'', ''bob'', ''ring'', ''chest'', ''headTilt'', ''visor'', ''tip''])"
    and "SStr ''gavel'' \<in> set (all_of ''name'' (RobotPersona rp)) \<longleftrightarrow> rp_id rp = Moderator"
    and "SStr ''mortarboard'' \<in> set (all_of ''name'' (RobotPersona rp)) \<longleftrightarrow> rp_id rp = Expert"
  using assms
  by (cases "rp_id rp"; simp add: RobotPersona_def RobotHead_def GavelProp_def material_def glow_def Let_def)+

lemma stage_has_each_persona_once:
  "map (\<lambda>(rp, _). (rp_id rp, rp_shape rp, rp_accent rp, rp_position rp)) (StageScene visuals bubbles still)
   = map (\<lambda>p. (p, None, accentOf p, seat_position (seat_of p))) PERSONA_IDS"
  by (simp add: StageScene_def Let_def o_def)

text \<open>Bloom, like the camera's own moves, is for those who do not mind motion.\<close>

lemma bloom_iff_motion: "''Bloom'' \<in> set (tags_of (DebateStage sm h still s :: 'a scene)) \<longleftrightarrow> \<not> still"
proof -
  have "''Bloom'' \<notin> set (tags_of (PersonaLabel sm' l :: 'a scene))" for sm' l by (simp add: PersonaLabel_def Let_def)
  moreover have "''Bloom'' \<notin> set (tags_of (RobotPersona rp :: 'a scene))" for rp
    by (simp add: RobotPersona_def RobotHead_def GavelProp_def material_def glow_def Let_def split: head_geometry.split)
  moreover have "''Bloom'' \<notin> set (tags_of (Chamber :: 'a scene))"
    by (simp add: Chamber_def material_def accent_light_def PERSONA_IDS_def split: prod.split)
  ultimately show ?thesis
    by (auto simp: DebateStage_def scene_of_def StageEffects_def split: option.splits)
qed

text \<open>The words over a robot are a beginning of its bubble's text.\<close>

lemma label_words:
  "\<exists>rest. pb_text (pl_bubble l) = smooth_output (pb_text (pl_bubble l)) sm @ rest"
  by (metis smooth_output_def append_take_drop_id)

end
