(* ===== verification/Sound.thy ===== *)
theory Sound
  imports Prelude
begin

text \<open>
  \<open>lib/sound.ts\<close>, the synthesiser behind the two ambient cues, and \<open>hooks/useSound.ts\<close>, the hook
  that owns one engine and the persisted preference.

  An operation returns the new engine and the calls it makes on the Web Audio API, in order.
  The browser's part is explicit: whether there is an \<open>AudioContext\<close> constructor, the state a
  new context starts in (\<open>suspended\<close> under an autoplay policy) and its clock are fields the
  browser sets, and \<open>context_becomes\<close> is the browser changing them, as it does some time after
  \<open>suspend()\<close> and \<open>resume()\<close>.
\<close>

section \<open>The engine\<close>

datatype audio_state = Suspended | Running | Closed

record audio_context =
  ac_state :: audio_state
  ac_currentTime :: real

record tone =
  tn_frequency :: real
  tn_start :: real
  tn_peak_gain :: real
  tn_peak_at :: real
  tn_faded_at :: real
  tn_stop :: real

datatype audio_call = NewContext | SuspendContext | ResumeContext | StartTone tone

record sound_engine =
  ctor :: "audio_context option"
  en_enabled :: bool
  en_ctx :: "audio_context option"

text \<open>\<open>ctor\<close> is \<open>getAudioContextCtor()\<close>: the context \<open>new Ctor()\<close> makes, or none. A \<open>window\<close> has
  \<open>AudioContext\<close> and \<open>webkitAudioContext\<close>, each of which may be missing.\<close>

definition getAudioContextCtor :: "(audio_context option \<times> audio_context option) option \<Rightarrow> audio_context option" where
  "getAudioContextCtor w =
    (case w of None \<Rightarrow> None
     | Some (standard, webkit) \<Rightarrow> (case standard of Some c \<Rightarrow> Some c | None \<Rightarrow> webkit))"

definition createSoundEngine :: "audio_context option \<Rightarrow> sound_engine" where
  "createSoundEngine c = \<lparr>ctor = c, en_enabled = False, en_ctx = None\<rparr>"

definition playTone :: "audio_context \<Rightarrow> real \<Rightarrow> real \<Rightarrow> real \<Rightarrow> real \<Rightarrow> audio_call" where
  "playTone c freq startOffset duration peakGain =
    (let start = ac_currentTime c + startOffset
     in StartTone \<lparr>tn_frequency = freq, tn_start = start, tn_peak_gain = peakGain, tn_peak_at = start + 0.02,
          tn_faded_at = start + duration, tn_stop = start + duration + 0.05\<rparr>)"

definition ensureContext :: "sound_engine \<Rightarrow> sound_engine \<times> audio_context option \<times> audio_call list" where
  "ensureContext e =
    (case ctor e of
       None \<Rightarrow> (e, None, [])
     | Some c \<Rightarrow>
        (case en_ctx e of
           None \<Rightarrow> (e\<lparr>en_ctx := Some c\<rparr>, Some c, [NewContext])
         | Some x \<Rightarrow> (e, Some x, [])))"

definition whenEnabled :: "(audio_context \<Rightarrow> audio_call list) \<Rightarrow> sound_engine \<Rightarrow> sound_engine \<times> audio_call list" where
  "whenEnabled fn e =
    (if \<not> en_enabled e then (e, [])
     else case ensureContext e of
       (e', None, made) \<Rightarrow> (e', made)
     | (e', Some c, made) \<Rightarrow> (e', made @ fn c))"

definition setEnabled :: "bool \<Rightarrow> sound_engine \<Rightarrow> sound_engine \<times> audio_call list" where
  "setEnabled new e =
    (e\<lparr>en_enabled := new\<rparr>,
     if \<not> new then (case en_ctx e of Some c \<Rightarrow> if ac_state c = Running then [SuspendContext] else [] | None \<Rightarrow> []) else [])"

definition resume :: "sound_engine \<Rightarrow> sound_engine \<times> audio_call list" where
  "resume = whenEnabled (\<lambda>c. if ac_state c = Suspended then [ResumeContext] else [])"

definition playRoundCue :: "sound_engine \<Rightarrow> sound_engine \<times> audio_call list" where
  "playRoundCue = whenEnabled (\<lambda>c. [playTone c 660 0 0.12 0.05])"

definition playVerdictChime :: "sound_engine \<Rightarrow> sound_engine \<times> audio_call list" where
  "playVerdictChime = whenEnabled (\<lambda>c. [playTone c 523.25 0 0.35 0.06, playTone c 783.99 0.08 0.45 0.06])"

definition context_becomes :: "audio_context \<Rightarrow> sound_engine \<Rightarrow> sound_engine" where
  "context_becomes c e = e\<lparr>en_ctx := map_option (\<lambda>_. c) (en_ctx e)\<rparr>"

section \<open>The hook\<close>

text \<open>\<open>su_stored\<close> is \<open>localStorage\<close>'s entry, \<open>su_storage\<close> whether the storage can be used (every
  access is in a \<open>try\<close>); \<open>su_seen\<close> is the value the effect last ran for, so that it runs when
  the component mounts and then when \<open>enabled\<close> changes.\<close>

record use_sound =
  su_engine :: sound_engine
  su_enabled :: bool
  su_seen :: "bool option"
  su_storage :: bool
  su_stored :: "string option"

definition readStoredPreference :: "bool \<Rightarrow> string option \<Rightarrow> bool" where
  "readStoredPreference storage stored \<longleftrightarrow> storage \<and> stored = Some ''true''"

definition writeStoredPreference :: "bool \<Rightarrow> use_sound \<Rightarrow> use_sound" where
  "writeStoredPreference b u =
    (if su_storage u then u\<lparr>su_stored := Some (if b then ''true'' else ''false'')\<rparr> else u)"

definition useSound :: "audio_context option \<Rightarrow> bool \<Rightarrow> string option \<Rightarrow> use_sound" where
  "useSound c storage stored =
    \<lparr>su_engine = createSoundEngine c, su_enabled = readStoredPreference storage stored, su_seen = None,
     su_storage = storage, su_stored = stored\<rparr>"

definition on_engine :: "(sound_engine \<Rightarrow> sound_engine \<times> audio_call list) \<Rightarrow> use_sound \<Rightarrow> use_sound \<times> audio_call list" where
  "on_engine f u = (let (e, calls) = f (su_engine u) in (u\<lparr>su_engine := e\<rparr>, calls))"

definition sound_effect :: "use_sound \<Rightarrow> use_sound \<times> audio_call list" where
  "sound_effect u =
    (if su_seen u = Some (su_enabled u) then (u, [])
     else on_engine (setEnabled (su_enabled u)) (u\<lparr>su_seen := Some (su_enabled u)\<rparr>))"

definition sound_toggle :: "use_sound \<Rightarrow> use_sound \<times> audio_call list" where
  "sound_toggle u =
    (let new = \<not> su_enabled u;
         u1 = (writeStoredPreference new u)\<lparr>su_enabled := new\<rparr>
     in if new
        then (let (u2, calls) = on_engine (setEnabled True) u1;
                  (u3, calls') = on_engine resume u2
              in (u3, calls @ calls'))
        else (u1, []))"

section \<open>What the engine can do\<close>

definition sounds :: "audio_call \<Rightarrow> bool" where
  "sounds c \<longleftrightarrow> (\<exists>t. c = StartTone t)"

definition envelope_ok :: "tone \<Rightarrow> bool" where
  "envelope_ok t \<longleftrightarrow> 0 < tn_peak_gain t \<and> tn_peak_gain t \<le> 0.06
     \<and> tn_start t < tn_peak_at t \<and> tn_peak_at t < tn_faded_at t \<and> tn_faded_at t < tn_stop t"

definition tones_at :: "real \<Rightarrow> audio_call list \<Rightarrow> nat" where
  "tones_at f calls = length (filter (\<lambda>c. case c of StartTone t \<Rightarrow> tn_frequency t = f | _ \<Rightarrow> False) calls)"

lemma tones_at_simps [simp]:
  "tones_at f [] = 0" "tones_at f (xs @ ys) = tones_at f xs + tones_at f ys"
  "tones_at f (NewContext # xs) = tones_at f xs" "tones_at f (SuspendContext # xs) = tones_at f xs"
  "tones_at f (ResumeContext # xs) = tones_at f xs"
  "tones_at f (playTone c g o' d p # xs) = (if f = g then 1 else 0) + tones_at f xs"
  by (auto simp: tones_at_def playTone_def Let_def)

lemma whenEnabled_eq:
  "whenEnabled fn e =
    (if en_enabled e \<and> ctor e \<noteq> None
     then (let c = (if en_ctx e = None then the (ctor e) else the (en_ctx e))
           in (e\<lparr>en_ctx := Some c\<rparr>, (if en_ctx e = None then [NewContext] else []) @ fn c))
     else (e, []))"
  by (cases "ctor e"; cases "en_ctx e") (simp_all add: whenEnabled_def ensureContext_def Let_def)

text \<open>What can be done to an engine, the browser's part included.\<close>

datatype engine_op = SetEnabled bool | Resume | RoundCue | VerdictChime | ContextBecomes audio_context

fun engine_does :: "engine_op \<Rightarrow> sound_engine \<Rightarrow> sound_engine \<times> audio_call list" where
  "engine_does (SetEnabled b) e = setEnabled b e"
| "engine_does Resume e = resume e"
| "engine_does RoundCue e = playRoundCue e"
| "engine_does VerdictChime e = playVerdictChime e"
| "engine_does (ContextBecomes c) e = (context_becomes c e, [])"

lemma setEnabled_fields [simp]:
  "en_enabled (fst (setEnabled b e)) = b" "en_ctx (fst (setEnabled b e)) = en_ctx e" "ctor (fst (setEnabled b e)) = ctor e"
  by (simp_all add: setEnabled_def)

lemma setEnabled_calls: "c \<in> set (snd (setEnabled b e)) \<Longrightarrow> c = SuspendContext"
  by (cases b; cases "en_ctx e") (auto simp: setEnabled_def split: if_split_asm)

lemma whenEnabled_fields [simp]:
  "en_enabled (fst (whenEnabled fn e)) = en_enabled e" "ctor (fst (whenEnabled fn e)) = ctor e"
  by (simp_all add: whenEnabled_eq Let_def)

lemma whenEnabled_made:
  "(\<And>c. NewContext \<notin> set (fn c)) \<Longrightarrow>
   count_list (snd (whenEnabled fn e)) NewContext + (if en_ctx e = None then 0 else 1)
     = (if en_ctx (fst (whenEnabled fn e)) = None then 0 else 1)"
  by (simp add: whenEnabled_eq Let_def count_list_0_iff)

lemma playTone_simps [simp]: "playTone c f s d p \<noteq> NewContext" "NewContext \<noteq> playTone c f s d p"
  "playTone c f s d p \<noteq> ResumeContext" "playTone c f s d p = StartTone t \<longleftrightarrow>
     t = \<lparr>tn_frequency = f, tn_start = ac_currentTime c + s, tn_peak_gain = p, tn_peak_at = ac_currentTime c + s + 0.02,
          tn_faded_at = ac_currentTime c + s + d, tn_stop = ac_currentTime c + s + d + 0.05\<rparr>"
  by (auto simp: playTone_def Let_def)

lemma context_made_once:
  "count_list (snd (engine_does x e)) NewContext + (if en_ctx e = None then 0 else 1)
     = (if en_ctx (fst (engine_does x e)) = None then 0 else 1)"
proof (cases x)
  case (SetEnabled b)
  have "NewContext \<notin> set (snd (setEnabled b e))" using setEnabled_calls by blast
  with SetEnabled show ?thesis by (simp add: count_list_0_iff)
next
  case (ContextBecomes c)
  then show ?thesis by (simp add: context_becomes_def)
qed (simp_all add: resume_def playRoundCue_def playVerdictChime_def whenEnabled_made)

text \<open>Nothing sounds, and no context is made or resumed, unless the engine is enabled.\<close>

lemma whenEnabled_muted: "\<not> en_enabled e \<Longrightarrow> whenEnabled fn e = (e, [])"
  by (simp add: whenEnabled_def)

lemma muted_op:
  assumes "\<not> en_enabled e"
  shows "set (snd (engine_does x e)) \<subseteq> {SuspendContext}"
  using assms setEnabled_calls
  by (cases x) (auto simp: resume_def playRoundCue_def playVerdictChime_def whenEnabled_muted)

lemma whenEnabled_tone: "StartTone t \<in> set (snd (whenEnabled fn e)) \<Longrightarrow> \<exists>c. StartTone t \<in> set (fn c)"
  by (auto simp: whenEnabled_eq Let_def split: if_splits)

lemma tone_envelope:
  assumes "StartTone t \<in> set (snd (engine_does x e))"
  shows "envelope_ok t"
proof (cases x)
  case (SetEnabled b)
  with assms setEnabled_calls show ?thesis by force
next
  case Resume
  with assms show ?thesis by (auto simp: resume_def dest!: whenEnabled_tone split: if_splits)
next
  case RoundCue
  with assms obtain c where "StartTone t = playTone c 660 0 0.12 0.05"
    by (auto simp: playRoundCue_def simp del: playTone_simps dest!: whenEnabled_tone)
  from this [symmetric] show ?thesis by (simp add: envelope_ok_def)
next
  case VerdictChime
  with assms obtain c where "StartTone t = playTone c 523.25 0 0.35 0.06 \<or> StartTone t = playTone c 783.99 0.08 0.45 0.06"
    by (auto simp: playVerdictChime_def simp del: playTone_simps dest!: whenEnabled_tone)
  then show ?thesis by (auto simp: playTone_def Let_def envelope_ok_def simp del: playTone_simps)
qed (use assms in simp)

lemma mute_untouched [simp]: "en_ctx e = None \<Longrightarrow> setEnabled False e = (e\<lparr>en_enabled := False\<rparr>, [])"
  by (simp add: setEnabled_def)

end
