(* ===== verification/Control_Views.thy ===== *)
theory Control_Views
  imports Transcript_Views Personas
begin

text \<open>
  The components the user drives a debate with: \<open>components/controls/\<close> and, of
  \<open>components/overlay/\<close>, the question overlay, the docket and the stage controls. The question
  form is the one with state of its own: the record \<open>question_form\<close>, and \<open>form_step\<close> for its
  callbacks; \<open>submit\<close> hands a question and a round count to \<open>onAsk\<close>, or does nothing.

  Picking a preset also moves the focus to the text field, as \<open>Focus\<close> has it.
\<close>

definition LIVE_PHASES :: "debate_phase set" where
  "LIVE_PHASES = {PhConnecting, PhDebating, PhModerating}"

section \<open>Small controls\<close>

definition ROUND_OPTIONS :: "nat list" where
  "ROUND_OPTIONS = map (\<lambda>i. MIN_ROUNDS + i * 2) [0..<(MAX_ROUNDS - MIN_ROUNDS) div 2 + 1]"

definition RoundsSelector :: "nat \<Rightarrow> (nat \<Rightarrow> 'a) \<Rightarrow> bool \<Rightarrow> 'a node" where
  "RoundsSelector selected onChange disabled =
    El ''label'' []
      [El ''span'' [] [Txt (js ''Rounds'')],
       El ''select'' ([NumValue selected, OnSelect onChange] @ (if disabled then [Disabled] else []))
         (map (\<lambda>r. El ''option'' [NumValue r] [Txt (shown r)]) ROUND_OPTIONS)]"

definition SEATS :: "persona_id list" where
  "SEATS = PANELISTS @ [MODERATOR_ID]"

definition SeatIndicator :: "'a node" where
  "SeatIndicator =
    El ''div'' []
      [El ''div'' [Role ''group'', AriaLabel (js ''Council seats'')]
         (map (\<lambda>p. let name = displayName (personaMeta p) @ js '' '' @ EM_DASH @ js '' '' @ meta_role (personaMeta p)
                   in El ''span'' [Role ''img'', Title name, AriaLabel name, Accent (accentOf p)] []) SEATS),
       El ''span'' [] [Txt (js ''Council '' @ MIDDLE_DOT @ js '' ''), Txt (shown (length SEATS)), Txt (js '' seats ready'')]]"

definition SoundToggle :: "bool \<Rightarrow> 'a \<Rightarrow> 'a node" where
  "SoundToggle enabled onToggle =
    (let label = js (if enabled then ''Mute sound'' else ''Unmute sound'')
     in El ''button'' [OnClick onToggle, AriaPressed enabled, AriaLabel label, Title label] [El ''svg'' [AriaHidden] []])"

definition TopicPresets :: "(jstr \<Rightarrow> 'a) \<Rightarrow> bool \<Rightarrow> 'a node" where
  "TopicPresets onPick disabled =
    El ''div'' [Role ''group'', AriaLabel (js ''Example questions'')]
      (map (\<lambda>pr. El ''button'' ((if disabled then [Disabled] else []) @ [OnClick (onPick (preset_question pr))])
         [Txt (preset_label pr)]) TOPIC_PRESETS)"

text \<open>The presets of the playback speed, with the text each button shows.\<close>

definition RATE_PRESETS :: "(jsnum \<times> string) list" where
  "RATE_PRESETS = [(JNum (1 / 2), ''0.5''), (JNum 1, ''1''), (JNum (3 / 2), ''1.5''), (JNum 2, ''2'')]"

definition PlaybackControls :: "debate_phase \<Rightarrow> jsnum \<Rightarrow> (jsnum \<Rightarrow> 'a) \<Rightarrow> bool \<Rightarrow> 'a \<Rightarrow> 'a node list" where
  "PlaybackControls ph speed onSetRate atLive onGoToLive =
    (if ph \<notin> LIVE_PHASES then []
     else [El ''div'' []
       (El ''div'' [Role ''group'', AriaLabel (js ''Playback speed'')]
          (map (\<lambda>(x, name). El ''button'' [OnClick (onSetRate x), AriaPressed (js_num_eq speed x)] [Txt (js name), Txt (js ''x'')])
            RATE_PRESETS)
        # (if \<not> atLive then [El ''button'' [OnClick onGoToLive] [Txt (js ''Go to live'')]] else []))])"

section \<open>The question form\<close>

record question_form =
  qf_question :: jstr
  qf_rounds :: nat

definition question_form_init :: question_form where
  "question_form_init = \<lparr>qf_question = [], qf_rounds = DEFAULT_ROUNDS\<rparr>"

datatype form_action = TypeQuestion jstr | ChooseRounds nat | PickPreset jstr | SubmitForm

definition form_validation :: "question_form \<Rightarrow> build_ask_result" where
  "form_validation f = buildAsk (qf_question f) (Some (JNum (of_nat (qf_rounds f))))"

definition form_ok :: "question_form \<Rightarrow> bool" where
  "form_ok f \<longleftrightarrow> (case form_validation f of AskOk _ \<Rightarrow> True | AskErr _ \<Rightarrow> False)"

definition submit :: "debate_phase \<Rightarrow> question_form \<Rightarrow> (jstr \<times> nat) option" where
  "submit ph f = (if form_ok f \<and> ph \<notin> LIVE_PHASES then Some (js_trim (qf_question f), qf_rounds f) else None)"

fun form_step :: "debate_phase \<Rightarrow> form_action \<Rightarrow> question_form \<Rightarrow> question_form \<times> (jstr \<times> nat) option" where
  "form_step ph (TypeQuestion t) f = (f\<lparr>qf_question := t\<rparr>, None)"
| "form_step ph (ChooseRounds n) f = (f\<lparr>qf_rounds := n\<rparr>, None)"
| "form_step ph (PickPreset t) f = (f\<lparr>qf_question := t\<rparr>, None)"
| "form_step ph SubmitForm f = (f, submit ph f)"

definition form_error :: "question_form \<Rightarrow> jstr option" where
  "form_error f =
    (case form_validation f of
       AskOk _ \<Rightarrow> None
     | AskErr e \<Rightarrow> if js_trim (qf_question f) \<noteq> [] then Some e else None)"

definition QuestionForm ::
    "debate_phase \<Rightarrow> (form_action \<Rightarrow> 'a) \<Rightarrow> 'a \<Rightarrow> bool \<Rightarrow> 'a option \<Rightarrow> question_form \<Rightarrow> 'a node" where
  "QuestionForm ph act onStop soundEnabled onToggleSound f =
    (let live = (ph \<in> LIVE_PHASES);
         err = form_error f
     in El ''form'' [OnSubmit (act SubmitForm)]
          (replicate 4 (El ''span'' [AriaHidden] [])
           @ [El ''div'' [] [SeatIndicator],
              TopicPresets (\<lambda>t. act (PickPreset t)) live,
              El ''label'' [] [Txt (js ''The motion''), El ''span'' [AriaHidden] [Txt CURSOR_BAR]],
              El ''div'' []
                [El ''textarea''
                   [AriaLabel (js ''The motion '' @ EM_DASH @ js '' your question for the council''),
                    Placeholder (js ''Put a question to the council'' @ ELLIPSIS), AriaInvalid (err \<noteq> None), TextValue (qf_question f),
                    OnInput (\<lambda>t. act (TypeQuestion t)), OnCtrlEnter (act SubmitForm)] []],
              El ''div'' []
                ([RoundsSelector (qf_rounds f) (\<lambda>n. act (ChooseRounds n)) live,
                  El ''button'' (if \<not> form_ok f \<or> live then [Disabled] else [OnClick (act SubmitForm)])
                    [Txt (if live then js ''Council in session'' @ ELLIPSIS else js ''Convene the council'')]]
                 @ (if live then [El ''button'' [OnClick onStop] [Txt (js ''Stop'')]] else [])
                 @ (case onToggleSound of None \<Rightarrow> [] | Some h \<Rightarrow> [SoundToggle soundEnabled h])
                 @ [El ''span'' [] [Txt (shown (runeCount (qf_question f))), Txt (js '' / ''), Txt (shown MAX_QUESTION_RUNES)]])]
           @ (case err of None \<Rightarrow> [] | Some e \<Rightarrow> [El ''p'' [Role ''alert''] [Txt e]])))"

section \<open>Overlays of the stage\<close>

definition QuestionOverlay :: "bool \<Rightarrow> debate_phase \<Rightarrow> (form_action \<Rightarrow> 'a) \<Rightarrow> 'a \<Rightarrow> question_form \<Rightarrow> 'a node" where
  "QuestionOverlay visible ph act ignored f =
    El ''div'' (if visible then [] else [Inert, AriaHidden])
      [El ''div'' [] [El ''div'' [] [QuestionForm ph act ignored False None f]]]"

definition Docket :: "jstr \<Rightarrow> debate_phase \<Rightarrow> nat \<Rightarrow> nat \<Rightarrow> 'a \<Rightarrow> bool \<Rightarrow> 'a node list" where
  "Docket question ph cur rounds onEdit editDisabled =
    (if js_trim question = [] then []
     else [El ''aside'' [AriaLabel (js ''Debate docket'')]
       [El ''p'' [] [Txt (js ''The council is deliberating'')],
        El ''button'' ([OnClick onEdit, Title (js (if editDisabled then ''Available once the debate finishes''
            else ''Edit or ask another question''))] @ (if editDisabled then [Disabled] else []))
          [Txt question],
        El ''div'' [] (ConnectionStatus ph cur rounds)]])"

definition StageControls ::
    "debate_phase \<Rightarrow> bool \<Rightarrow> 'a \<Rightarrow> 'a \<Rightarrow> bool \<Rightarrow> 'a \<Rightarrow> bool \<Rightarrow> 'a \<Rightarrow> jsnum \<Rightarrow> (jsnum \<Rightarrow> 'a) \<Rightarrow> bool \<Rightarrow> 'a \<Rightarrow> 'a node" where
  "StageControls ph composing onStop onAskAnother drawerOpen onToggleDrawer soundEnabled onToggleSound
      speed onSetRate atLive onGoToLive =
    (let live = (ph \<in> LIVE_PHASES)
     in El ''div'' []
          (PlaybackControls ph speed onSetRate atLive onGoToLive
           @ (if live then [El ''button'' [OnClick onStop] [Txt (js ''Stop'')]] else [])
           @ (if \<not> live \<and> \<not> composing then [El ''button'' [OnClick onAskAnother] [Txt (js ''Ask another'')]] else [])
           @ [El ''button'' [OnClick onToggleDrawer, AriaPressed drawerOpen,
                AriaLabel (js (if drawerOpen then ''Hide transcript'' else ''Show transcript''))] [Txt (js ''Transcript'')],
              El ''span'' [] [SoundToggle soundEnabled onToggleSound]]))"

section \<open>The form asks only what starts a debate\<close>

lemma ROUND_OPTIONS_eq: "ROUND_OPTIONS = [2, 4, 6, 8]"
  by code_simp

lemma js_trim_idem [simp]: "js_trim (js_trim t) = js_trim t"
  by (simp add: js_trim_def trim_by_trim_by)

lemma submit_accepted:
  assumes "submit ph f = Some (q, r)"
  shows "\<exists>m. buildAsk q (Some (JNum (of_nat r))) = AskOk m \<and> ask_question m = q" "ph \<notin> LIVE_PHASES"
  using assms by (auto simp: submit_def form_ok_def form_validation_def buildAsk_def Let_def
      split: if_splits build_ask_result.splits)

end
