(* ===== verification/App_Shell.thy ===== *)
theory App_Shell
  imports Session Sound Control_Views
begin

text \<open>
  \<open>App.tsx\<close> and its two layouts, \<open>components/StageLayout.tsx\<close> and
  \<open>components/MobileLayout.tsx\<close>: the one owner of the debate, the sound and the layout switch.

  A layout renders a tree whose handlers are \<open>ui_action\<close>s; \<open>stage_do\<close> and \<open>mobile_do\<close> are those
  handlers, and what a layout passes up to \<open>App\<close> is an \<open>app_call\<close>. A step of the app is a click on
  something the rendered tree offers, an event of the session (a timer, a socket), a commit,
  after which React runs the effects (a child's before its parent's, then in order of
  declaration), a change of the window's width, or the browser changing the audio context. A
  handler sees the state of the last render: React renders before it delivers the next click.

  All that is rendered is state React keeps, but for \<open>isAtLive\<close>, which \<open>useDebate\<close> asks of the player when
  \<open>App\<close> renders; a call of the player that dispatches nothing does not make it render. So what that
  render read is kept, in \<open>ap_atLive\<close>: it is read again when what \<open>App\<close>'s hooks hold has changed
  (\<open>rerender\<close>), and with any commit (\<open>refresh\<close>), as React may render \<open>App\<close> when nothing has.

  Where the focus goes is the matter of \<open>Focus\<close>; \<open>DebateStage\<close> and \<open>Markdown\<close> render third-party components, and
  what they render is the parameters \<open>canvas\<close> and \<open>md\<close>.
\<close>

section \<open>Layouts\<close>

datatype ui_action =
    FormAct form_action
  | StopAct
  | RateAct jsnum
  | LiveAct
  | SoundAct
  | ComposeAct
  | DrawerAct
  | CloseDrawerAct
  | DismissAct
  | AskAnotherAct
  | NoAct

datatype app_call = CallAsk jstr nat | CallStop | CallSetRate jsnum | CallGoToLive | CallToggleSound

record stage_layout =
  sg_drawerOpen :: bool
  sg_composing :: bool
  sg_form :: question_form

definition stage_mount :: "debate_phase \<Rightarrow> stage_layout" where
  "stage_mount ph = \<lparr>sg_drawerOpen = False, sg_composing = (ph = PhIdle), sg_form = question_form_init\<rparr>"

fun stage_do :: "debate_phase \<Rightarrow> ui_action \<Rightarrow> stage_layout \<Rightarrow> stage_layout \<times> app_call list" where
  "stage_do ph (FormAct x) L =
     (let (f, asked) = form_step ph x (sg_form L)
      in case asked of
           None \<Rightarrow> (L\<lparr>sg_form := f\<rparr>, [])
         | Some (q, r) \<Rightarrow> (L\<lparr>sg_form := f, sg_composing := False\<rparr>, [CallAsk q r]))"
| "stage_do ph StopAct L = (L, [CallStop])"
| "stage_do ph (RateAct x) L = (L, [CallSetRate x])"
| "stage_do ph LiveAct L = (L, [CallGoToLive])"
| "stage_do ph SoundAct L = (L, [CallToggleSound])"
| "stage_do ph ComposeAct L = (if ph \<in> LIVE_PHASES then L else L\<lparr>sg_composing := True\<rparr>, [])"
| "stage_do ph DrawerAct L = (L\<lparr>sg_drawerOpen := \<not> sg_drawerOpen L\<rparr>, [])"
| "stage_do ph CloseDrawerAct L = (L\<lparr>sg_drawerOpen := False\<rparr>, [])"
| "stage_do ph _ L = (L, [])"

definition StageLayout ::
    "(jstr \<Rightarrow> ui_action node list) \<Rightarrow> (debate_state \<Rightarrow> ui_action node list) \<Rightarrow> (persona_id \<Rightarrow> nat \<Rightarrow> smooth) \<Rightarrow> debate_state \<Rightarrow> jstr \<Rightarrow> nat
      \<Rightarrow> bool \<Rightarrow> jsnum \<Rightarrow> bool \<Rightarrow> stage_layout \<Rightarrow> ui_action node" where
  "StageLayout md canvas sm s question rounds soundEnabled speed atLive L =
    (let live = (phase s \<in> LIVE_PHASES)
     in El ''main'' []
          [StageAnnouncer s,
           El ''div'' [] (canvas s),
           El ''div'' []
             [El ''span'' [] [Txt (js ''Council'')],
              El ''div'' [] (Docket question (phase s) (currentRound s) rounds ComposeAct live)],
           El ''div'' [] [El ''div'' [] (ErrorBanner s)],
           QuestionOverlay (sg_composing L) (phase s) FormAct NoAct (sg_form L),
           El ''div'' []
             [StageControls (phase s) (sg_composing L) StopAct ComposeAct (sg_drawerOpen L) DrawerAct
                soundEnabled SoundAct speed RateAct atLive LiveAct],
           TranscriptDrawer md sm s (sg_drawerOpen L) CloseDrawerAct])"

record mobile_layout =
  mb_form :: question_form
  mb_spotlight :: spotlight

definition mobile_mount :: "debate_phase \<Rightarrow> mobile_layout" where
  "mobile_mount ph = \<lparr>mb_form = question_form_init, mb_spotlight = useVerdictSpotlight ph\<rparr>"

definition dismissVerdict :: "mobile_layout \<Rightarrow> mobile_layout" where
  "dismissVerdict L = L\<lparr>mb_spotlight := spotlight_dismiss (mb_spotlight L)\<rparr>"

fun mobile_do :: "debate_phase \<Rightarrow> ui_action \<Rightarrow> mobile_layout \<Rightarrow> mobile_layout \<times> app_call list" where
  "mobile_do ph (FormAct x) L =
     (let (f, asked) = form_step ph x (mb_form L)
      in case asked of
           None \<Rightarrow> (L\<lparr>mb_form := f\<rparr>, [])
         | Some (q, r) \<Rightarrow> (dismissVerdict (L\<lparr>mb_form := f\<rparr>), [CallAsk q r]))"
| "mobile_do ph StopAct L = (L, [CallStop])"
| "mobile_do ph (RateAct x) L = (L, [CallSetRate x])"
| "mobile_do ph LiveAct L = (L, [CallGoToLive])"
| "mobile_do ph SoundAct L = (L, [CallToggleSound])"
| "mobile_do ph DismissAct L = (dismissVerdict L, [])"
| "mobile_do ph AskAnotherAct L = (dismissVerdict L, [])"
| "mobile_do ph _ L = (L, [])"

text \<open>The panel is mounted for the final verdict only, with no text left to type out.\<close>

definition MobileLayout ::
    "(jstr \<Rightarrow> ui_action node list) \<Rightarrow> (persona_id \<Rightarrow> nat \<Rightarrow> smooth) \<Rightarrow> debate_state \<Rightarrow> nat
      \<Rightarrow> bool \<Rightarrow> jsnum \<Rightarrow> bool \<Rightarrow> mobile_layout \<Rightarrow> ui_action node" where
  "MobileLayout md sm s rounds soundEnabled speed atLive L =
    (let shows = showVerdict (phase s) (mb_spotlight L)
     in El ''main'' []
          ([Header, QuestionForm (phase s) FormAct StopAct soundEnabled (Some SoundAct) (mb_form L)]
           @ PlaybackControls (phase s) speed RateAct atLive LiveAct
           @ ConnectionStatus (phase s) (currentRound s) rounds
           @ ErrorBanner s
           @ [TranscriptGrid sm s shows]
           @ (if shows then [VerdictPanel md (smooth_init []) PhDone (verdict s) [] DismissAct AskAnotherAct] else [])))"

section \<open>The app\<close>

datatype layout = Stage stage_layout | Mobile mobile_layout

record app =
  ap_session :: session
  ap_atLive :: bool
  ap_rounds :: nat
  ap_question :: jstr
  ap_sound :: use_sound
  ap_previousRound :: nat
  ap_previousPhase :: debate_phase
  ap_layout :: layout

definition ap_state :: "app \<Rightarrow> debate_state" where
  "ap_state a = se_state (ap_session a)"

fun mount_layout :: "bool \<Rightarrow> debate_phase \<Rightarrow> layout" where
  "mount_layout True ph = Stage (stage_mount ph)"
| "mount_layout False ph = Mobile (mobile_mount ph)"

definition App :: "bool \<Rightarrow> use_sound \<Rightarrow> bool \<Rightarrow> app" where
  "App m u stageFirst =
    (let s = useDebate m
     in \<lparr>ap_session = s, ap_atLive = session_isAtLive s, ap_rounds = DEFAULT_ROUNDS, ap_question = [], ap_sound = u,
         ap_previousRound = currentRound (se_state s), ap_previousPhase = phase (se_state s),
         ap_layout = mount_layout stageFirst (phase (se_state s))\<rparr>)"

definition render ::
    "(jstr \<Rightarrow> ui_action node list) \<Rightarrow> (debate_state \<Rightarrow> ui_action node list) \<Rightarrow> (persona_id \<Rightarrow> nat \<Rightarrow> smooth) \<Rightarrow> app \<Rightarrow> ui_action node" where
  "render md canvas sm a =
    (let s = ap_session a; enabled = su_enabled (ap_sound a)
     in case ap_layout a of
          Stage L \<Rightarrow> StageLayout md canvas sm (se_state s) (ap_question a) (ap_rounds a) enabled (se_rate s) (ap_atLive a) L
        | Mobile L \<Rightarrow> MobileLayout md sm (se_state s) (ap_rounds a) enabled (se_rate s) (ap_atLive a) L)"

definition app_inputs :: "app \<Rightarrow> debate_state \<times> jsnum \<times> nat \<times> jstr \<times> bool \<times> bool" where
  "app_inputs a = (ap_state a, se_rate (ap_session a), ap_rounds a, ap_question a, su_enabled (ap_sound a),
     (case ap_layout a of Stage _ \<Rightarrow> True | Mobile _ \<Rightarrow> False))"

definition refresh :: "app \<Rightarrow> app" where
  "refresh a = a\<lparr>ap_atLive := session_isAtLive (ap_session a)\<rparr>"

definition rerender :: "app \<Rightarrow> app \<Rightarrow> app" where
  "rerender a a' = (if app_inputs a' = app_inputs a then a' else refresh a')"

definition handleAsk :: "jstr \<Rightarrow> nat \<Rightarrow> app \<Rightarrow> app" where
  "handleAsk q r a = a\<lparr>ap_rounds := r, ap_question := q, ap_session := ask q (Some (JNum (of_nat r))) (ap_session a)\<rparr>"

fun app_call_does :: "app_call \<Rightarrow> app \<Rightarrow> (app \<times> audio_call list) option" where
  "app_call_does (CallAsk q r) a = Some (handleAsk q r a, [])"
| "app_call_does CallStop a = Some (a\<lparr>ap_session := stop (ap_session a)\<rparr>, [])"
| "app_call_does (CallSetRate x) a = Some (a\<lparr>ap_session := setRate_callback x (ap_session a)\<rparr>, [])"
| "app_call_does CallGoToLive a = map_option (\<lambda>s. (a\<lparr>ap_session := s\<rparr>, [])) (goToLive (ap_session a))"
| "app_call_does CallToggleSound a =
     (let (u, calls) = sound_toggle (ap_sound a) in Some (a\<lparr>ap_sound := u\<rparr>, calls))"

fun layout_do :: "debate_phase \<Rightarrow> ui_action \<Rightarrow> layout \<Rightarrow> layout \<times> app_call list" where
  "layout_do ph act (Stage L) = (let (L', cs) = stage_do ph act L in (Stage L', cs))"
| "layout_do ph act (Mobile L) = (let (L', cs) = mobile_do ph act L in (Mobile L', cs))"

text \<open>A handler makes at most one call of the app.\<close>

definition app_click :: "ui_action \<Rightarrow> app \<Rightarrow> (app \<times> audio_call list) option" where
  "app_click act a =
    (let (L, cs) = layout_do (phase (ap_state a)) act (ap_layout a); a1 = a\<lparr>ap_layout := L\<rparr>
     in case cs of [] \<Rightarrow> Some (a1, []) | c # _ \<Rightarrow> app_call_does c a1)"

text \<open>The effects of a commit.\<close>

definition round_effect :: "app \<Rightarrow> app \<times> audio_call list" where
  "round_effect a =
    (let cur = currentRound (ap_state a);
         (u, calls) = (if ap_previousRound a > 0 \<and> cur > ap_previousRound a then on_engine playRoundCue (ap_sound a)
                       else (ap_sound a, []))
     in (a\<lparr>ap_sound := u, ap_previousRound := cur\<rparr>, calls))"

definition phase_effect :: "app \<Rightarrow> app \<times> audio_call list" where
  "phase_effect a =
    (let ph = phase (ap_state a);
         (u, calls) = (if ph = PhDone \<and> ap_previousPhase a \<noteq> PhDone then on_engine playVerdictChime (ap_sound a)
                       else (ap_sound a, []))
     in (a\<lparr>ap_sound := u, ap_previousPhase := ph\<rparr>, calls))"

fun layout_effect :: "debate_phase \<Rightarrow> layout \<Rightarrow> layout" where
  "layout_effect ph (Stage L) = Stage L"
| "layout_effect ph (Mobile L) = Mobile (L\<lparr>mb_spotlight := spotlight_effect ph (mb_spotlight L)\<rparr>)"

definition app_commit :: "app \<Rightarrow> app \<times> audio_call list" where
  "app_commit a =
    (let a1 = a\<lparr>ap_layout := layout_effect (phase (ap_state a)) (ap_layout a)\<rparr>;
         (u, c1) = sound_effect (ap_sound a1);
         (a2, c2) = round_effect (a1\<lparr>ap_sound := u\<rparr>);
         (a3, c3) = phase_effect a2
     in (a3, c1 @ c2 @ c3))"

definition is_stage :: "layout \<Rightarrow> bool" where
  "is_stage L = (case L of Stage _ \<Rightarrow> True | Mobile _ \<Rightarrow> False)"

definition app_resize :: "bool \<Rightarrow> app \<Rightarrow> app" where
  "app_resize stageFirst a =
    (if is_stage (ap_layout a) = stageFirst then a
     else a\<lparr>ap_layout := mount_layout stageFirst (phase (ap_state a))\<rparr>)"

section \<open>Everything that can happen\<close>

datatype app_event =
    Click ui_action
  | TimerEvent
  | SocketEvent nat socket_event
  | Commit
  | Resize bool
  | AudioBecomes audio_context

inductive app_step ::
    "(jstr \<Rightarrow> json option) \<Rightarrow> safe_parser \<Rightarrow> (jstr \<Rightarrow> ui_action node list) \<Rightarrow> (debate_state \<Rightarrow> ui_action node list)
      \<Rightarrow> app \<Rightarrow> app_event \<Rightarrow> app \<Rightarrow> audio_call list \<Rightarrow> bool"
  for jp :: "jstr \<Rightarrow> json option" and sp :: safe_parser and md :: "jstr \<Rightarrow> ui_action node list" and canvas :: "debate_state \<Rightarrow> ui_action node list" where
  clicks: "act \<in> actions (render md canvas sm a) \<Longrightarrow> app_click act a = Some (a', cs) \<Longrightarrow> app_step jp sp md canvas a (Click act) (rerender a a') cs"
| timers: "session_step jp sp (ap_session a) Timer s \<Longrightarrow>
    app_step jp sp md canvas a TimerEvent (rerender a (a\<lparr>ap_session := s\<rparr>)) []"
| sockets: "session_step jp sp (ap_session a) (Socket n e) s \<Longrightarrow>
    app_step jp sp md canvas a (SocketEvent n e) (rerender a (a\<lparr>ap_session := s\<rparr>)) []"
| commits: "app_commit (refresh a) = (a', cs) \<Longrightarrow> app_step jp sp md canvas a Commit a' cs"
| resizes: "app_step jp sp md canvas a (Resize wide) (rerender a (app_resize wide a)) []"
| audio: "app_step jp sp md canvas a (AudioBecomes c)
    (a\<lparr>ap_sound := (ap_sound a)\<lparr>su_engine := context_becomes c (su_engine (ap_sound a))\<rparr>\<rparr>) []"

inductive app_run ::
    "(jstr \<Rightarrow> json option) \<Rightarrow> safe_parser \<Rightarrow> (jstr \<Rightarrow> ui_action node list) \<Rightarrow> (debate_state \<Rightarrow> ui_action node list)
      \<Rightarrow> app \<Rightarrow> app_event list \<Rightarrow> app \<Rightarrow> audio_call list \<Rightarrow> bool"
  for jp :: "jstr \<Rightarrow> json option" and sp :: safe_parser and md :: "jstr \<Rightarrow> ui_action node list" and canvas :: "debate_state \<Rightarrow> ui_action node list" where
  app_stays: "app_run jp sp md canvas a [] a []"
| app_goes: "app_step jp sp md canvas a e a1 cs \<Longrightarrow> app_run jp sp md canvas a1 es a2 ds \<Longrightarrow> app_run jp sp md canvas a (e # es) a2 (cs @ ds)"

inductive_cases app_stepE: "app_step jp sp md canvas a e a' cs"

text \<open>What a render reads changes nothing else.\<close>

lemma refresh_frame [simp]:
  "ap_session (refresh a) = ap_session a" "ap_sound (refresh a) = ap_sound a" "ap_layout (refresh a) = ap_layout a"
  "ap_previousPhase (refresh a) = ap_previousPhase a" "ap_previousRound (refresh a) = ap_previousRound a"
  "ap_rounds (refresh a) = ap_rounds a" "ap_question (refresh a) = ap_question a" "ap_state (refresh a) = ap_state a"
  by (simp_all add: refresh_def ap_state_def)

lemma rerender_frame [simp]:
  "ap_session (rerender a b) = ap_session b" "ap_sound (rerender a b) = ap_sound b" "ap_layout (rerender a b) = ap_layout b"
  "ap_previousPhase (rerender a b) = ap_previousPhase b" "ap_previousRound (rerender a b) = ap_previousRound b"
  "ap_rounds (rerender a b) = ap_rounds b" "ap_question (rerender a b) = ap_question b" "ap_state (rerender a b) = ap_state b"
  by (simp_all add: rerender_def)

text \<open>The source hands no handler to \<open>Markdown\<close> or into the canvas.\<close>

definition no_handlers :: "(jstr \<Rightarrow> ui_action node list) \<Rightarrow> (debate_state \<Rightarrow> ui_action node list) \<Rightarrow> bool" where
  "no_handlers md canvas \<longleftrightarrow> (\<forall>v. actions_of (md v) = {}) \<and> (\<forall>s. actions_of (canvas s) = {})"

section \<open>What the layouts offer\<close>

lemma actions_of_map [simp]: "actions_of (map f xs) = (\<Union>x\<in>set xs. actions (f x))"
  by (simp add: actions_of_def image_image)

lemma actions_of_replicate [simp]: "actions_of (replicate n x) = (if n = 0 then {} else actions x)"
  by (simp add: actions_of_def)

lemma no_actions [simp]:
  "actions (TypingIndicator l) = {}" "actions (StatusDot st) = {}" "actions (RoundBlock sm r t b) = {}"
  "actions_of (ConnectionStatus ph c n) = {}" "actions_of (ErrorBanner s) = {}" "actions (StageAnnouncer s) = {}"
  "actions Header = {}" "actions SeatIndicator = {}"
  by (simp_all add: TypingIndicator_def StatusDot_def RoundBlock_def ConnectionStatus_def ErrorBanner_def
      StageAnnouncer_def Header_def SeatIndicator_def Let_def split: option.split)

lemma no_actions_grid [simp]: "actions (TranscriptGrid sm s d) = {}"
  by (simp add: TranscriptGrid_def column_of_def PersonaColumn_def Let_def)

lemma actions_PlaybackControls:
  "actions_of (PlaybackControls ph speed f b g) =
     (if ph \<in> LIVE_PHASES then f ` fst ` set RATE_PRESETS \<union> (if b then {} else {g}) else {})"
  by (auto simp: PlaybackControls_def split_beta)

lemma actions_SoundToggle [simp]: "actions (SoundToggle b h) = {h}"
  by (simp add: SoundToggle_def Let_def)

lemma actions_QuestionForm:
  "actions (QuestionForm ph act onStop b tog f) =
     {act SubmitForm} \<union> range (\<lambda>t. act (TypeQuestion t)) \<union> set_option tog
   \<union> (if ph \<in> LIVE_PHASES then {onStop}
       else (\<lambda>p. act (PickPreset (preset_question p))) ` set TOPIC_PRESETS \<union> (\<lambda>n. act (ChooseRounds n)) ` set ROUND_OPTIONS)"
  by (auto simp: QuestionForm_def TopicPresets_def RoundsSelector_def Let_def split: option.split)

section \<open>The invariant\<close>

fun composing :: "layout \<Rightarrow> bool" where
  "composing (Stage L) = sg_composing L"
| "composing (Mobile L) = False"

definition app_inv :: "app \<Rightarrow> bool" where
  "app_inv a \<longleftrightarrow> session_inv (ap_session a) \<and> attended (ap_session a)
     \<and> (composing (ap_layout a) \<longrightarrow> \<not> live (ap_session a))"

lemma app_inv_render [simp]: "app_inv (rerender a b) = app_inv b" "app_inv (refresh a) = app_inv a"
  by (simp_all add: app_inv_def)

lemma live_phase: "live (ap_session a) \<longleftrightarrow> phase (ap_state a) \<in> LIVE_PHASES"
  by (simp add: live_def LIVE_PHASES_def ap_state_def)

text \<open>Every question that reaches \<open>ask\<close> went through the form.\<close>

lemma layout_asks:
  "CallAsk q r \<in> set (snd (layout_do ph act L)) \<Longrightarrow>
   (\<exists>f. submit ph f = Some (q, r)) \<and> snd (layout_do ph act L) = [CallAsk q r] \<and> \<not> composing (fst (layout_do ph act L))"
  by (cases L; cases act; cases "case act of FormAct x \<Rightarrow> x | _ \<Rightarrow> SubmitForm")
    (auto simp: Let_def split: option.splits)

lemma layout_one_call: "length (snd (layout_do ph act L)) \<le> 1"
  by (cases L; cases act; cases "case act of FormAct x \<Rightarrow> x | _ \<Rightarrow> SubmitForm")
    (auto simp: Let_def split: option.splits)

lemma layout_composing:
  "composing (fst (layout_do ph act L)) \<Longrightarrow> composing L \<or> ph \<notin> LIVE_PHASES"
  by (cases L; cases act; cases "case act of FormAct x \<Rightarrow> x | _ \<Rightarrow> SubmitForm")
    (auto simp: Let_def split: option.splits if_splits)

lemma session_part:
  assumes "session_inv s" "attended s" "zod_documented sp" "session_step jp sp s e s'" "e \<noteq> Unmount"
    "\<And>q r. e = Ask q r \<Longrightarrow> \<exists>m. buildAsk q r = AskOk m"
  shows "session_inv s' \<and> attended s' \<and> (live s' \<longrightarrow> live s \<or> (\<exists>q r. e = Ask q r))"
  using session_inv_step [OF assms(1,3,4)] attended_step [OF assms(1,3,4,2,5,6)] not_live_stays [OF assms(1,3,4,2)]
  by blast

text \<open>What a call does to the session is a step of the session, and to the layout nothing.\<close>

fun call_event :: "app_call \<Rightarrow> session_event option" where
  "call_event (CallAsk q r) = Some (Ask q (Some (JNum (of_nat r))))"
| "call_event CallStop = Some Stop"
| "call_event (CallSetRate x) = Some (ChooseRate x)"
| "call_event CallGoToLive = Some GoToLive"
| "call_event CallToggleSound = None"

lemma app_call_step:
  assumes "app_call_does c a = Some (a', cs)"
  shows "ap_layout a' = ap_layout a"
    "case call_event c of None \<Rightarrow> ap_session a' = ap_session a
     | Some e \<Rightarrow> session_step jp sp (ap_session a) e (ap_session a') \<and> ap_sound a' = ap_sound a \<and> cs = []"
    "ap_previousPhase a' = ap_previousPhase a"
  using assms by (cases c; auto simp: handleAsk_def split_beta Let_def)+

lemma app_click_cases:
  assumes "app_click act a = Some (a', cs)"
  obtains (quiet) "snd (layout_do (phase (ap_state a)) act (ap_layout a)) = []" "cs = []"
      "a' = a\<lparr>ap_layout := fst (layout_do (phase (ap_state a)) act (ap_layout a))\<rparr>"
    | (calls) c where "snd (layout_do (phase (ap_state a)) act (ap_layout a)) = [c]"
      "app_call_does c (a\<lparr>ap_layout := fst (layout_do (phase (ap_state a)) act (ap_layout a))\<rparr>) = Some (a', cs)"
  using assms layout_one_call [of "phase (ap_state a)" act "ap_layout a"]
  by (cases "layout_do (phase (ap_state a)) act (ap_layout a)"; cases "snd (layout_do (phase (ap_state a)) act (ap_layout a))";
      auto simp: app_click_def Let_def)

lemma click_inv:
  assumes inv: "app_inv a" and zod: "zod_documented sp" and click: "app_click act a = Some (a', cs)"
  shows "app_inv a'"
  using click
proof (cases rule: app_click_cases)
  case quiet
  with inv layout_composing [of "phase (ap_state a)" act "ap_layout a"] show ?thesis
    by (auto simp: app_inv_def live_phase)
next
  case (calls c)
  let ?a = "a\<lparr>ap_layout := fst (layout_do (phase (ap_state a)) act (ap_layout a))\<rparr>"
  note st = app_call_step(1) [OF calls(2)] app_call_step(2) [OF calls(2), where jp = "\<lambda>_. None" and sp = sp]
  have comp: "composing (ap_layout a') \<Longrightarrow> composing (ap_layout a) \<or> \<not> live (ap_session a)"
    using st(1) layout_composing [of "phase (ap_state a)" act "ap_layout a"] by (auto simp: live_phase)
  show ?thesis
  proof (cases "call_event c")
    case None
    with st(2) inv comp show ?thesis by (auto simp: app_inv_def)
  next
    case (Some e)
    with st(2) have step: "session_step (\<lambda>_. None) sp (ap_session a) e (ap_session a')" by simp
    have "\<exists>m. buildAsk q r = AskOk m" if "e = Ask q r" for q r
    proof -
      from that Some obtain k where c: "c = CallAsk q k" "r = Some (JNum (of_nat k))" by (cases c) auto
      with calls(1) layout_asks [of q k "phase (ap_state a)" act "ap_layout a"]
      obtain f where "submit (phase (ap_state a)) f = Some (q, k)" by auto
      from submit_accepted(1) [OF this] c(2) show ?thesis by auto
    qed
    moreover have "\<not> composing (ap_layout a')" if "e = Ask q r" for q r
    proof -
      from that Some obtain k where "c = CallAsk q k" by (cases c) auto
      with calls(1) layout_asks [of q k "phase (ap_state a)" act "ap_layout a"] st(1) show ?thesis by simp
    qed
    moreover have "e \<noteq> Unmount" using Some by (cases c) auto
    ultimately show ?thesis
      using session_part [OF _ _ zod step] inv comp by (auto simp: app_inv_def)
  qed
qed

lemma effect_frame [simp]:
  "ap_session (fst (round_effect a)) = ap_session a" "ap_session (fst (phase_effect a)) = ap_session a"
  "ap_layout (fst (round_effect a)) = ap_layout a" "ap_layout (fst (phase_effect a)) = ap_layout a"
  "ap_previousPhase (fst (round_effect a)) = ap_previousPhase a"
  by (simp_all add: round_effect_def phase_effect_def Let_def split_beta)

lemma commit_eq:
  "app_commit a =
    (let u = sound_effect (ap_sound a);
         r = round_effect (a\<lparr>ap_layout := layout_effect (phase (ap_state a)) (ap_layout a), ap_sound := fst u\<rparr>);
         q = phase_effect (fst r)
     in (fst q, snd u @ snd r @ snd q))"
  by (simp add: app_commit_def Let_def split_beta)

lemma composing_effect [simp]: "composing (layout_effect ph L) = composing L"
  by (cases L) simp_all

lemma app_inv_step:
  assumes inv: "app_inv a" and zod: "zod_documented sp" and step: "app_step jp sp md canvas a e a' cs"
  shows "app_inv a'"
  using step
proof (cases rule: app_step.cases)
  case (clicks act sm b)
  with click_inv [OF inv zod clicks(4)] show ?thesis by simp
next
  case (timers s)
  with session_part [OF _ _ zod timers(4)] inv show ?thesis by (auto simp: app_inv_def)
next
  case (sockets n x s)
  with session_part [OF _ _ zod sockets(4)] inv show ?thesis by (auto simp: app_inv_def)
next
  case commits
  with inv show ?thesis by (auto simp: app_inv_def commit_eq Let_def)
next
  case (resizes wide)
  with inv show ?thesis
    by (cases wide) (auto simp: app_inv_def app_resize_def stage_mount_def mobile_mount_def live_def ap_state_def)
qed (use inv in \<open>auto simp: app_inv_def\<close>)

lemma app_inv_init: "app_inv (App m u wide)"
  using session_inv_init [of m] attended_init [of m]
  by (cases wide) (auto simp: app_inv_def App_def Let_def live_def useDebate_def initialState_def)

lemma app_run_inv:
  "app_run jp sp md canvas a es a' cs \<Longrightarrow> app_inv a \<Longrightarrow> zod_documented sp \<Longrightarrow> app_inv a'"
  by (induction rule: app_run.induct) (auto intro: app_inv_step)

lemma actions_Drawer:
  "no_handlers md canvas \<Longrightarrow> actions (TranscriptDrawer md sm s b h) = (if b then {h} else {})"
  by (auto simp: TranscriptDrawer_def no_handlers_def)

lemma actions_Docket:
  "actions_of (Docket q ph c n h dis) = (if js_trim q = [] \<or> dis then {} else {h})"
  by (simp add: Docket_def)

lemma actions_StageControls:
  "actions (StageControls ph hero stp ask' dr tdr b tgl x f l g) =
     actions_of (PlaybackControls ph x f l g) \<union> (if ph \<in> LIVE_PHASES then {stp} else if hero then {} else {ask'}) \<union> {tdr, tgl}"
  by (auto simp: StageControls_def Let_def)

lemma actions_Overlay:
  "actions (QuestionOverlay v ph act nop f) = (if v then actions (QuestionForm ph act nop False None f) else {})"
  by (simp add: QuestionOverlay_def)

lemma actions_stage:
  assumes "no_handlers md canvas"
  shows "actions (StageLayout md canvas sm s q n b x l L) =
      (if js_trim q = [] \<or> phase s \<in> LIVE_PHASES then {} else {ComposeAct})
    \<union> (if sg_composing L then actions (QuestionForm (phase s) FormAct NoAct False None (sg_form L)) else {})
    \<union> actions_of (PlaybackControls (phase s) x RateAct l LiveAct)
    \<union> (if phase s \<in> LIVE_PHASES then {StopAct} else if sg_composing L then {} else {ComposeAct})
    \<union> {DrawerAct, SoundAct} \<union> (if sg_drawerOpen L then {CloseDrawerAct} else {})"
  using assms
  by (simp add: StageLayout_def Let_def actions_Drawer [OF assms] actions_Docket actions_StageControls actions_Overlay
      no_handlers_def Un_assoc)

lemma actions_Panel:
  "no_handlers md canvas \<Longrightarrow> actions (VerdictPanel md sm ph v t c k) \<subseteq> {c, k}"
  by (auto simp: VerdictPanel_def no_handlers_def Let_def)

lemma actions_mobile:
  assumes "no_handlers md canvas"
  shows "actions (MobileLayout md sm s n b x l L) - {DismissAct, AskAnotherAct} =
      actions (QuestionForm (phase s) FormAct StopAct b (Some SoundAct) (mb_form L)) - {DismissAct, AskAnotherAct}
    \<union> actions_of (PlaybackControls (phase s) x RateAct l LiveAct) - {DismissAct, AskAnotherAct}"
  using actions_Panel [OF assms, of "smooth_init []" PhDone "verdict s" "[]" DismissAct AskAnotherAct]
  by (simp add: MobileLayout_def Let_def) blast

section \<open>The engine under the app\<close>

fun engine_runs :: "engine_op list \<Rightarrow> sound_engine \<Rightarrow> sound_engine \<times> audio_call list" where
  "engine_runs [] e = (e, [])"
| "engine_runs (x # xs) e =
     (let (e1, c1) = engine_does x e; (e2, c2) = engine_runs xs e1 in (e2, c1 @ c2))"

lemma engine_runs_append:
  "engine_runs (xs @ ys) e =
    (let (e1, c1) = engine_runs xs e; (e2, c2) = engine_runs ys e1 in (e2, c1 @ c2))"
  by (induction xs arbitrary: e) (simp_all add: Let_def split_beta)

lemma engine_runs_contexts:
  "count_list (snd (engine_runs xs e)) NewContext + (if en_ctx e = None then 0 else 1)
     = (if en_ctx (fst (engine_runs xs e)) = None then 0 else 1)"
proof (induction xs arbitrary: e)
  case (Cons x xs)
  from context_made_once [of x e] Cons.IH [of "fst (engine_does x e)"] show ?case
    by (simp add: Let_def split_beta)
qed simp

lemma engine_runs_envelope: "StartTone t \<in> set (snd (engine_runs xs e)) \<Longrightarrow> envelope_ok t"
  by (induction xs arbitrary: e) (auto simp: Let_def split_beta dest: tone_envelope)

definition engine_of :: "app \<Rightarrow> sound_engine" where
  "engine_of a = su_engine (ap_sound a)"

lemma engine_render [simp]: "engine_of (rerender a b) = engine_of b" "engine_of (refresh a) = engine_of a"
  by (simp_all add: engine_of_def)

lemma toggle_runs:
  "\<exists>ops. engine_runs ops (su_engine u) = (su_engine (fst (sound_toggle u)), snd (sound_toggle u))
     \<and> RoundCue \<notin> set ops \<and> VerdictChime \<notin> set ops"
proof (cases "su_enabled u")
  case True
  then show ?thesis
    by (intro exI [of _ "[]"]) (simp add: sound_toggle_def writeStoredPreference_def Let_def)
next
  case False
  then show ?thesis
    by (intro exI [of _ "[SetEnabled True, Resume]"])
      (simp add: sound_toggle_def writeStoredPreference_def on_engine_def Let_def split_beta)
qed

text \<open>Every step of the app works the engine by its own operations.\<close>

definition works :: "app \<Rightarrow> audio_call list \<Rightarrow> app \<Rightarrow> bool" where
  "works a cs a' \<longleftrightarrow> (\<exists>ops. engine_runs ops (engine_of a) = (engine_of a', cs))"

lemma works_still: "engine_of a' = engine_of a \<Longrightarrow> works a [] a'"
  unfolding works_def by (rule exI [of _ "[]"]) simp

lemma works_one: "engine_does x (engine_of a) = (engine_of a', cs) \<Longrightarrow> works a cs a'"
  unfolding works_def by (rule exI [of _ "[x]"]) simp

lemma works_render [simp]: "works a cs (rerender b c) = works a cs c" "works (refresh a) cs c = works a cs c"
  by (simp_all add: works_def)

lemma works_trans: "works a cs b \<Longrightarrow> works b ds c \<Longrightarrow> works a (cs @ ds) c"
  unfolding works_def
proof (elim exE)
  fix xs ys
  assume "engine_runs xs (engine_of a) = (engine_of b, cs)" "engine_runs ys (engine_of b) = (engine_of c, ds)"
  then have "engine_runs (xs @ ys) (engine_of a) = (engine_of c, cs @ ds)" by (simp add: engine_runs_append)
  then show "\<exists>ops. engine_runs ops (engine_of a) = (engine_of c, cs @ ds)" ..
qed

lemma sound_effect_works: "works a (snd (sound_effect (ap_sound a))) (b\<lparr>ap_sound := fst (sound_effect (ap_sound a))\<rparr>)"
proof (cases "su_seen (ap_sound a) = Some (su_enabled (ap_sound a))")
  case True
  then show ?thesis by (simp add: sound_effect_def works_still engine_of_def)
next
  case False
  then show ?thesis
    by (intro works_one [of "SetEnabled (su_enabled (ap_sound a))"])
      (simp add: sound_effect_def on_engine_def engine_of_def Let_def split_beta)
qed

lemma round_effect_works: "works a (snd (round_effect a)) (fst (round_effect a))"
proof (cases "ap_previousRound a > 0 \<and> currentRound (ap_state a) > ap_previousRound a")
  case True
  then show ?thesis
    by (intro works_one [of RoundCue]) (simp add: round_effect_def on_engine_def engine_of_def Let_def split_beta)
next
  case False
  then show ?thesis by (intro works_still [THEN back_subst [of "\<lambda>cs. works _ cs _"]]) (auto simp: round_effect_def engine_of_def Let_def)
qed

lemma phase_effect_works: "works a (snd (phase_effect a)) (fst (phase_effect a))"
proof (cases "phase (ap_state a) = PhDone \<and> ap_previousPhase a \<noteq> PhDone")
  case True
  then show ?thesis
    by (intro works_one [of VerdictChime]) (simp add: phase_effect_def on_engine_def engine_of_def Let_def split_beta)
next
  case False
  then show ?thesis by (intro works_still [THEN back_subst [of "\<lambda>cs. works _ cs _"]]) (auto simp: phase_effect_def engine_of_def Let_def)
qed

lemma works_frame: "engine_of a = engine_of b \<Longrightarrow> works b cs c \<Longrightarrow> works a cs c"
  by (simp add: works_def)

lemma commit_works: "works a (snd (app_commit a)) (fst (app_commit a))"
  unfolding commit_eq Let_def fst_conv snd_conv
  by (rule works_trans [OF sound_effect_works [of a "a\<lparr>ap_layout := layout_effect (phase (ap_state a)) (ap_layout a)\<rparr>"]])
    (simp add: works_trans [OF round_effect_works phase_effect_works])

lemma click_works: "app_click act a = Some (a', cs) \<Longrightarrow> works a cs a'"
proof (erule app_click_cases)
  assume "cs = []" "a' = a\<lparr>ap_layout := fst (layout_do (phase (ap_state a)) act (ap_layout a))\<rparr>"
  then show ?thesis by (simp add: works_still engine_of_def)
next
  fix c
  assume c: "app_call_does c (a\<lparr>ap_layout := fst (layout_do (phase (ap_state a)) act (ap_layout a))\<rparr>) = Some (a', cs)"
  show ?thesis
  proof (cases "c = CallToggleSound")
    case True
    obtain ops where "engine_runs ops (engine_of a) = (su_engine (fst (sound_toggle (ap_sound a))), snd (sound_toggle (ap_sound a)))"
      using toggle_runs [of "ap_sound a"] by (auto simp: engine_of_def)
    with c True show ?thesis by (auto simp: works_def engine_of_def split_beta Let_def)
  next
    case False
    with c show ?thesis by (cases c) (auto simp: handleAsk_def engine_of_def works_still)
  qed
qed

lemma step_works: "app_step jp sp md canvas a e a' cs \<Longrightarrow> works a cs a'"
proof (erule app_step.cases)
  fix a0 a1 cs1
  assume "app_commit (refresh a0) = (a1, cs1)" "a = a0" "a' = a1" "cs = cs1"
  with commit_works [of "refresh a0"] show ?thesis by simp
next
  fix c a0
  assume "a = a0" "a' = a0\<lparr>ap_sound := (ap_sound a0)\<lparr>su_engine := context_becomes c (su_engine (ap_sound a0))\<rparr>\<rparr>" "cs = []"
  then show ?thesis by (intro works_one [of "ContextBecomes c"]) (simp add: engine_of_def)
qed (auto intro: click_works works_still simp: engine_of_def app_resize_def)

lemma run_works: "app_run jp sp md canvas a es a' cs \<Longrightarrow> works a cs a'"
proof (induction rule: app_run.induct)
  case (app_stays a)
  show ?case by (rule works_still) simp
next
  case (app_goes a e a1 cs es a2 ds)
  then show ?case by (blast intro: works_trans step_works)
qed

lemma App_engine: "engine_of (App m u wide) = su_engine u"
  by (simp add: App_def Let_def engine_of_def)

section \<open>The chime\<close>

definition chimes :: "audio_call list \<Rightarrow> nat" where
  "chimes cs = tones_at 523.25 cs"

lemma chimes_append [simp]: "chimes [] = 0" "chimes (xs @ ys) = chimes xs + chimes ys"
  by (simp_all add: chimes_def)

lemma chimes_ops:
  "chimes (snd (setEnabled b e)) = 0" "chimes (snd (resume e)) = 0" "chimes (snd (playRoundCue e)) = 0"
  "chimes (snd (playVerdictChime e)) \<le> 1"
  by (cases b; cases "en_ctx e"; simp add: chimes_def setEnabled_def resume_def playRoundCue_def playVerdictChime_def
      whenEnabled_eq Let_def)+

lemma no_chime_calls [simp]:
  "chimes (snd (sound_effect u)) = 0" "chimes (snd (sound_toggle u)) = 0" "chimes (snd (round_effect a)) = 0"
  by (simp_all add: sound_effect_def sound_toggle_def round_effect_def on_engine_def chimes_ops split_beta Let_def)

text \<open>What is left to ring: a chime is due until the effect has seen the phase \<open>done\<close>.\<close>

definition chime_left :: "app \<Rightarrow> nat" where
  "chime_left a = (if ap_previousPhase a = PhDone \<and> phase (ap_state a) = PhDone then 0 else 1)"

lemma phase_effect_chime:
  "chimes (snd (phase_effect a)) + chime_left (fst (phase_effect a)) \<le> chime_left a"
  "chimes (snd (phase_effect a)) \<noteq> 0 \<Longrightarrow> phase (ap_state a) = PhDone"
proof -
  show "chimes (snd (phase_effect a)) + chime_left (fst (phase_effect a)) \<le> chime_left a"
    using chimes_ops(4) by (simp add: phase_effect_def chime_left_def on_engine_def ap_state_def split_beta Let_def)
  show "chimes (snd (phase_effect a)) \<noteq> 0 \<Longrightarrow> phase (ap_state a) = PhDone"
    by (auto simp: phase_effect_def Let_def split: if_splits)
qed

lemma commit_chime:
  "chimes (snd (app_commit a)) + chime_left (fst (app_commit a)) \<le> chime_left a"
  "chimes (snd (app_commit a)) \<noteq> 0 \<Longrightarrow> phase (ap_state a) = PhDone"
proof -
  let ?a = "fst (round_effect (a\<lparr>ap_layout := layout_effect (phase (ap_state a)) (ap_layout a),
    ap_sound := fst (sound_effect (ap_sound a))\<rparr>))"
  have "chime_left ?a = chime_left a" "phase (ap_state ?a) = phase (ap_state a)" by (simp_all add: chime_left_def ap_state_def)
  with phase_effect_chime [of ?a]
  show "chimes (snd (app_commit a)) + chime_left (fst (app_commit a)) \<le> chime_left a"
    "chimes (snd (app_commit a)) \<noteq> 0 \<Longrightarrow> phase (ap_state a) = PhDone"
    by (simp_all add: commit_eq Let_def)
qed

text \<open>A click that does not submit the form asks nothing.\<close>

lemma click_session:
  assumes "app_click act a = Some (a', cs)" "act \<noteq> FormAct SubmitForm"
  shows "chimes cs = 0 \<and> ap_previousPhase a' = ap_previousPhase a
    \<and> (ap_session a' = ap_session a
       \<or> (\<exists>e. (\<forall>q r. e \<noteq> Ask q r) \<and> session_step jp sp (ap_session a) e (ap_session a')))"
  using assms(1)
proof (cases rule: app_click_cases)
  case quiet
  then show ?thesis by simp
next
  case (calls c)
  have "c \<noteq> CallAsk q r" for q r
  proof
    assume "c = CallAsk q r"
    with calls(1) assms(2) show False
      by (cases "ap_layout a"; cases act; cases "case act of FormAct x \<Rightarrow> x | _ \<Rightarrow> SubmitForm") auto
  qed
  moreover have "chimes cs = 0"
    using calls(2) no_chime_calls(2) [of "ap_sound a"] by (cases c) (auto simp: split_beta Let_def)
  ultimately show ?thesis
    using app_call_step(2) [OF calls(2), of jp sp] app_call_step(3) [OF calls(2)]
    by (cases c) auto
qed

lemma chime_step:
  assumes inv: "app_inv a" and zod: "zod_documented sp" and step: "app_step jp sp md canvas a e a' cs"
    and e: "e \<noteq> Click (FormAct SubmitForm)"
  shows "chimes cs + chime_left a' \<le> chime_left a"
    "phase (ap_state a) = PhDone \<Longrightarrow> phase (ap_state a') = PhDone"
    "chimes cs \<noteq> 0 \<Longrightarrow> phase (ap_state a') = PhDone"
proof -
  have stays: "phase (se_state s') = PhDone"
    if "session_step jp sp (ap_session a) x s'" "\<forall>q r. x \<noteq> Ask q r" "phase (ap_state a) = PhDone" for x s'
    using done_stays [OF zod _ _ that(1)] that(2,3) inv by (simp add: ap_state_def app_inv_def)
  have "chimes cs + chime_left a' \<le> chime_left a
    \<and> (phase (ap_state a) = PhDone \<longrightarrow> phase (ap_state a') = PhDone)
    \<and> (chimes cs \<noteq> 0 \<longrightarrow> phase (ap_state a') = PhDone)"
    using step
  proof (cases rule: app_step.cases)
    case (clicks act sm b)
    with click_session [OF clicks(4), of jp sp] stays e show ?thesis by (auto simp: chime_left_def ap_state_def)
  next
    case (commits)
    have "chime_left (refresh a) = chime_left a" by (simp add: chime_left_def)
    with commits commit_chime [of "refresh a"] show ?thesis by (auto simp: ap_state_def commit_eq Let_def)
  next
    case (timers s)
    with stays [OF timers(4)] show ?thesis by (auto simp: chime_left_def ap_state_def)
  next
    case (sockets n x s)
    with stays [OF sockets(4)] show ?thesis by (auto simp: chime_left_def ap_state_def)
  qed (auto simp: chime_left_def ap_state_def app_resize_def)
  then show "chimes cs + chime_left a' \<le> chime_left a"
    "phase (ap_state a) = PhDone \<Longrightarrow> phase (ap_state a') = PhDone"
    "chimes cs \<noteq> 0 \<Longrightarrow> phase (ap_state a') = PhDone" by blast+
qed

lemma chime_run:
  "app_run jp sp md canvas a es a' cs \<Longrightarrow> app_inv a \<Longrightarrow> zod_documented sp \<Longrightarrow> Click (FormAct SubmitForm) \<notin> set es \<Longrightarrow>
   chimes cs + chime_left a' \<le> chime_left a \<and> (phase (ap_state a) = PhDone \<longrightarrow> phase (ap_state a') = PhDone)
   \<and> (chimes cs \<noteq> 0 \<longrightarrow> phase (ap_state a') = PhDone)"
proof (induction rule: app_run.induct)
  case (app_goes a e a1 cs es a2 ds)
  from app_goes.prems(3) have e: "e \<noteq> Click (FormAct SubmitForm)" and es: "Click (FormAct SubmitForm) \<notin> set es" by auto
  from app_goes.IH [OF app_inv_step [OF app_goes.prems(1,2) app_goes.hyps(1)] app_goes.prems(2) es]
    chime_step [OF app_goes.prems(1,2) app_goes.hyps(1) e]
  show ?case by auto
qed simp

section \<open>Silence until asked for\<close>

definition muted :: "app \<Rightarrow> bool" where
  "muted a \<longleftrightarrow> \<not> su_enabled (ap_sound a) \<and> \<not> en_enabled (engine_of a) \<and> en_ctx (engine_of a) = None"

lemma muted_effects:
  assumes "muted a"
  shows "snd (sound_effect (ap_sound a)) = []" "muted (a\<lparr>ap_sound := fst (sound_effect (ap_sound a))\<rparr>)"
    "snd (round_effect a) = []" "muted (fst (round_effect a))"
    "snd (phase_effect a) = []" "muted (fst (phase_effect a))"
  using assms
  by (simp_all add: muted_def engine_of_def sound_effect_def round_effect_def phase_effect_def on_engine_def
      playRoundCue_def playVerdictChime_def whenEnabled_muted split_beta Let_def)

lemma muted_frame: "ap_sound a = ap_sound b \<Longrightarrow> muted a = muted b"
  by (simp add: muted_def engine_of_def)

lemma muted_render [simp]: "muted (rerender a b) = muted b" "muted (refresh a) = muted a"
  by (simp_all add: muted_def)

lemma muted_step:
  assumes step: "app_step jp sp md canvas a e a' cs" and m: "muted a" and e: "e \<noteq> Click SoundAct"
  shows "cs = [] \<and> muted a'"
  using step
proof (cases rule: app_step.cases)
  case (clicks act sm b)
  have "cs = [] \<and> muted b"
    using clicks(4)
  proof (cases rule: app_click_cases)
    case quiet
    with m show ?thesis by (simp add: muted_def engine_of_def)
  next
    case (calls c)
    have "c \<noteq> CallToggleSound"
    proof
      assume "c = CallToggleSound"
      with calls(1) clicks(1) e show False
        by (cases "ap_layout a"; cases act; cases "case act of FormAct x \<Rightarrow> x | _ \<Rightarrow> SubmitForm")
          (auto simp: Let_def split: option.splits)
    qed
    with app_call_step(2) [OF calls(2), of jp sp] m show ?thesis by (cases c) (simp_all add: muted_frame [of b a])
  qed
  with clicks(2) show ?thesis by simp
next
  case commits
  let ?b = "(refresh a)\<lparr>ap_layout := layout_effect (phase (ap_state a)) (ap_layout a),
    ap_sound := fst (sound_effect (ap_sound a))\<rparr>"
  have "muted ?b" using muted_effects(2) [OF m] by (simp add: muted_def engine_of_def)
  note 1 = muted_effects(3,4) [OF this]
  from commits muted_effects(1) [OF m] 1 muted_effects(5,6) [OF 1(2)] show ?thesis by (simp add: commit_eq Let_def)
next
  case (audio c)
  with m show ?thesis by (simp add: muted_def engine_of_def context_becomes_def)
qed (use m in \<open>auto simp: muted_def engine_of_def app_resize_def\<close>)

lemma muted_run:
  "app_run jp sp md canvas a es a' cs \<Longrightarrow> muted a \<Longrightarrow> Click SoundAct \<notin> set es \<Longrightarrow> cs = [] \<and> muted a'"
proof (induction rule: app_run.induct)
  case (app_goes a e a1 cs es a2 ds)
  from app_goes.prems(2) have "e \<noteq> Click SoundAct" "Click SoundAct \<notin> set es" by auto
  with muted_step [OF app_goes.hyps(1) app_goes.prems(1)] app_goes.IH show ?case by simp
qed simp

section \<open>A first question\<close>

lemma ask_a: "buildAsk (js ''a'') (Some (JNum 2)) = AskOk \<lparr>ask_question = js ''a'', ask_rounds = Some 2\<rparr>"
  by (simp add: buildAsk_def js_trim_def trim_by_def js_def is_js_space_def runeCount_def is_high_surrogate_def
      MAX_QUESTION_RUNES_def valid_rounds_def MIN_ROUNDS_def MAX_ROUNDS_def)

lemma no_handlers_empty: "no_handlers (\<lambda>_. []) (\<lambda>_. [])"
  by (simp add: no_handlers_def)

text \<open>On the stage: the question is typed and submitted.\<close>

lemma asks_from_mount:
  "\<exists>a. app_run jp sp (\<lambda>_. []) (\<lambda>_. []) (App False u True) [Click (FormAct (TypeQuestion (js ''a''))), Click (FormAct SubmitForm)] a []
     \<and> ap_session a = ask (js ''a'') (Some (JNum 2)) (useDebate False)
     \<and> ap_sound a = u \<and> ap_previousPhase a = PhIdle \<and> is_stage (ap_layout a)"
proof -
  let ?a0 = "App False u True"
  let ?f = "\<lparr>qf_question = js ''a'', qf_rounds = 2\<rparr>"
  let ?L1 = "Stage \<lparr>sg_drawerOpen = False, sg_composing = True, sg_form = ?f\<rparr>"
  let ?L2 = "Stage \<lparr>sg_drawerOpen = False, sg_composing = False, sg_form = ?f\<rparr>"
  let ?a1 = "?a0\<lparr>ap_layout := ?L1\<rparr>"
  let ?b2 = "handleAsk (js ''a'') 2 (?a1\<lparr>ap_layout := ?L2\<rparr>)" let ?a2 = "rerender ?a1 ?b2"
  have idle: "phase (ap_state ?a0) = PhIdle" "phase (ap_state ?a1) = PhIdle"
    "ap_layout ?a0 = Stage (stage_mount PhIdle)"
    by (simp_all add: App_def Let_def ap_state_def useDebate_def initialState_def)
  have sub: "submit PhIdle ?f = Some (js ''a'', 2)"
    using ask_a by (simp add: submit_def form_ok_def form_validation_def LIVE_PHASES_def)
      (simp add: js_trim_def trim_by_def js_def is_js_space_def)
  have "FormAct (TypeQuestion (js ''a'')) \<in> actions (render (\<lambda>_. []) (\<lambda>_. []) sm ?a0)" for sm
    using idle by (simp add: render_def Let_def actions_stage [OF no_handlers_empty] stage_mount_def actions_QuestionForm
        ap_state_def)
  moreover have "app_click (FormAct (TypeQuestion (js ''a''))) ?a0 = Some (?a1, [])"
    using idle by (simp add: app_click_def stage_mount_def question_form_init_def DEFAULT_ROUNDS_def Let_def)
  ultimately have "app_step jp sp (\<lambda>_. []) (\<lambda>_. []) ?a0 (Click (FormAct (TypeQuestion (js ''a'')))) (rerender ?a0 ?a1) []"
    by (rule app_step.clicks)
  moreover have "rerender ?a0 ?a1 = ?a1"
    using idle(3) by (simp add: rerender_def app_inputs_def ap_state_def)
  ultimately have 1: "app_step jp sp (\<lambda>_. []) (\<lambda>_. []) ?a0 (Click (FormAct (TypeQuestion (js ''a'')))) ?a1 []" by simp
  have "FormAct SubmitForm \<in> actions (render (\<lambda>_. []) (\<lambda>_. []) sm ?a1)" for sm
    by (simp add: render_def Let_def actions_stage [OF no_handlers_empty] actions_QuestionForm)
  moreover have "app_click (FormAct SubmitForm) ?a1 = Some (?b2, [])"
    using idle(2) sub by (simp add: app_click_def Let_def)
  ultimately have 2: "app_step jp sp (\<lambda>_. []) (\<lambda>_. []) ?a1 (Click (FormAct SubmitForm)) ?a2 []"
    by (rule app_step.clicks)
  have "app_run jp sp (\<lambda>_. []) (\<lambda>_. []) ?a0 [Click (FormAct (TypeQuestion (js ''a''))), Click (FormAct SubmitForm)] ?a2 ([] @ [] @ [])"
    by (rule app_run.app_goes [OF 1 app_run.app_goes [OF 2 app_run.app_stays]])
  moreover have "ap_session ?a2 = ask (js ''a'') (Some (JNum 2)) (useDebate False)" "ap_sound ?a2 = u"
    "ap_previousPhase ?a2 = PhIdle" "is_stage (ap_layout ?a2)"
    by (simp_all add: handleAsk_def App_def Let_def is_stage_def useDebate_def initialState_def)
  ultimately show ?thesis by auto
qed

lemma asked_phase: "phase (se_state (ask (js ''a'') (Some (JNum 2)) s)) = PhConnecting"
  by (simp add: ask_accepted [OF ask_a])

section \<open>Properties\<close>

text \<open>C24. The chime rings at most once per debate: between two questions, whatever re-renders,
  toggles, resizes and late events there are, the app plays it at most once, and only when the
  verdict is in.\<close>

theorem chime_at_most_once:
  assumes "zod_documented sp" "app_run jp sp md canvas (App m u wide) es a cs"
    and "app_run jp sp md canvas a fs a' ds" "Click (FormAct SubmitForm) \<notin> set fs"
  shows "chimes ds \<le> 1 \<and> (chimes ds = 1 \<longrightarrow> phase (ap_state a') = PhDone)"
  using chime_run [OF assms(3) app_run_inv [OF assms(2) app_inv_init assms(1)] assms(1,4)]
  by (auto simp: chime_left_def split: if_splits)

theorem chime_at_most_once_witness:
  "\<exists>a fs a' ds. app_run (\<lambda>_. Some (go_marshal (go_of_event (VerdictEvent (js ''yes''))))) zod_reference (\<lambda>_. []) (\<lambda>_. []) a fs a' ds
     \<and> chimes ds = 1 \<and> phase (ap_state a') = PhDone"
proof -
  let ?jp = "\<lambda>_. Some (go_marshal (go_of_event (VerdictEvent (js ''yes''))))"
  let ?u = "useSound (Some \<lparr>ac_state = Running, ac_currentTime = 0\<rparr>) True (Some ''true'')"
  obtain a where a: "app_run ?jp zod_reference (\<lambda>_. []) (\<lambda>_. []) (App False ?u True)
      [Click (FormAct (TypeQuestion (js ''a''))), Click (FormAct SubmitForm)] a []"
    "ap_session a = ask (js ''a'') (Some (JNum 2)) (useDebate False)" "ap_sound a = ?u" "ap_previousPhase a = PhIdle"
    using asks_from_mount by blast
  let ?b = "fst (app_commit (refresh a))"
  let ?s = "on_socket_event ?jp zod_reference 0 (SockMessage (TextFrame [])) (ap_session ?b)"
  let ?c = "refresh (rerender ?b (?b\<lparr>ap_session := ?s\<rparr>))"
  have b: "ap_session ?b = ask (js ''a'') (Some (JNum 2)) (useDebate False)" using a(2) by (simp add: commit_eq Let_def)
  have fin: "phase (ap_state ?c) = PhDone"
    using verdict_at_once [OF ask_a, where v = "js ''yes''" and b = False] by (simp add: ap_state_def b)
  have st: "phase (ap_state a) = PhConnecting" "currentRound (ap_state a) = 0"
    using asked_phase by (simp_all add: ap_state_def a(2) ask_accepted [OF ask_a] initialState_def)
  then have quiet: "chimes (snd (app_commit (refresh a))) = 0" using commit_chime(2) [of "refresh a"] by auto
  have again: "sound_effect (fst (sound_effect ?u)) = (fst (sound_effect ?u), [])"
    by (simp add: sound_effect_def on_engine_def split_beta)
  have on: "en_enabled (su_engine (fst (sound_effect ?u)))" "ctor (su_engine (fst (sound_effect ?u))) \<noteq> None"
    by (simp_all add: sound_effect_def useSound_def readStoredPreference_def createSoundEngine_def on_engine_def setEnabled_def)
  have b': "?b = (refresh a)\<lparr>ap_layout := layout_effect PhConnecting (ap_layout a), ap_sound := fst (sound_effect ?u),
      ap_previousRound := 0, ap_previousPhase := PhConnecting\<rparr>"
    using st a(3) by (simp add: commit_eq Let_def phase_effect_def round_effect_def ap_state_def)
  have "chimes (snd (app_commit ?c)) = 1"
    using fin on unfolding b' by (simp add: commit_eq Let_def phase_effect_def round_effect_def on_engine_def again
        ap_state_def playVerdictChime_def chimes_def whenEnabled_eq split_beta)
  moreover have run: "app_run ?jp zod_reference (\<lambda>_. []) (\<lambda>_. []) a [Commit, SocketEvent 0 (SockMessage (TextFrame [])), Commit]
      (fst (app_commit ?c)) (snd (app_commit (refresh a)) @ [] @ snd (app_commit ?c) @ [])"
    by (rule app_run.app_goes [OF app_step.commits [OF prod.collapse [symmetric]]
        app_run.app_goes [OF app_step.sockets [OF session_step.socket]
        app_run.app_goes [OF app_step.commits [OF prod.collapse [symmetric]] app_run.app_stays]]])
  ultimately show ?thesis
    using chime_at_most_once [OF zod_reference_documented a(1) run] quiet
    by (intro exI conjI) (rule run, simp_all)
qed

text \<open>C25. Sound is opt-in: unless it is stored as enabled or the user toggles it, no run of the app
  touches the audio API at all; and in every run at most one audio context is made, and every
  tone is a soft one that fades in, fades out and stops.\<close>

theorem sound_is_opt_in:
  assumes "app_run jp sp md canvas (App m (useSound audio storage stored) wide) es a cs"
  shows "(stored \<noteq> Some ''true'' \<and> Click SoundAct \<notin> set es \<longrightarrow> cs = [] \<and> en_ctx (engine_of a) = None)
    \<and> count_list cs NewContext \<le> 1 \<and> (\<forall>t. StartTone t \<in> set cs \<longrightarrow> envelope_ok t)"
proof -
  have new: "engine_of (App m (useSound audio storage stored) wide) = createSoundEngine audio"
    by (simp add: App_engine useSound_def)
  from run_works [OF assms] obtain ops where ops: "engine_runs ops (createSoundEngine audio) = (engine_of a, cs)"
    by (auto simp: works_def new)
  have "muted (App m (useSound audio storage stored) wide)" if "stored \<noteq> Some ''true''"
    using that new by (simp add: muted_def) (simp add: App_def useSound_def readStoredPreference_def createSoundEngine_def Let_def)
  with muted_run [OF assms] have "stored \<noteq> Some ''true'' \<and> Click SoundAct \<notin> set es \<longrightarrow> cs = [] \<and> muted a" by blast
  moreover have "count_list cs NewContext \<le> 1"
    using engine_runs_contexts [of ops "createSoundEngine audio"] ops
    by (simp add: createSoundEngine_def split: if_splits)
  ultimately show ?thesis
    using engine_runs_envelope [of _ ops "createSoundEngine audio"] ops by (auto simp: muted_def)
qed

theorem sound_is_opt_in_witness:
  "\<exists>a es cs. app_run (\<lambda>_. None) zod_reference (\<lambda>_. []) (\<lambda>_. []) (App False (useSound None True None) True) es a cs
     \<and> phase (ap_state a) = PhConnecting \<and> cs = [] \<and> en_ctx (engine_of a) = None"
proof -
  obtain a where a: "app_run (\<lambda>_. None) zod_reference (\<lambda>_. []) (\<lambda>_. []) (App False (useSound None True None) True)
      [Click (FormAct (TypeQuestion (js ''a''))), Click (FormAct SubmitForm)] a []"
    "ap_session a = ask (js ''a'') (Some (JNum 2)) (useDebate False)"
    using asks_from_mount by blast
  from a(2) asked_phase have "phase (ap_state a) = PhConnecting" by (simp add: ap_state_def)
  with sound_is_opt_in [OF a(1)] a(1) show ?thesis by auto
qed

text \<open>C7. The interface cannot freeze a debate: in every state the app can reach, if the phase is a
  live one, the current client's socket can still call back or the player has a timer running.\<close>

theorem interface_never_freezes_a_debate:
  assumes "zod_documented sp" "app_run jp sp md canvas (App m u wide) es a cs"
    and "phase (ap_state a) \<in> {PhConnecting, PhDebating, PhModerating}"
  shows "(\<exists>n c k. handlers_of n (se_world (ap_session a)) = Some (c, k) \<and> se_client (ap_session a) = Some c)
    \<or> timer (se_player (ap_session a)) \<noteq> None"
  using app_run_inv [OF assms(2) app_inv_init assms(1)] assms(3) attended_live
  by (simp add: app_inv_def live_def ap_state_def)

theorem interface_never_freezes_a_debate_witness:
  "\<exists>a :: app. phase (ap_state a) = PhConnecting
     \<and> ((\<exists>n c k. handlers_of n (se_world (ap_session a)) = Some (c, k) \<and> se_client (ap_session a) = Some c)
        \<or> timer (se_player (ap_session a)) \<noteq> None)"
proof -
  obtain a where a: "app_run (\<lambda>_. None) zod_reference (\<lambda>_. []) (\<lambda>_. []) (App False (useSound None True None) True)
      [Click (FormAct (TypeQuestion (js ''a''))), Click (FormAct SubmitForm)] a []"
    "ap_session a = ask (js ''a'') (Some (JNum 2)) (useDebate False)"
    using asks_from_mount by blast
  from a(2) asked_phase have "phase (ap_state a) = PhConnecting" by (simp add: ap_state_def)
  with interface_never_freezes_a_debate [OF zod_reference_documented a(1)] show ?thesis by auto
qed

text \<open>What a layout offers, of what \<open>App\<close> hands it.\<close>

lemma live_offered:
  assumes "app_inv a" "no_handlers md canvas"
  shows "LiveAct \<in> actions (render md canvas sm a) \<longleftrightarrow> live (ap_session a) \<and> \<not> ap_atLive a"
proof -
  have l: "live (ap_session a) \<longleftrightarrow> phase (se_state (ap_session a)) \<in> LIVE_PHASES"
    using live_phase [of a] by (simp add: ap_state_def)
  show ?thesis
  proof (cases "ap_layout a")
    case (Stage L)
    with l show ?thesis
      by (auto simp: render_def Let_def actions_stage [OF assms(2)] actions_QuestionForm actions_PlaybackControls)
  next
    case (Mobile L)
    then have "LiveAct \<in> actions (render md canvas sm a) \<longleftrightarrow>
        LiveAct \<in> actions (QuestionForm (phase (se_state (ap_session a))) FormAct StopAct (su_enabled (ap_sound a)) (Some SoundAct) (mb_form L))
          \<union> actions_of (PlaybackControls (phase (se_state (ap_session a))) (se_rate (ap_session a)) RateAct (ap_atLive a) LiveAct)"
      using actions_mobile [OF assms(2), of sm "se_state (ap_session a)" "ap_rounds a" "su_enabled (ap_sound a)"
          "se_rate (ap_session a)" "ap_atLive a" L]
      by (simp add: render_def Let_def) blast
    with l show ?thesis by (auto simp: actions_QuestionForm actions_PlaybackControls)
  qed
qed

text \<open>Whenever \<open>App\<close> has just rendered, what it shows of the player is true.\<close>

lemma app_inputs_rerender [simp]: "app_inputs (rerender a b) = app_inputs b"
  by (simp add: app_inputs_def)

lemma effects_keep_atLive [simp]:
  "ap_atLive (fst (app_commit a)) = ap_atLive a" "ap_session (fst (app_commit a)) = ap_session a"
  by (simp_all add: commit_eq round_effect_def phase_effect_def Let_def split_beta)

lemma rendered_atLive:
  assumes "app_step jp sp md canvas a e a' cs" "e = Commit \<or> app_inputs a' \<noteq> app_inputs a"
  shows "ap_atLive a' = session_isAtLive (ap_session a')"
  using assms(1)
proof cases
  case commits
  then have "a' = fst (app_commit (refresh a))" by simp
  then show ?thesis by (simp add: refresh_def)
next
  case (audio c)
  with assms(2) show ?thesis by (simp add: app_inputs_def ap_state_def)
qed (use assms(2) in \<open>auto simp: rerender_def refresh_def\<close>)

lemma nothing_to_skip:
  assumes "session_inv s" "session_isAtLive s"
  shows "\<exists>s'. goToLive s = Some s' \<and> se_state s' = se_state s"
  using settled_skip [of "se_player s"] assms
  by (auto simp: session_inv_def good_player_def session_isAtLive_def isAtLive_def goToLive_def commit_def)

text \<open>How long the button may linger: the last panelist of a round is shown to the end and the next round is
  still being streamed. The tick that ends the turn and the one after it dispatch nothing, and then no timer
  is armed; so the button stays, with nothing to catch up with, for as long as the next round takes, as
  tokens dispatch nothing either.\<close>

lemma quiet_call: "commit (p, []) s = s\<lparr>se_player := p\<rparr>"
  by (simp add: commit_def)

lemma go_to_live_lingers:
  assumes inv: "app_inv a" and offered: "\<not> ap_atLive a"
    and turn: "active (se_player (ap_session a)) = Some x" "length (at_text x) \<le> at_pos x" "\<not> isModerator x" "at_index x = 3"
    and rest: "at_round x + 1 \<notin> set (roundComplete (se_player (ap_session a)))" "\<not> terminalKnown (se_player (ap_session a))"
    and armed: "timer (se_player (ap_session a)) \<noteq> None" and zod: "zod_documented sp"
  shows "\<exists>a1 a2. app_step jp sp md canvas a TimerEvent a1 [] \<and> app_step jp sp md canvas a1 TimerEvent a2 []
    \<and> ap_state a2 = ap_state a \<and> \<not> ap_atLive a2 \<and> session_isAtLive (ap_session a2)
    \<and> timer (se_player (ap_session a2)) = None
    \<and> (\<forall>q r d. snd (feed (TokenEvent q r d) (se_player (ap_session a2))) = [])"
proof -
  let ?p = "se_player (ap_session a)" let ?s = "ap_session a"
  let ?c = "CurPanelist (at_round x + 1) 0"
  from inv have good: "good_player ?p" by (simp add: app_inv_def session_inv_def)
  obtain p1 where p1: "timer_fires ?p = (p1, [])" "cursor p1 = ?c" "active p1 = None" "timer p1 \<noteq> None"
    "roundComplete p1 = roundComplete ?p" "terminalKnown p1 = terminalKnown ?p"
  proof -
    obtain p1 d where r: "revealStep x (?p\<lparr>timer := None\<rparr>) = (p1, [], d)" "cursor p1 = ?c" "active p1 = None"
      "roundComplete p1 = roundComplete ?p" "terminalKnown p1 = terminalKnown ?p" "d = turnGapMs ?p" "rate p1 = rate ?p"
      using turn(2-4) by (auto simp: revealStep_def Let_def PANELISTS_def terminalKnown_def turnGapMs_def split: option.splits)
    have "\<not> is_sentinel d"
      using good delays_not_sentinels(2) [of ?p] r(6) by (simp add: good_player_def player_inv_def)
    then have "timer_fires ?p = (p1\<lparr>timer := Some d\<rparr>, [])"
      using armed turn(1) r(1) by (auto simp: timer_fires_def pump_def step_def)
    moreover have "terminalKnown (p1\<lparr>timer := Some d\<rparr>) = terminalKnown p1" by (simp add: terminalKnown_def)
    ultimately show thesis using r by (intro that [of "p1\<lparr>timer := Some d\<rparr>"]) simp_all
  qed
  have parks: "step p = (p, [], PARK)" if "cursor p = ?c" "active p = None" "at_round x + 1 \<notin> set (roundComplete p)" "\<not> terminalKnown p" for p
    using that by (simp add: step_def prepareNextTurn.simps)
  let ?p2 = "p1\<lparr>timer := None\<rparr>"
  have p2: "timer_fires p1 = (?p2, [])"
    using parks [of ?p2] p1 rest by (simp add: timer_fires_def pump_def terminalKnown_def)
  have live: "isAtLive ?p2" using p1 rest by (simp add: isAtLive_def hasReadyWork_def terminalKnown_def)
  have quiet: "snd (feed (TokenEvent q r d) ?p2) = []" for q r d
    using parks [of "record_event (TokenEvent q r d) ?p2"] p1 rest
    by (simp add: feed_def pump_def terminalKnown_def Let_def)
  let ?a1 = "rerender a (a\<lparr>ap_session := ?s\<lparr>se_player := p1\<rparr>\<rparr>)"
  let ?a2 = "rerender ?a1 (?a1\<lparr>ap_session := (ap_session ?a1)\<lparr>se_player := ?p2\<rparr>\<rparr>)"
  have "app_step jp sp md canvas a TimerEvent ?a1 []"
    by (rule app_step.timers) (simp add: p1(1) quiet_call)
  moreover have "app_step jp sp md canvas ?a1 TimerEvent ?a2 []"
    by (rule app_step.timers) (simp add: p2 quiet_call)
  moreover have "?a1 = a\<lparr>ap_session := ?s\<lparr>se_player := p1\<rparr>\<rparr>"
    by (simp add: rerender_def app_inputs_def ap_state_def)
  then have "ap_state ?a2 = ap_state a" "\<not> ap_atLive ?a2" "ap_session ?a2 = ?s\<lparr>se_player := ?p2\<rparr>"
    using offered by (simp_all add: rerender_def app_inputs_def ap_state_def)
  ultimately show ?thesis using live quiet by (intro exI [of _ ?a1] exI [of _ ?a2]) (simp add: session_isAtLive_def)
qed

text \<open>C23. The controls match the session. In every state the app can reach, in either layout: Stop
  and the speeds are offered exactly while a debate is live; with no debate live, a question can be
  submitted or the form be opened; the stage never offers its form over a live debate; and the
  sound can always be toggled. \<open>Go to live\<close> is offered exactly while a debate is live and the last render
  of \<open>App\<close> found something to catch up with; that is exactly while there is something, whenever \<open>App\<close> has
  just rendered: at a commit, and at every step that changes the debate's state, the speed, the question, the sound or
  the layout. Between renders it may be wrong, in either direction, as the player can move on without a
  dispatch: where it is missing, a timer is armed, so that playback goes on by itself; where it is offered
  with nothing to catch up with, clicking it does nothing.\<close>

theorem controls_match_the_session:
  assumes "zod_documented sp" "no_handlers md canvas" "app_run jp sp md canvas (App m u wide) es a cs"
  shows "(StopAct \<in> actions (render md canvas sm a) \<longleftrightarrow> live (ap_session a))
    \<and> (\<forall>x. RateAct x \<in> actions (render md canvas sm a) \<longleftrightarrow>
         live (ap_session a) \<and> x \<in> {JNum (1 / 2), JNum 1, JNum (3 / 2), JNum 2})
    \<and> (LiveAct \<in> actions (render md canvas sm a) \<longleftrightarrow> live (ap_session a) \<and> \<not> ap_atLive a)
    \<and> (\<forall>e a' ds. app_step jp sp md canvas a e a' ds \<and> (e = Commit \<or> app_inputs a' \<noteq> app_inputs a) \<longrightarrow>
         (LiveAct \<in> actions (render md canvas sm a') \<longleftrightarrow> live (ap_session a') \<and> \<not> session_isAtLive (ap_session a')))
    \<and> (live (ap_session a) \<and> \<not> session_isAtLive (ap_session a) \<and> LiveAct \<notin> actions (render md canvas sm a) \<longrightarrow>
         timer (se_player (ap_session a)) \<noteq> None)
    \<and> (session_isAtLive (ap_session a) \<longrightarrow>
         (\<exists>s. goToLive (ap_session a) = Some s \<and> se_state s = se_state (ap_session a)))
    \<and> (\<not> live (ap_session a) \<longrightarrow>
         FormAct SubmitForm \<in> actions (render md canvas sm a) \<or> ComposeAct \<in> actions (render md canvas sm a))
    \<and> (live (ap_session a) \<and> is_stage (ap_layout a) \<longrightarrow> (\<forall>x. FormAct x \<notin> actions (render md canvas sm a)))
    \<and> SoundAct \<in> actions (render md canvas sm a)"
proof -
  have inv: "app_inv a" using app_run_inv [OF assms(3) app_inv_init assms(1)] .
  have l: "live (ap_session a) \<longleftrightarrow> phase (se_state (ap_session a)) \<in> LIVE_PHASES"
    using live_phase [of a] by (simp add: ap_state_def)
  have rendered: "LiveAct \<in> actions (render md canvas sm a') \<longleftrightarrow> live (ap_session a') \<and> \<not> session_isAtLive (ap_session a')"
    if "app_step jp sp md canvas a e a' ds" "e = Commit \<or> app_inputs a' \<noteq> app_inputs a" for e a' ds
    using live_offered [OF app_inv_step [OF inv assms(1) that(1)] assms(2)] rendered_atLive [OF that] by simp
  have armed: "timer (se_player (ap_session a)) \<noteq> None" if "\<not> session_isAtLive (ap_session a)"
    using inv that by (auto simp: app_inv_def session_inv_def good_player_def awake_def session_isAtLive_def isAtLive_def)
  have skip: "\<exists>s. goToLive (ap_session a) = Some s \<and> se_state s = se_state (ap_session a)" if "session_isAtLive (ap_session a)"
    using nothing_to_skip [OF _ that] inv by (simp add: app_inv_def)
  have controls: "(StopAct \<in> actions (render md canvas sm a) \<longleftrightarrow> live (ap_session a))
    \<and> (\<forall>x. RateAct x \<in> actions (render md canvas sm a) \<longleftrightarrow>
         live (ap_session a) \<and> x \<in> {JNum (1 / 2), JNum 1, JNum (3 / 2), JNum 2})
    \<and> (\<not> live (ap_session a) \<longrightarrow>
         FormAct SubmitForm \<in> actions (render md canvas sm a) \<or> ComposeAct \<in> actions (render md canvas sm a))
    \<and> (live (ap_session a) \<and> is_stage (ap_layout a) \<longrightarrow> (\<forall>x. FormAct x \<notin> actions (render md canvas sm a)))
    \<and> SoundAct \<in> actions (render md canvas sm a)"
  proof (cases "ap_layout a")
    case (Stage L)
    with inv have "sg_composing L \<longrightarrow> \<not> live (ap_session a)" by (simp add: app_inv_def)
    with Stage l show ?thesis
      by (auto simp: render_def Let_def actions_stage [OF assms(2)] actions_QuestionForm actions_PlaybackControls
          RATE_PRESETS_def is_stage_def)
  next
    case (Mobile L)
    have x: "x \<in> actions (render md canvas sm a) \<longleftrightarrow>
        x \<in> actions (QuestionForm (phase (se_state (ap_session a))) FormAct StopAct (su_enabled (ap_sound a)) (Some SoundAct) (mb_form L))
          \<union> actions_of (PlaybackControls (phase (se_state (ap_session a))) (se_rate (ap_session a)) RateAct (ap_atLive a) LiveAct)"
      if "x \<notin> {DismissAct, AskAnotherAct}" for x
      using that actions_mobile [OF assms(2), of sm "se_state (ap_session a)" "ap_rounds a" "su_enabled (ap_sound a)"
          "se_rate (ap_session a)" "ap_atLive a" L] Mobile
      by (simp add: render_def Let_def) blast
    show ?thesis
      using Mobile l by (auto simp: x actions_QuestionForm actions_PlaybackControls RATE_PRESETS_def is_stage_def)
  qed
  show ?thesis using controls live_offered [OF inv assms(2)] rendered armed skip by blast
qed

theorem controls_match_the_session_witness:
  "\<exists>a :: app. live (ap_session a) \<and> StopAct \<in> actions (render (\<lambda>_. []) (\<lambda>_. []) (\<lambda>_ _. smooth_init []) a)
     \<and> FormAct SubmitForm \<notin> actions (render (\<lambda>_. []) (\<lambda>_. []) (\<lambda>_ _. smooth_init []) a)"
proof -
  obtain a where a: "app_run (\<lambda>_. None) zod_reference (\<lambda>_. []) (\<lambda>_. []) (App False (useSound None True None) True)
      [Click (FormAct (TypeQuestion (js ''a''))), Click (FormAct SubmitForm)] a []"
    "ap_session a = ask (js ''a'') (Some (JNum 2)) (useDebate False)" "is_stage (ap_layout a)"
    using asks_from_mount by blast
  from a(2) asked_phase have "live (ap_session a)" by (simp add: live_def)
  with controls_match_the_session [OF zod_reference_documented no_handlers_empty a(1), of "\<lambda>_ _. smooth_init []"] a(3)
  show ?thesis by blast
qed

end
