(* ===== verification/Markdown.thy ===== *)
theory Markdown
  imports Dom
begin

text \<open>
  \<open>components/verdict/Markdown.tsx\<close>: the renderers given to react-markdown. What react-markdown and
  remark-gfm make of a text is third-party: a tree \<open>parse v\<close>, an element of it with its tag, its
  \<open>href\<close> and its class name. Embedded HTML is a text there, as \<open>rehype-raw\<close> is not enabled.
\<close>

datatype md_tree =
    MdText jstr
  | MdEl string "jstr option" "string option" "md_tree list"

text \<open>The table \<open>components\<close>: the element each renderer returns for its children. A tag without a
  renderer is rendered as itself; most renderers only add classes, as the two branches of \<open>code\<close> do.\<close>

definition md_component :: "string \<Rightarrow> jstr option \<Rightarrow> 'a node list \<Rightarrow> 'a node" where
  "md_component tag href children =
    (if tag = ''a'' then
       El ''a'' ((case href of None \<Rightarrow> [] | Some h \<Rightarrow> [Href h]) @ [LinkTarget ''_blank'', Rel ''noopener noreferrer'']) children
     else if tag = ''table'' then El ''div'' [] [El ''table'' [] children]
     else El tag [] children)"

fun md_render :: "md_tree \<Rightarrow> 'a node" where
  "md_render (MdText t) = Txt t"
| "md_render (MdEl tag href className children) = md_component tag href (map md_render children)"

definition Markdown :: "(jstr \<Rightarrow> md_tree list) \<Rightarrow> jstr \<Rightarrow> 'a node list" where
  "Markdown parse v = map md_render (parse v)"

text \<open>The verdict is untrusted: it can bring no handler, every link of it opens without access to the
  page, and its words are all there.\<close>

fun md_text :: "md_tree \<Rightarrow> jstr" where
  "md_text (MdText t) = t"
| "md_text (MdEl tag href className children) = concat (map md_text children)"

lemma md_component_actions: "\<Union> (actions ` set ns) = {} \<Longrightarrow> actions (md_component tag href ns) = {}"
  by (simp add: md_component_def actions_of_def split: option.split)

lemma markdown_actions: "actions (md_render t :: 'a node) = {}"
proof (induction t rule: md_render.induct)
  case (2 tag href className children)
  then have "\<Union> (actions ` set (map md_render children :: 'a node list)) = {}" by simp
  then show ?case by (simp only: md_render.simps md_component_actions)
qed simp

lemma markdown_no_handlers: "actions_of (Markdown parse v) = {}"
  by (auto simp: actions_of_def Markdown_def markdown_actions)

lemma markdown_links:
  "El ''a'' ats ns \<in> set (subnodes (md_render t)) \<Longrightarrow> Rel ''noopener noreferrer'' \<in> set ats"
  by (induction t rule: md_render.induct) (auto simp: md_component_def split: if_splits)

lemma markdown_text: "text_of (md_render t :: 'a node) = md_text t"
proof (induction t rule: md_render.induct)
  case (2 tag href className children)
  then have "map (text_of \<circ> (md_render :: md_tree \<Rightarrow> 'a node)) children = map md_text children" by simp
  from arg_cong [OF this, of concat] show ?case by (simp add: md_component_def del: map_eq_conv)
qed simp

end
