(* ===== verification/Verdict_Dialog.thy ===== *)
theory Verdict_Dialog
  imports Transcript_Views
begin

text \<open>
  The effects of \<open>components/verdict/VerdictPanel.tsx\<close>, beside what it renders (\<open>Transcript_Views\<close>):
  the window's \<open>keydown\<close> listener and where the focus goes. An element of the page is a value of \<open>'n\<close>,
  a callback a value of \<open>'a\<close>; a second listener on the window would be a second entry.
\<close>

record ('n, 'a) page =
  pg_focus :: "'n option"
  pg_keydown :: "'a list"

record ('n, 'a) verdict_dialog =
  vd_onClose :: 'a
  vd_opener :: "'n option"

definition dialog_mount :: "'n \<Rightarrow> 'a \<Rightarrow> ('n, 'a) page \<Rightarrow> ('n, 'a) page \<times> ('n, 'a) verdict_dialog" where
  "dialog_mount panel onClose pg =
    (let pg = pg\<lparr>pg_keydown := pg_keydown pg @ [onClose]\<rparr>;
         opener = pg_focus pg
     in (pg\<lparr>pg_focus := Some panel\<rparr>, \<lparr>vd_onClose = onClose, vd_opener = opener\<rparr>))"

text \<open>A render with another \<open>onClose\<close>: the effect's cleanup, and the effect.\<close>

definition dialog_rerender :: "'a \<Rightarrow> ('n, 'a) page \<times> ('n, 'a) verdict_dialog \<Rightarrow> ('n, 'a) page \<times> ('n, 'a) verdict_dialog" where
  "dialog_rerender onClose = (\<lambda>(pg, d).
    if onClose = vd_onClose d then (pg, d)
    else (pg\<lparr>pg_keydown := remove1 (vd_onClose d) (pg_keydown pg) @ [onClose]\<rparr>, d\<lparr>vd_onClose := onClose\<rparr>))"

definition dialog_unmount :: "('n, 'a) page \<times> ('n, 'a) verdict_dialog \<Rightarrow> ('n, 'a) page" where
  "dialog_unmount = (\<lambda>(pg, d).
    let pg = pg\<lparr>pg_keydown := remove1 (vd_onClose d) (pg_keydown pg)\<rparr>
    in (case vd_opener d of None \<Rightarrow> pg | Some n \<Rightarrow> pg\<lparr>pg_focus := Some n\<rparr>))"

text \<open>A key pressed anywhere on the page: what the dialogs' listeners call.\<close>

definition press_key :: "jstr \<Rightarrow> ('n, 'a) page \<Rightarrow> 'a list" where
  "press_key key pg = (if key = js ''Escape'' then pg_keydown pg else [])"

text \<open>A Tab inside the dialog moves the focus as \<open>trapFocus\<close> says, or as the browser would.\<close>

definition press_tab :: "('n \<Rightarrow> bool \<Rightarrow> 'n) \<Rightarrow> 'n list \<Rightarrow> bool \<Rightarrow> ('n, 'a) page \<Rightarrow> ('n, 'a) page" where
  "press_tab browser items shift pg =
    (case pg_focus pg of
       None \<Rightarrow> pg
     | Some n \<Rightarrow> pg\<lparr>pg_focus := Some (case trapFocus items n shift of Some m \<Rightarrow> m | None \<Rightarrow> browser n shift)\<rparr>)"

text \<open>Whatever is rendered and tabbed in between, a dialog that closes leaves the page as it found it:
  the focus is back on the opener and its listener is gone.\<close>

datatype 'a dialog_event = Rerender 'a | Tab bool

fun dialog_next :: "('n \<Rightarrow> bool \<Rightarrow> 'n) \<Rightarrow> 'n list \<Rightarrow> ('n, 'a) page \<times> ('n, 'a) verdict_dialog \<Rightarrow> 'a dialog_event \<Rightarrow>
    ('n, 'a) page \<times> ('n, 'a) verdict_dialog" where
  "dialog_next browser items pd (Rerender onClose) = dialog_rerender onClose pd"
| "dialog_next browser items (pg, d) (Tab shift) = (press_tab browser items shift pg, d)"

definition dialog_open :: "('n, 'a) page \<Rightarrow> ('n, 'a) page \<times> ('n, 'a) verdict_dialog \<Rightarrow> bool" where
  "dialog_open pg0 = (\<lambda>(pg, d). vd_opener d = pg_focus pg0 \<and> pg_keydown pg = pg_keydown pg0 @ [vd_onClose d]
     \<and> pg_focus pg \<noteq> None \<and> vd_onClose d \<notin> set (pg_keydown pg0))"

interpretation dialog: step_machine "dialog_next browser items" "dialog_open pg0"
    "\<lambda>e. case e of Rerender c \<Rightarrow> c \<notin> set (pg_keydown pg0) | Tab _ \<Rightarrow> True" for browser items pg0
  by unfold_locales
    (auto simp: dialog_open_def dialog_rerender_def press_tab_def remove1_append
      split: dialog_event.splits option.split if_splits)

lemma dialog_open_mount: "onClose \<notin> set (pg_keydown pg) \<Longrightarrow> dialog_open pg (dialog_mount panel onClose pg)"
  by (simp add: dialog_open_def dialog_mount_def Let_def)

lemma dialog_leaves_the_page:
  fixes pg :: "('n, 'a) page"
  assumes "onClose \<notin> set (pg_keydown pg)" "pg_focus pg = Some opener"
    and "list_all (\<lambda>e. case e of Rerender c \<Rightarrow> c \<notin> set (pg_keydown pg) | Tab _ \<Rightarrow> True) es"
  shows "dialog_unmount (foldl (dialog_next browser items) (dialog_mount panel onClose pg) es) = pg"
proof -
  obtain pg' d where e: "foldl (dialog_next browser items) (dialog_mount panel onClose pg) es = (pg', d)" by fastforce
  have "dialog_open pg (foldl (dialog_next browser items) (dialog_mount panel onClose pg) es)"
    by (rule dialog.inv_run [OF dialog_open_mount [OF assms(1)] assms(3)])
  with e have "vd_opener d = pg_focus pg" "pg_keydown pg' = pg_keydown pg @ [vd_onClose d]" "vd_onClose d \<notin> set (pg_keydown pg)"
    by (simp_all add: dialog_open_def)
  with assms(2) have "dialog_unmount (pg', d) = pg"
    by (cases pg; cases pg') (simp add: dialog_unmount_def Let_def remove1_append)
  with e show ?thesis by simp
qed

text \<open>While it is open Escape calls its current \<open>onClose\<close>, once.\<close>

lemma escape_closes_once:
  assumes "dialog_open pg0 (pg, d)" "pg_keydown pg0 = []"
  shows "press_key (js ''Escape'') pg = [vd_onClose d]"
  using assms by (simp add: dialog_open_def press_key_def)

end
