(* ===== verification/Focus.thy ===== *)
theory Focus
  imports App_Shell Verdict_Dialog
begin

text \<open>
  Where the focus is, over the app of \<open>App_Shell\<close>: the effect of \<open>StageLayout\<close> that puts it into the
  question field when the form opens, \<open>pickPreset\<close> of \<open>QuestionForm\<close>, \<open>handleAskAnother\<close> of
  \<open>MobileLayout\<close>, and the effects of the verdict panel (\<open>Verdict_Dialog\<close>), which also listens for Escape.
\<close>

section \<open>The page and its focus\<close>

text \<open>\<open>VerdictBox\<close> is the verdict panel with all that is in it; no place is the body of the page.\<close>

datatype place = QuestionField | VerdictBox | Elsewhere nat

text \<open>\<open>fc_composing\<close> is what the stage's effect last ran for, \<open>None\<close> when the stage is not mounted.
  \<open>fc_frames\<close> counts the frames \<open>handleAskAnother\<close> requested.\<close>

record focused =
  fc_app :: app
  fc_page :: "(place, ui_action) page"
  fc_dialog :: "(place, ui_action) verdict_dialog option"
  fc_composing :: "bool option"
  fc_frames :: nat

fun shows_dialog :: "debate_phase \<Rightarrow> layout \<Rightarrow> bool" where
  "shows_dialog ph (Stage L) = False"
| "shows_dialog ph (Mobile L) = showVerdict ph (mb_spotlight L)"

fun stage_composing :: "layout \<Rightarrow> bool option" where
  "stage_composing (Stage L) = Some (sg_composing L)"
| "stage_composing (Mobile L) = None"

abbreviation app_shows :: "app \<Rightarrow> bool" where
  "app_shows a \<equiv> shows_dialog (phase (ap_state a)) (ap_layout a)"

text \<open>The form of a stage that is not composing is \<open>inert\<close>: it does not take the focus, and loses it.\<close>

definition focus_question :: "app \<Rightarrow> (place, ui_action) page \<Rightarrow> (place, ui_action) page" where
  "focus_question a pg = (if stage_composing (ap_layout a) = Some False then pg else pg\<lparr>pg_focus := Some QuestionField\<rparr>)"

definition settle :: "app \<Rightarrow> (place, ui_action) page \<Rightarrow> (place, ui_action) page" where
  "settle a pg = (if stage_composing (ap_layout a) = Some False \<and> pg_focus pg = Some QuestionField then pg\<lparr>pg_focus := None\<rparr> else pg)"

text \<open>A commit: the panel mounts or unmounts with what was rendered, and its effects run; then the stage's.
  An element that is removed loses the focus; the panel gives it back to the opener, unless that was
  removed as well, with the whole layout.\<close>

definition removed :: "(place, ui_action) page \<Rightarrow> (place, ui_action) page" where
  "removed pg = (if pg_focus pg = Some VerdictBox then pg\<lparr>pg_focus := None\<rparr> else pg)"

definition dialog_effects :: "app \<Rightarrow> (place, ui_action) page \<Rightarrow> (place, ui_action) verdict_dialog option \<Rightarrow>
    (place, ui_action) page \<times> (place, ui_action) verdict_dialog option" where
  "dialog_effects a pg dialog =
    (case dialog of
       None \<Rightarrow> if app_shows a then (let (pg', d) = dialog_mount VerdictBox DismissAct pg in (pg', Some d)) else (pg, None)
     | Some d \<Rightarrow>
         if app_shows a then (pg, Some d)
         else (dialog_unmount (removed pg, if is_stage (ap_layout a) then d\<lparr>vd_opener := None\<rparr> else d), None))"

definition compose_effect :: "app \<Rightarrow> bool option \<Rightarrow> (place, ui_action) page \<Rightarrow> (place, ui_action) page" where
  "compose_effect a seen pg =
    (if stage_composing (ap_layout a) \<noteq> seen \<and> stage_composing (ap_layout a) = Some True then focus_question a pg else pg)"

definition focus_commit :: "focused \<Rightarrow> focused" where
  "focus_commit f =
    (let a = fc_app f;
         (pg, d) = dialog_effects a (settle a (fc_page f)) (fc_dialog f)
     in f\<lparr>fc_app := fst (app_commit (refresh a)), fc_page := compose_effect a (fc_composing f) pg, fc_dialog := d,
          fc_composing := stage_composing (ap_layout a)\<rparr>)"

text \<open>A click: \<open>pickPreset\<close> and \<open>handleAskAnother\<close> do more than the app's state shows.\<close>

definition click_focus :: "ui_action \<Rightarrow> app \<Rightarrow> focused \<Rightarrow> focused" where
  "click_focus act a f =
    (case act of
       FormAct (PickPreset _) \<Rightarrow> f\<lparr>fc_app := a, fc_page := focus_question (fc_app f) (fc_page f)\<rparr>
     | AskAnotherAct \<Rightarrow> f\<lparr>fc_app := a, fc_frames := fc_frames f + 1\<rparr>
     | _ \<Rightarrow> f\<lparr>fc_app := a\<rparr>)"

text \<open>What React has committed is what is rendered: so it is when a user's event or a frame is handled.\<close>

definition in_sync :: "focused \<Rightarrow> bool" where
  "in_sync f \<longleftrightarrow> (fc_dialog f \<noteq> None \<longleftrightarrow> app_shows (fc_app f)) \<and> fc_composing f = stage_composing (ap_layout (fc_app f))"

inductive focus_step ::
    "(jstr \<Rightarrow> json option) \<Rightarrow> safe_parser \<Rightarrow> (jstr \<Rightarrow> ui_action node list) \<Rightarrow> (debate_state \<Rightarrow> ui_action node list)
      \<Rightarrow> focused \<Rightarrow> focused \<Rightarrow> bool"
  for jp sp md canvas where
  clicks_at: "in_sync f \<Longrightarrow> app_step jp sp md canvas (fc_app f) (Click act) a cs \<Longrightarrow>
    focus_step jp sp md canvas f (click_focus act a f)"
| escapes: "in_sync f \<Longrightarrow> act \<in> set (press_key (js ''Escape'') (fc_page f)) \<Longrightarrow> app_click act (fc_app f) = Some (a, cs) \<Longrightarrow>
    focus_step jp sp md canvas f (f\<lparr>fc_app := rerender (fc_app f) a\<rparr>)"
| session_moves: "app_step jp sp md canvas (fc_app f) e a cs \<Longrightarrow> e = TimerEvent \<or> (\<exists>n x. e = SocketEvent n x) \<Longrightarrow>
    focus_step jp sp md canvas f (f\<lparr>fc_app := a\<rparr>)"
| commits_focus: "focus_step jp sp md canvas f (focus_commit f)"
| resizes_focus: "in_sync f \<Longrightarrow> focus_step jp sp md canvas f (f\<lparr>fc_app := rerender (fc_app f) (app_resize wide (fc_app f)),
    fc_page := (if is_stage (ap_layout (fc_app f)) = wide then fc_page f else (fc_page f)\<lparr>pg_focus := None\<rparr>)\<rparr>)"
| user_moves: "in_sync f \<Longrightarrow> p = Some VerdictBox \<longrightarrow> fc_dialog f \<noteq> None \<Longrightarrow>
    focus_step jp sp md canvas f (f\<lparr>fc_page := settle (fc_app f) ((fc_page f)\<lparr>pg_focus := p\<rparr>)\<rparr>)"
| frames: "in_sync f \<Longrightarrow> 0 < fc_frames f \<Longrightarrow>
    focus_step jp sp md canvas f (f\<lparr>fc_frames := fc_frames f - 1, fc_page := focus_question (fc_app f) (fc_page f)\<rparr>)"

definition focus_start :: "app \<Rightarrow> focused" where
  "focus_start a = \<lparr>fc_app = a, fc_page = \<lparr>pg_focus = None, pg_keydown = []\<rparr>, fc_dialog = None, fc_composing = None, fc_frames = 0\<rparr>"

section \<open>Escape and the focus follow what is shown\<close>

text \<open>There is a listener for Escape while the panel is mounted, and never two; the focus is in no panel
  that is gone, and in no form that is folded away.\<close>

definition focus_inv :: "focused \<Rightarrow> bool" where
  "focus_inv f \<longleftrightarrow>
    (case fc_dialog f of
       None \<Rightarrow> pg_keydown (fc_page f) = [] \<and> pg_focus (fc_page f) \<noteq> Some VerdictBox
     | Some d \<Rightarrow> pg_keydown (fc_page f) = [DismissAct] \<and> vd_onClose d = DismissAct \<and> vd_opener d \<noteq> Some VerdictBox)
    \<and> (fc_composing f = Some False \<longrightarrow> pg_focus (fc_page f) \<noteq> Some QuestionField)"

lemma page_frame [simp]:
  "pg_keydown (settle a pg) = pg_keydown pg" "pg_keydown (focus_question a pg) = pg_keydown pg"
  "pg_keydown (compose_effect a seen pg) = pg_keydown pg" "pg_keydown (removed pg) = pg_keydown pg"
  by (simp_all add: settle_def focus_question_def compose_effect_def removed_def)

lemma focus_inv_commit:
  assumes "focus_inv f"
  shows "focus_inv (focus_commit f)"
proof (cases "ap_layout (fc_app f)")
  case (Stage L)
  with assms show ?thesis
    by (auto simp: focus_inv_def focus_commit_def dialog_effects_def dialog_unmount_def compose_effect_def focus_question_def
        settle_def removed_def is_stage_def Let_def split: option.splits)
next
  case (Mobile L)
  with assms show ?thesis
    by (auto simp: focus_inv_def focus_commit_def dialog_effects_def dialog_mount_def dialog_unmount_def compose_effect_def
        focus_question_def settle_def removed_def is_stage_def Let_def split: option.splits)
qed

lemma focus_inv_step:
  assumes "focus_step jp sp md canvas f f'" "focus_inv f"
  shows "focus_inv f'"
  using assms(1)
proof cases
  case (clicks_at act a cs)
  with assms(2) show ?thesis
    by (auto simp: focus_inv_def click_focus_def focus_question_def in_sync_def split: ui_action.splits form_action.splits option.splits)
next
  case commits_focus
  with assms(2) focus_inv_commit show ?thesis by simp
next
  case (user_moves p)
  with assms(2) show ?thesis by (auto simp: focus_inv_def settle_def in_sync_def split: option.splits)
next
  case frames
  with assms(2) show ?thesis by (auto simp: focus_inv_def focus_question_def in_sync_def split: option.splits)
qed (use assms(2) in \<open>auto simp: focus_inv_def split: option.splits\<close>)

interpretation focusing: step_system "focus_step jp sp md canvas" focus_inv
  by unfold_locales (rule focus_inv_step)

lemma focus_inv_start: "focus_inv (focus_start a)"
  by (simp add: focus_inv_def focus_start_def)

lemma escape_closes_what_is_shown:
  assumes "(focus_step jp sp md canvas)\<^sup>*\<^sup>* (focus_start a) f" "in_sync f"
  shows "press_key (js ''Escape'') (fc_page f) = (if app_shows (fc_app f) then [DismissAct] else [])"
  using focusing.inv_reach [OF assms(1) focus_inv_start] assms(2)
  by (auto simp: focus_inv_def in_sync_def press_key_def split: option.splits)

lemma focus_is_where_it_can_be_seen:
  assumes "(focus_step jp sp md canvas)\<^sup>*\<^sup>* (focus_start a) f" "in_sync f"
  shows "pg_focus (fc_page f) = Some VerdictBox \<Longrightarrow> app_shows (fc_app f)"
    and "pg_focus (fc_page f) = Some QuestionField \<Longrightarrow> stage_composing (ap_layout (fc_app f)) \<noteq> Some False"
  using focusing.inv_reach [OF assms(1) focus_inv_start] assms(2)
  by (auto simp: focus_inv_def in_sync_def split: option.splits)

text \<open>Escape does nothing but what a click on the page does, so what holds of every run of the app holds
  here.\<close>

lemma panel_offers_dismissal: "app_shows a \<Longrightarrow> DismissAct \<in> actions (render md canvas sm a)"
  by (cases "ap_layout a")
    (auto simp: render_def MobileLayout_def VerdictPanel_def ap_state_def Let_def)

lemma focus_step_app:
  assumes "focus_step jp sp md canvas f f'" "focus_inv f"
  shows "fc_app f' = fc_app f \<or> (\<exists>e cs. app_step jp sp md canvas (fc_app f) e (fc_app f') cs)"
  using assms(1)
proof cases
  case (clicks_at act a cs)
  moreover have "fc_app (click_focus act a f) = a" by (simp add: click_focus_def split: ui_action.split form_action.split)
  ultimately show ?thesis by auto
next
  case (escapes act a cs)
  with assms(2) have "act = DismissAct" "app_shows (fc_app f)"
    by (auto simp: focus_inv_def in_sync_def press_key_def split: option.splits if_splits)
  with app_step.clicks [OF panel_offers_dismissal escapes(4) [unfolded \<open>act = DismissAct\<close>], of jp sp md canvas] escapes(1)
  show ?thesis by auto
next
  case commits_focus
  moreover have "fc_app (focus_commit f) = fst (app_commit (refresh (fc_app f)))" by (simp add: focus_commit_def Let_def split_beta)
  ultimately show ?thesis using app_step.commits [of "fc_app f" "fst (app_commit (refresh (fc_app f)))"
      "snd (app_commit (refresh (fc_app f)))" jp sp md canvas] by auto
next
  case (resizes_focus wide)
  then show ?thesis using app_step.resizes [of jp sp md canvas "fc_app f" wide] by auto
qed auto

text \<open>The form that opens gets the focus; and so does the form behind the panel after "ask another".\<close>

lemma opened_form_has_the_focus:
  assumes "stage_composing (ap_layout (fc_app f)) = Some True" "fc_composing f \<noteq> Some True"
  shows "pg_focus (fc_page (focus_commit f)) = Some QuestionField"
  using assms by (auto simp: focus_commit_def compose_effect_def focus_question_def Let_def split_beta)

lemma ask_another_leads_to_the_form:
  assumes "in_sync f" "ap_layout (fc_app f) = Mobile L" "app_shows (fc_app f)" "sl_prevPhase (mb_spotlight L) = PhDone"
    and "app_click AskAnotherAct (fc_app f) = Some (a, cs)"
  defines "f' \<equiv> focus_commit (click_focus AskAnotherAct a f)"
  shows "in_sync f' \<and> fc_dialog f' = None \<and> 0 < fc_frames f' \<and> pg_focus (focus_question (fc_app f') (fc_page f')) = Some QuestionField"
proof -
  have a: "a = (fc_app f)\<lparr>ap_layout := Mobile (dismissVerdict L)\<rparr>"
    using assms(2,5) by (simp add: app_click_def)
  then have later: "ap_layout (fst (app_commit (refresh a))) = Mobile (dismissVerdict L\<lparr>mb_spotlight :=
      spotlight_effect (phase (ap_state a)) (spotlight_dismiss (mb_spotlight L))\<rparr>)" "ap_state (fst (app_commit (refresh a))) = ap_state a"
    by (simp_all add: commit_eq Let_def dismissVerdict_def ap_state_def)
  from assms(2,3) have over: "phase (ap_state (fc_app f)) = PhDone" by (simp add: showVerdict_def)
  have closed: "\<not> app_shows a" "\<not> app_shows (fst (app_commit (refresh a)))"
    using assms(4) later by (simp_all add: a showVerdict_def dismissVerdict_def spotlight_dismiss_def spotlight_effect_def ap_state_def over
        MODERATOR_PHASES_def Let_def)
  show ?thesis
    using assms(1) closed later
    by (auto simp: f'_def click_focus_def focus_commit_def dialog_effects_def in_sync_def focus_question_def a Let_def
        split: option.splits)
qed

end
