(* ===== verification/Debug_View.thy ===== *)
theory Debug_View
  imports Session Control_Views
begin

text \<open>
  \<open>components/DebugView.tsx\<close>: a page over \<open>useDebate\<close> alone, with its own question and rounds. Nothing
  imports it today. \<open>dump\<close> is \<open>JSON.stringify\<close> of the debate state, \<open>phase_name\<close> the phase's string.
\<close>

definition debug_ROUND_OPTIONS :: "nat list" where
  "debug_ROUND_OPTIONS = map (\<lambda>i. MIN_ROUNDS + i * 2) [0..<(MAX_ROUNDS - MIN_ROUNDS) div 2 + 1]"

record debug_view =
  db_session :: session
  db_question :: jstr
  db_rounds :: nat

definition DebugView :: "bool \<Rightarrow> debug_view" where
  "DebugView still = \<lparr>db_session = useDebate still, db_question = [], db_rounds = DEFAULT_ROUNDS\<rparr>"

datatype debug_action = DebugQuestion jstr | DebugRounds nat | DebugConvene | DebugStop

definition debug_validation :: "debug_view \<Rightarrow> build_ask_result" where
  "debug_validation d = buildAsk (db_question d) (Some (JNum (of_nat (db_rounds d))))"

definition canAsk :: "debug_view \<Rightarrow> bool" where
  "canAsk d \<longleftrightarrow> (case debug_validation d of AskOk _ \<Rightarrow> True | AskErr _ \<Rightarrow> False)
     \<and> phase (se_state (db_session d)) \<noteq> PhConnecting"

fun phase_name :: "debate_phase \<Rightarrow> string" where
  "phase_name PhIdle = ''idle''"
| "phase_name PhConnecting = ''connecting''"
| "phase_name PhDebating = ''debating''"
| "phase_name PhModerating = ''moderating''"
| "phase_name PhDone = ''done''"
| "phase_name PhStopped = ''stopped''"
| "phase_name PhError = ''error''"

definition debug_page :: "(debate_state \<Rightarrow> jstr) \<Rightarrow> debug_view \<Rightarrow> debug_action node" where
  "debug_page dump d =
    El ''main'' []
      [El ''h1'' [] [Txt (js ''Council ''), El ''span'' [] [Txt (MIDDLE_DOT @ js '' F0 debug'')]],
       El ''section'' []
         ([El ''textarea'' [Placeholder (js ''Ask the council'' @ ELLIPSIS), TextValue (db_question d), OnInput DebugQuestion] [],
           El ''div'' []
             [El ''label'' [] [Txt (js ''rounds ''),
                El ''select'' [NumValue (db_rounds d), OnSelect DebugRounds]
                  (map (\<lambda>r. El ''option'' [NumValue r] [Txt (shown r)]) debug_ROUND_OPTIONS)],
              El ''button'' (OnClick DebugConvene # (if canAsk d then [] else [Disabled])) [Txt (js ''Convene'')],
              El ''button'' [OnClick DebugStop] [Txt (js ''Stop'')],
              El ''span'' [] [Txt (js ''phase: ''), Txt (js (phase_name (phase (se_state (db_session d)))))]]]
          @ (case debug_validation d of
               AskErr e \<Rightarrow> if js_trim (db_question d) \<noteq> [] then [El ''p'' [] [Txt e]] else []
             | AskOk _ \<Rightarrow> [])),
       El ''pre'' [] [Txt (dump (se_state (db_session d)))]]"

fun debug_do :: "debug_action \<Rightarrow> debug_view \<Rightarrow> debug_view" where
  "debug_do (DebugQuestion t) d = d\<lparr>db_question := t\<rparr>"
| "debug_do (DebugRounds n) d = d\<lparr>db_rounds := n\<rparr>"
| "debug_do DebugConvene d = d\<lparr>db_session := ask (db_question d) (Some (JNum (of_nat (db_rounds d)))) (db_session d)\<rparr>"
| "debug_do DebugStop d = d\<lparr>db_session := stop (db_session d)\<rparr>"

lemma debug_ROUND_OPTIONS_eq: "debug_ROUND_OPTIONS = ROUND_OPTIONS"
  by (simp add: debug_ROUND_OPTIONS_def ROUND_OPTIONS_def)

text \<open>What the page offers: the button only when the question would be accepted, the rounds of the
  selector only.\<close>

lemma debug_actions:
  "actions (debug_page dump d) = range DebugQuestion \<union> DebugRounds ` {2, 4, 6, 8} \<union> {DebugStop}
     \<union> (if canAsk d then {DebugConvene} else {})"
  by (auto simp: debug_page_def debug_ROUND_OPTIONS_eq ROUND_OPTIONS_eq split: build_ask_result.split)

text \<open>So the page never freezes a debate: whatever it does to a live one leaves it attended or ended.\<close>

lemma debug_keeps_attended:
  assumes "session_inv (db_session d)" "attended (db_session d)" "act \<in> actions (debug_page dump d)"
  shows "session_inv (db_session (debug_do act d)) \<and> attended (db_session (debug_do act d))"
proof -
  have step: "session_inv s' \<and> attended s'"
    if "session_step (\<lambda>_. None) zod_reference (db_session d) e s'" "e \<noteq> Unmount"
      "\<And>q r. e = Ask q r \<Longrightarrow> \<exists>m. buildAsk q r = AskOk m" for e s'
    using session_inv_step [OF assms(1) zod_reference_documented that(1)]
      attended_step [OF assms(1) zod_reference_documented that(1) assms(2) that(2,3)] by blast
  show ?thesis
  proof (cases act)
    case DebugConvene
    with assms(3) have ok: "\<exists>m. buildAsk (db_question d) (Some (JNum (of_nat (db_rounds d)))) = AskOk m"
      by (auto simp: debug_actions canAsk_def debug_validation_def split: if_splits build_ask_result.splits)
    show ?thesis using step [OF session_step.asks] ok DebugConvene by simp
  next
    case DebugStop
    then show ?thesis using step [OF session_step.stops] by simp
  qed (use assms in simp_all)
qed

end
