(* ===== verification/Fixtures.thy ===== *)
theory Fixtures
  imports Playback
begin

text \<open>
  The canned event logs of \<open>test/fixtures/events.ts\<close>, which say how the tests understand the backend's
  order, and what becomes of them in the player and the reducer.
\<close>

definition fixture_PANEL :: "persona_id list" where
  "fixture_PANEL = [Skeptic, Optimist, Expert, Contrarian]"

definition fixture_delta :: "persona_id \<Rightarrow> string \<Rightarrow> jstr" where
  "fixture_delta p delta = js (take 1 (persona_name p) @ delta)"

definition interleavedRound :: "nat \<Rightarrow> debate_event list" where
  "interleavedRound rnd =
    concat (map (\<lambda>delta. map (\<lambda>p. TokenEvent p rnd (fixture_delta p delta)) fixture_PANEL) [''a'', ''b''])
    @ map (\<lambda>p. PersonaDoneEvent p rnd) fixture_PANEL
    @ [RoundCompleteEvent rnd]"

definition fullDebate :: "debate_event list" where
  "fullDebate = interleavedRound 1 @ interleavedRound 2 @
    [TokenEvent Moderator 3 (js ''Verdict ''), TokenEvent Moderator 3 (js ''follows.''),
     VerdictEvent (js ''## Final Verdict'' @ [10] @ js ''The expert carries the round.'')]"

definition debateWithPersonaError :: "debate_event list" where
  "debateWithPersonaError =
    [TokenEvent Skeptic 1 (js ''hi''),
     ErrorEvent \<lparr>ee_persona = Some Expert, ee_error = js ''stream failed''\<rparr>,
     PersonaDoneEvent Skeptic 1, RoundCompleteEvent 1, VerdictEvent (js ''done despite a failure'')]"

definition sessionError :: "debate_event list" where
  "sessionError = [ErrorEvent \<lparr>ee_persona = None, ee_error = js ''invalid request''\<rparr>]"

lemmas fixture_defs = fixture_PANEL_def fixture_delta_def interleavedRound_def fullDebate_def
  debateWithPersonaError_def sessionError_def

text \<open>The logs are what the wire can carry, and in the backend's order.\<close>

lemma fixtures_are_wire_events:
  "list_all wf_event fullDebate" "list_all wf_event debateWithPersonaError" "list_all wf_event sessionError"
  by (simp_all add: fixture_defs MAX_WIRE_ROUND_def MAX_ROUNDS_def)

lemma fixtures_in_order:
  "in_order ({}, False, False) (map Feed fullDebate)"
  "in_order ({}, False, False) (map Feed debateWithPersonaError)"
  "in_order ({}, False, False) (map Feed sessionError)"
  by (simp_all add: fixture_defs)

lemma full_debate_fed:
  "concat (fed Skeptic 1 (map Feed fullDebate)) = js ''sasb''"
  "concat (fed Contrarian 2 (map Feed fullDebate)) = js ''cacb''"
  "concat (fed Moderator 3 (map Feed fullDebate)) = js ''Verdict follows.''"
  "fed Moderator k (map Feed fullDebate) \<noteq> [] \<longrightarrow> k = 3"
  by (simp_all add: fixture_defs js_def)

text \<open>Fed to a player and left to its timers, the full debate ends done, with both passes of each
  panelist in its cell.\<close>

lemma full_debate_plays_out:
  "\<exists>p s q out s'. playback (map Feed fullDebate) (newPlayer m, initialState) = Some (p, s)
    \<and> run_timers p [] = Some (q, out) \<and> s' = foldl debateReducer s out \<and> phase s' = PhDone
    \<and> cell (transcript s') Skeptic 1 = js ''sasb'' \<and> cell (transcript s') Contrarian 2 = js ''cacb''
    \<and> cell (transcript s') Moderator 3 = js ''Verdict follows.''"
proof -
  have ok: "list_all ok_call (map Feed fullDebate)"
    using fixtures_are_wire_events(1) by (simp add: list_all_iff)
  have verdict: "Feed (VerdictEvent (js ''## Final Verdict'' @ [10] @ js ''The expert carries the round.'')) \<in> set (map Feed fullDebate)"
    by (simp add: fixture_defs)
  have rounds: "Feed (RoundCompleteEvent r) \<in> set (map Feed fullDebate)" if "1 \<le> r" "r \<le> 2" for r
  proof -
    from that have "r = 1 \<or> r = 2" by auto
    then show ?thesis by (auto simp: fixture_defs)
  qed
  obtain p s q out s' where run: "playback (map Feed fullDebate) (newPlayer m, initialState) = Some (p, s)"
    "run_timers p [] = Some (q, out)" "s' = foldl debateReducer s out" "phase s' = PhDone"
    and cells: "\<forall>x r. x \<noteq> Moderator \<and> 1 \<le> r \<and> r \<le> 2 \<longrightarrow>
      cell (transcript s') x r = take 200000 (concat (fed x r (map Feed fullDebate)))"
    "\<forall>r. (\<forall>k. fed Moderator k (map Feed fullDebate) \<noteq> [] \<longrightarrow> k = r) \<longrightarrow>
      cell (transcript s') Moderator r = take 200000 (concat (fed Moderator r (map Feed fullDebate)))"
    by (rule exE [OF replay_from [OF good_new fresh_new sync_new ok fixtures_in_order(1) verdict, of 2]],
        erule (1) rounds) (elim exE conjE, rule that)
  have "cell (transcript s') Skeptic 1 = js ''sasb''" "cell (transcript s') Contrarian 2 = js ''cacb''"
    using cells(1) [rule_format, of Skeptic 1] cells(1) [rule_format, of Contrarian 2]
    by (simp_all add: full_debate_fed [simplified])
  moreover have "cell (transcript s') Moderator 3 = js ''Verdict follows.''"
    using cells(2) [rule_format, of 3] by (simp add: full_debate_fed)
  ultimately show ?thesis using run by blast
qed

text \<open>A panelist's failure leaves the debate to its verdict; a rejected request ends it.\<close>

lemma failing_fixtures:
  "phase (buildState (map Wire debateWithPersonaError)) = PhDone"
  "errors (buildState (map Wire debateWithPersonaError)) = [\<lparr>de_persona = Some Expert, de_message = js ''stream failed''\<rparr>]"
  "phase (buildState (map Wire sessionError)) = PhError"
  by (simp_all add: fixture_defs buildState_def initialState_def withError_def MAX_ERRORS_def Let_def)

end
