(* ===== verification/Entry.thy ===== *)
theory Entry
  imports App_Shell
begin

text \<open>
  \<open>main.tsx\<close>, which mounts the app in the page, with what the app's hooks read of the browser when they
  start; and \<open>StrictMode\<close>, under which a development build runs every effect of a component that was
  just mounted, then their clean-ups, then every effect once more.
\<close>

text \<open>\<open>br_root\<close>: the document has the element \<open>root\<close>. \<open>br_audio\<close>: \<open>window\<close>'s two constructors of an audio
  context, \<open>None\<close> without a window.\<close>

record browser =
  br_root :: bool
  br_media :: media
  br_audio :: "(audio_context option \<times> audio_context option) option"
  br_storage :: bool
  br_stored :: "string option"

definition STAGE_MIN_WIDTH :: string where
  "STAGE_MIN_WIDTH = ''(min-width: 768px)''"

definition app_starts :: "browser \<Rightarrow> app" where
  "app_starts b = App (player_prefersReducedMotion (br_media b))
     (useSound (getAudioContextCtor (br_audio b)) (br_storage b) (br_stored b))
     (useMediaQuery_init (matchMediaSafe (br_media b) STAGE_MIN_WIDTH))"

text \<open>The clean-up of \<open>useDebate\<close>'s effect; the app's other effects have none that its state shows. The
  effects then run again whatever their dependencies.\<close>

definition app_cleanup :: "app \<Rightarrow> app" where
  "app_cleanup a = a\<lparr>ap_session := unmount (ap_session a), ap_sound := (ap_sound a)\<lparr>su_seen := None\<rparr>\<rparr>"

text \<open>\<open>None\<close>: \<open>createRoot\<close> throws, there is nothing to mount in.\<close>

definition main_tsx :: "bool \<Rightarrow> browser \<Rightarrow> (app \<times> audio_call list) option" where
  "main_tsx development b =
    (if \<not> br_root b then None
     else let (a, c) = app_commit (app_starts b)
          in Some (if development then let (a', c') = app_commit (app_cleanup a) in (a', c @ c') else (a, c)))"

lemmas mount_simps = app_commit_def App_def useDebate_def initialState_def round_effect_def phase_effect_def
  sound_effect_def useSound_def on_engine_def setEnabled_def createSoundEngine_def mobile_mount_def ap_state_def
  useVerdictSpotlight_def spotlight_effect_def MODERATOR_PHASES_def Let_def

lemma first_commit:
  "app_commit (App m (useSound c storage stored) wide) =
    ((App m (useSound c storage stored) wide)\<lparr>ap_sound := fst (sound_effect (useSound c storage stored))\<rparr>, [])"
  by (cases wide) (simp_all add: mount_simps)

lemma cleanup_and_again:
  "app_commit (app_cleanup (fst (app_commit (App m (useSound c storage stored) wide)))) = app_commit (App m (useSound c storage stored) wide)"
proof -
  have "unmount (useDebate m) = useDebate m"
    by (simp add: unmount_def dispose_current_def useDebate_def reset_def newPlayer_def)
  then show ?thesis
    unfolding first_commit by (cases wide) (simp_all add: app_cleanup_def mount_simps)
qed

text \<open>What was mounted is the app its properties speak of; it has made no sound, whatever is stored; and the
  rehearsal of the effects has left no trace.\<close>

lemma strict_mode_leaves_no_trace: "main_tsx True b = main_tsx False b"
  using cleanup_and_again by (simp add: main_tsx_def app_starts_def first_commit Let_def)

lemma page_starts:
  assumes "br_root b"
  shows "\<exists>a. main_tsx development b = Some (a, []) \<and> app_inv a \<and> phase (ap_state a) = PhIdle
    \<and> (su_enabled (ap_sound a) \<longrightarrow> br_storage b \<and> br_stored b = Some ''true'')"
proof -
  let ?a = "fst (app_commit (app_starts b))"
  have "main_tsx False b = Some (?a, [])" using assms by (simp add: main_tsx_def app_starts_def first_commit)
  moreover have "app_inv ?a"
    using app_inv_init unfolding app_starts_def first_commit by (simp add: app_inv_def ap_state_def)
  moreover have "phase (ap_state ?a) = PhIdle"
    by (simp add: app_starts_def first_commit ap_state_def) (simp add: App_def useDebate_def initialState_def Let_def)
  moreover have "su_enabled (ap_sound ?a) \<longrightarrow> br_storage b \<and> br_stored b = Some ''true''"
    unfolding app_starts_def first_commit
    by (simp add: sound_effect_def useSound_def on_engine_def setEnabled_def readStoredPreference_def Let_def)
  ultimately show ?thesis by (cases development) (simp_all add: strict_mode_leaves_no_trace)
qed

end
