(* ===== verification/Go_Library.thy ===== *)
theory Go_Library
  imports Protocol
begin

text \<open>
  What the backend uses of Go's standard library to take texts apart: \<open>strings.Split\<close> and
  \<open>TrimSpace\<close>, the lines of a \<open>bufio.Scanner\<close>, \<open>net.SplitHostPort\<close>, and which texts \<open>net.ParseIP\<close>
  takes for an address. A header or an address is a list of runes, as in \<open>Protocol\<close>; the body of a
  response is its bytes, a \<open>string\<close>.
\<close>

section \<open>Splitting\<close>

text \<open>\<open>strings.Split\<close> with a separator of one character: never the empty list.\<close>

fun go_split :: "'a \<Rightarrow> 'a list \<Rightarrow> 'a list list" where
  "go_split sep [] = [[]]"
| "go_split sep (c # s) =
    (if c = sep then [] # go_split sep s else (c # hd (go_split sep s)) # tl (go_split sep s))"

lemma go_split_not_Nil [simp]: "go_split sep s \<noteq> []"
  by (cases s) auto

lemma go_split_none: "sep \<notin> set s \<Longrightarrow> go_split sep s = [s]"
  by (induction s) auto

lemma go_split_append: "sep \<notin> set l \<Longrightarrow> go_split sep (l @ sep # s) = l # go_split sep s"
  by (induction l) auto

definition go_TrimSpace :: "nat list \<Rightarrow> nat list" where
  "go_TrimSpace s = trim_by go_is_space s"

definition runes :: "string \<Rightarrow> nat list" where
  "runes s = map of_char s"

section \<open>The lines of a scanner\<close>

text \<open>\<open>bufio.ScanLines\<close>: a line ends before \<open>\n\<close> or at the end of the input, and loses one \<open>\r\<close>; an
  empty rest is no line. A line that does not fit into the buffer of \<open>limit\<close> bytes, its \<open>\n\<close> included,
  ends the scan; the result says whether one did.\<close>

definition drop_cr :: "string \<Rightarrow> string" where
  "drop_cr l = (if l \<noteq> [] \<and> last l = CHR 0x0D then butlast l else l)"

definition scan_lines :: "nat \<Rightarrow> string \<Rightarrow> string list \<times> bool" where
  "scan_lines limit body =
    (let segs = go_split (CHR 0x0A) body;
         segs = (if last segs = [] then butlast segs else segs);
         fits = takeWhile (\<lambda>l. length l < limit) segs
     in (map drop_cr fits, length fits < length segs))"

lemma scan_lines_Nil: "scan_lines limit [] = ([], False)"
  by (simp add: scan_lines_def)

lemma scan_lines_line:
  assumes "CHR 0x0A \<notin> set l" "length l < limit"
  shows "scan_lines limit (l @ CHR 0x0A # body) =
    (drop_cr l # fst (scan_lines limit body), snd (scan_lines limit body))"
  using assms by (simp add: scan_lines_def go_split_append Let_def) linarith

section \<open>Addresses\<close>

text \<open>\<open>net.SplitHostPort\<close>, the host only.\<close>

definition SplitHostPort :: "nat list \<Rightarrow> nat list option" where
  "SplitHostPort s =
    (let colon = of_char (CHR '':''); open_bracket = of_char (CHR ''[''); close_bracket = of_char (CHR '']'');
         port = rev (takeWhile (\<lambda>c. c \<noteq> colon) (rev s));
         i = length s - length port - 1
     in if colon \<notin> set s then None
        else if hd s = open_bracket then
          (if close_bracket \<notin> set s then None
           else let close_at = length (takeWhile (\<lambda>c. c \<noteq> close_bracket) s) in
             if close_at + 1 \<noteq> i then None
             else if open_bracket \<in> set (drop 1 s) \<or> close_bracket \<in> set (drop (close_at + 1) s) then None
             else Some (take (close_at - 1) (drop 1 s)))
        else if colon \<in> set (take i s) then None
        else if open_bracket \<in> set s \<or> close_bracket \<in> set s then None
        else Some (take i s))"

text \<open>\<open>net.ParseIP\<close>, whether it gives an address. It reads four decimal numbers without leading zeros,
  or up to eight groups of hexadecimal digits, of which one \<open>::\<close> may stand for any, and the last two may
  be written as an IPv4 address; an address with a zone is refused.\<close>

definition is_digit :: "nat \<Rightarrow> bool" where
  "is_digit c \<longleftrightarrow> 48 \<le> c \<and> c \<le> 57"

definition is_hex :: "nat \<Rightarrow> bool" where
  "is_hex c \<longleftrightarrow> is_digit c \<or> (97 \<le> c \<and> c \<le> 102) \<or> (65 \<le> c \<and> c \<le> 70)"

definition decimal :: "nat list \<Rightarrow> nat" where
  "decimal s = foldl (\<lambda>v c. v * 10 + (c - 48)) 0 s"

definition is_octet :: "nat list \<Rightarrow> bool" where
  "is_octet s \<longleftrightarrow> s \<noteq> [] \<and> list_all is_digit s \<and> (length s > 1 \<longrightarrow> hd s \<noteq> 48) \<and> decimal s \<le> 255"

definition is_ipv4 :: "nat list \<Rightarrow> bool" where
  "is_ipv4 s \<longleftrightarrow> length (go_split (of_char (CHR ''.'')) s) = 4 \<and> list_all is_octet (go_split (of_char (CHR ''.'')) s)"

text \<open>The loop over the groups: whether there was a \<open>::\<close>, how many of the 16 bytes are read, the rest.\<close>

definition ipv6_complete :: "bool \<Rightarrow> nat \<Rightarrow> bool" where
  "ipv6_complete ellipsis i \<longleftrightarrow> (if i < 16 then ellipsis else \<not> ellipsis)"

function ipv6_groups :: "bool \<Rightarrow> nat \<Rightarrow> nat list \<Rightarrow> bool" where
  "ipv6_groups ellipsis i s =
    (if i \<ge> 16 then s = [] \<and> ipv6_complete ellipsis i
     else let digits = takeWhile is_hex s; rest = dropWhile is_hex s in
       if digits = [] \<or> length digits > 4 then False
       else case rest of
         [] \<Rightarrow> ipv6_complete ellipsis (i + 2)
       | c # s' \<Rightarrow>
           if c = of_char (CHR ''.'') then (ellipsis \<or> i = 12) \<and> i + 4 \<le> 16 \<and> is_ipv4 s \<and> ipv6_complete ellipsis (i + 4)
           else if c \<noteq> of_char (CHR '':'') \<or> s' = [] then False
           else if hd s' = of_char (CHR '':'') then
             \<not> ellipsis \<and> (if tl s' = [] then ipv6_complete True (i + 2) else ipv6_groups True (i + 2) (tl s'))
           else ipv6_groups ellipsis (i + 2) s')"
  by pat_completeness auto
termination
  by (relation "measure (\<lambda>(_, i, _). 16 - i)") auto

declare ipv6_groups.simps [simp del]

definition is_ipv6 :: "nat list \<Rightarrow> bool" where
  "is_ipv6 s \<longleftrightarrow> of_char (CHR ''%'') \<notin> set s \<and>
    (if take 2 s = runes ''::'' then drop 2 s = [] \<or> ipv6_groups True 0 (drop 2 s) else ipv6_groups False 0 s)"

definition ParseIP_ok :: "nat list \<Rightarrow> bool" where
  "ParseIP_ok s =
    (case dropWhile (\<lambda>c. c \<notin> set (runes ''.:%'')) s of
       [] \<Rightarrow> False
     | c # _ \<Rightarrow> if c = of_char (CHR ''.'') then is_ipv4 s else if c = of_char (CHR '':'') then is_ipv6 s else False)"

lemma ParseIP_Nil: "\<not> ParseIP_ok []"
  by (simp add: ParseIP_ok_def)

lemma ipv6_group_simps:
  "i < 16 \<Longrightarrow> ipv6_groups ellipsis i [] = False"
  "ipv6_groups ellipsis 16 s = (s = [] \<and> \<not> ellipsis)"
  by (subst ipv6_groups.simps; simp add: ipv6_complete_def)+

end
