(* ===== verification/Backend.thy ===== *)
theory Backend
  imports Playback
begin

text \<open>
  What one debate is on the backend: \<open>protocol/persona.go\<close>, \<open>provider/provider.go\<close> and
  \<open>orchestrator/\<close>. The panelists of a round stream concurrently, at most \<open>limit\<close> at a time, into
  one unbuffered channel, which the session (\<open>ws/session.go\<close>) empties onto the WebSocket. The debate
  is a step relation: one step is one goroutine of the pool starting, one \<open>emit\<close> and its outcome, or
  the client going away.

  Texts of Go, valid UTF-8, are the \<open>jstr\<close> of the same characters, as in the events of \<open>Protocol\<close>.
\<close>

section \<open>Personas\<close>

record go_persona =
  gp_Name :: jstr
  gp_ID :: string
  gp_SystemPrompt :: jstr

text \<open>The lines of a raw string.\<close>

definition go_lines :: "string list \<Rightarrow> jstr" where
  "go_lines ls = concat (map (\<lambda>l. js l @ [10]) ls)"

definition debateRules :: jstr where
  "debateRules = go_lines
    ['''', ''You are participating in a multi-agent debate.'', '''', ''Rules:'',
     ''- Do not simply repeat prior arguments.'',
     ''- Add new information or refine existing arguments.'',
     ''- Reference prior panelists where relevant.'',
     ''- Prefer concise, high-signal responses.'']"

definition DefaultPanel :: "go_persona list" where
  "DefaultPanel = [
    \<lparr>gp_Name = js ''The Skeptic'', gp_ID = ''skeptic'', gp_SystemPrompt = debateRules @ go_lines
    ['''', ''You are The Skeptic.'', '''', ''Role:'',
     ''Challenge assumptions and test the strength of arguments.'', '''', ''Behavior:'',
     ''- Identify weak reasoning, hidden assumptions, and missing evidence.'',
     ''- Ask whether conclusions actually follow from premises.'',
     ''- Highlight risks, edge cases, and uncertainty.'', ''- Attack ideas, not people.'', '''',
     ''Avoid:'', ''- Being contrarian for its own sake.'',
     ''- Rejecting ideas without justification.'', ''- Repeating previous objections.'', '''',
     ''Output style:'', ''Be concise and analytical.'', '''', ''State:'', ''1. Main challenge'',
     ''2. Weak assumptions'', ''3. Risks or failure modes'']\<rparr>,
    \<lparr>gp_Name = js ''The Optimist'', gp_ID = ''optimist'', gp_SystemPrompt = debateRules @ go_lines
    ['''', ''You are The Optimist.'', '''', ''Role:'',
     ''Find opportunities, upside, and paths to success.'', '''', ''Behavior:'',
     ''- Identify benefits and positive outcomes.'',
     ''- Look for leverage points and high-value opportunities.'',
     ''- Focus on what could work and why.'',
     ''- Suggest improvements that increase probability of success.'', '''', ''Avoid:'',
     ''- Blind positivity.'', ''- Ignoring legitimate risks.'', ''- Unrealistic assumptions.'',
     '''', ''Output style:'', ''Be concise and practical.'', '''', ''State:'',
     ''1. Main opportunity'', ''2. Why it could succeed'', ''3. Conditions required'']\<rparr>,
    \<lparr>gp_Name = js ''Domain Expert'', gp_ID = ''expert'', gp_SystemPrompt = debateRules @ go_lines
    ['''', ''You are the Domain Expert.'', '''', ''Role:'',
     ''Provide technically rigorous analysis using established knowledge and first principles.'',
     '''', ''Behavior:'', ''- Use expertise and reason from fundamentals.'',
     ''- Distinguish facts, estimates, and speculation.'',
     ''- Explain constraints and tradeoffs.'',
     ''- Correct inaccurate statements from other panelists.'', '''', ''Avoid:'',
     ''- Appeals to authority without reasoning.'', ''- Excessive jargon.'',
     ''- Presenting speculation as fact.'', '''', ''Output style:'',
     ''Be precise and structured.'', '''', ''State:'', ''1. Technical assessment'',
     ''2. Supporting evidence or reasoning'', ''3. Tradeoffs'']\<rparr>,
    \<lparr>gp_Name = js ''The Contrarian'', gp_ID = ''contrarian'', gp_SystemPrompt = debateRules @ go_lines
    ['''', ''You are The Contrarian.'', '''', ''Role:'',
     ''Explore perspectives the group may overlook.'', '''', ''Behavior:'',
     ''- Challenge dominant narratives.'',
     ''- Ask \"what if the opposite assumption is true?\"'',
     ''- Search for second-order effects.'', ''- Introduce alternative framings.'', '''',
     ''Avoid:'', ''- Disagreeing merely to disagree.'', ''- Unsupported claims.'',
     ''- Repeating Skeptic arguments.'', '''', ''Output style:'',
     ''Be concise and thought-provoking.'', '''', ''State:'', ''1. Alternative framing'',
     ''2. Why consensus could be wrong'', ''3. Overlooked effects'']\<rparr>]"

definition go_Moderator :: go_persona where
  "go_Moderator = \<lparr>gp_Name = js ''The Moderator'', gp_ID = ''moderator'', gp_SystemPrompt = go_lines
    ['''', ''You are The Moderator.'', '''', ''Role:'',
     ''Review ALL panel outputs and synthesize a final conclusion.'', '''', ''Rules:'',
     ''- Evaluate arguments, not personalities.'', ''- Do not introduce entirely new claims.'',
     ''- Weigh evidence quality, logic, and practicality.'',
     ''- Identify agreement and disagreement.'', ''- Resolve conflicts where possible.'',
     ''- Explicitly identify uncertainty.'', '''', ''Process:'',
     ''1. Summarize each panelist's strongest point.'', ''2. Identify areas of agreement.'',
     ''3. Identify areas of disagreement.'', ''4. Evaluate argument quality.'',
     ''5. Determine which arguments carry the most weight.'', ''6. Produce a final verdict.'',
     '''', ''Output format:'', '''', ''## Panel Summary'', ''- Skeptic:'', ''- Optimist:'',
     ''- Expert:'', ''- Contrarian:'', '''', ''## Agreements'', '''', ''## Disagreements'', '''',
     ''## Evidence Assessment'', '''', ''## Final Verdict'', '''', ''## Remaining Uncertainty'']\<rparr>"


section \<open>The provider's interface\<close>

datatype role = RoleSystem | RoleUser | RoleAssistant

record provider_message =
  pm_Role :: role
  pm_Message :: jstr

record provider_request =
  pr_SystemPrompt :: jstr
  pr_MessageHistory :: "provider_message list"
  pr_Model :: string

text \<open>An error of Go is its message.\<close>

record stream_event =
  sv_Delta :: jstr
  sv_Err :: "string option"

text \<open>What \<open>Stream\<close> returns: an error, or the events its channel will carry before it is closed.
  A language model does not answer the same request the same way twice, so a provider is a
  relation.\<close>

type_synonym provider_reply = "string + stream_event list"
type_synonym provider = "provider_request \<Rightarrow> provider_reply \<Rightarrow> bool"

section \<open>The backend's transcript\<close>

record persona_answer =
  pa_PersonaID :: string
  pa_Name :: jstr
  pa_Text :: jstr

record go_round =
  gr_Number :: nat
  gr_Answers :: "persona_answer list"

type_synonym go_transcript = "go_round list"

definition Append :: "go_transcript \<Rightarrow> go_round \<Rightarrow> go_transcript" where
  "Append t rnd = t @ [rnd]"

definition othersFor :: "go_transcript \<Rightarrow> string \<Rightarrow> persona_answer list" where
  "othersFor t personaID =
    (if t = [] then [] else filter (\<lambda>answer. pa_PersonaID answer \<noteq> personaID) (gr_Answers (last t)))"

definition ownLatest :: "go_transcript \<Rightarrow> string \<Rightarrow> persona_answer option" where
  "ownLatest t personaID =
    (if t = [] then None else List.find (\<lambda>answer. pa_PersonaID answer = personaID) (gr_Answers (last t)))"

definition renderAnswers :: "persona_answer list \<Rightarrow> jstr" where
  "renderAnswers answers =
    concat (map (\<lambda>a. if pa_Text a = [] then [] else js ''['' @ pa_Name a @ js '']: '' @ pa_Text a @ [10, 10]) answers)"

definition go_render :: "go_transcript \<Rightarrow> jstr" where
  "go_render t = concat (map (\<lambda>r. renderAnswers (gr_Answers r)) t)"

datatype round_kind = RoundStatement | RoundRebuttal

definition kindOfRound :: "nat \<Rightarrow> round_kind" where
  "kindOfRound n = (if n mod 2 = 1 then RoundStatement else RoundRebuttal)"

section \<open>Requests\<close>

record orchestrator =
  or_provider :: provider
  or_model :: string
  or_limit :: int

definition new_orchestrator :: "provider \<Rightarrow> string \<Rightarrow> int \<Rightarrow> orchestrator" where
  "new_orchestrator p model limit =
    \<lparr>or_provider = p, or_model = model, or_limit = (if limit \<le> 0 then 1 else limit)\<rparr>"

definition buildRequest :: "orchestrator \<Rightarrow> go_persona \<Rightarrow> go_transcript \<Rightarrow> nat \<Rightarrow> jstr \<Rightarrow> provider_request" where
  "buildRequest orch persona prior rnd question =
    (let msgs = [\<lparr>pm_Role = RoleUser, pm_Message = question\<rparr>];
         msgs = (if rnd > 1 then
           let msgs = (case ownLatest prior (gp_ID persona) of
                         None \<Rightarrow> msgs
                       | Some own \<Rightarrow> msgs @ [\<lparr>pm_Role = RoleAssistant, pm_Message = pa_Text own\<rparr>]);
               sysInstruction = (if kindOfRound rnd = RoundStatement
                 then js ''Having heard the others, sharpen and restate YOUR position.''
                 else js ''Directly rebut the other panelists' latest points below.'');
               otherMsgs = renderAnswers (othersFor prior (gp_ID persona))
           in msgs @ [\<lparr>pm_Role = RoleUser, pm_Message = sysInstruction @ [10, 10] @ otherMsgs\<rparr>]
         else msgs)
     in \<lparr>pr_SystemPrompt = gp_SystemPrompt persona, pr_MessageHistory = msgs, pr_Model = or_model orch\<rparr>)"

definition moderator_request :: "orchestrator \<Rightarrow> jstr \<Rightarrow> go_transcript \<Rightarrow> provider_request" where
  "moderator_request orch question t =
    \<lparr>pr_SystemPrompt = gp_SystemPrompt go_Moderator,
     pr_MessageHistory = [\<lparr>pm_Role = RoleUser, pm_Message = question @ [10, 10] @ go_render t\<rparr>],
     pr_Model = or_model orch\<rparr>"

section \<open>One call of a model\<close>

text \<open>A goroutine inside \<open>stream\<close>, which between two \<open>emit\<close>s only computes: what is left on the
  provider's channel (\<open>None\<close> when the stream did not start) and the text built so far.
  \<open>stream_emits\<close> is the event of the next \<open>emit\<close>; \<open>stream_resumes\<close> takes what that \<open>emit\<close> returned
  and gives the goroutine at its next one, or the text the call returns.\<close>

record stream_call =
  sc_persona :: go_persona
  sc_round :: nat
  sc_isModerator :: bool
  sc_stream :: "stream_event list option"
  sc_text :: jstr

definition stream_start :: "go_persona \<Rightarrow> nat \<Rightarrow> bool \<Rightarrow> provider_reply \<Rightarrow> stream_call" where
  "stream_start persona rnd asModerator reply =
    \<lparr>sc_persona = persona, sc_round = rnd, sc_isModerator = asModerator,
     sc_stream = (case reply of Inl _ \<Rightarrow> None | Inr evs \<Rightarrow> Some evs), sc_text = []\<rparr>"

definition stream_emits :: "stream_call \<Rightarrow> go_event" where
  "stream_emits c =
    (case sc_stream c of
       None \<Rightarrow> go_Error (gp_ID (sc_persona c)) (js ''stream failed'')
     | Some [] \<Rightarrow> if sc_isModerator c then go_Verdict (sc_text c)
                 else go_PersonaDone (gp_ID (sc_persona c)) (sc_round c)
     | Some (ev # _) \<Rightarrow>
         if sv_Err ev \<noteq> None then go_Error (gp_ID (sc_persona c)) (js ''stream failed'')
         else go_Token (gp_ID (sc_persona c)) (sc_round c) (sv_Delta ev))"

definition stream_resumes :: "bool \<Rightarrow> stream_call \<Rightarrow> stream_call + jstr" where
  "stream_resumes emitted c =
    (case sc_stream c of
       None \<Rightarrow> Inr []
     | Some [] \<Rightarrow> Inr (sc_text c)
     | Some (ev # evs) \<Rightarrow>
         if sv_Err ev \<noteq> None then Inr (sc_text c)
         else let b = sc_text c @ sv_Delta ev
              in if emitted then Inl (c\<lparr>sc_stream := Some evs, sc_text := b\<rparr>) else Inr b)"

section \<open>A debate\<close>

text \<open>A round: the iterations of the loop still to come, the goroutines of the pool with the index
  each writes its answer to, and the answers.\<close>

record round_run =
  rr_waiting :: "(nat \<times> go_persona) list"
  rr_running :: "(nat \<times> stream_call) list"
  rr_answers :: "persona_answer list"

definition start_round :: "go_persona list \<Rightarrow> round_run" where
  "start_round personas =
    \<lparr>rr_waiting = enumerate 0 personas, rr_running = [],
     rr_answers = replicate (length personas) \<lparr>pa_PersonaID = '''', pa_Name = [], pa_Text = []\<rparr>\<rparr>"

definition resume_panelist :: "nat \<Rightarrow> bool \<Rightarrow> round_run \<Rightarrow> round_run" where
  "resume_panelist j emitted R =
    (case rr_running R ! j of (i, c) \<Rightarrow>
      (case stream_resumes emitted c of
         Inl c' \<Rightarrow> R\<lparr>rr_running := (rr_running R)[j := (i, c')]\<rparr>
       | Inr answer \<Rightarrow> R\<lparr>rr_running := take j (rr_running R) @ drop (Suc j) (rr_running R),
           rr_answers := (rr_answers R)[i :=
             \<lparr>pa_PersonaID = gp_ID (sc_persona c), pa_Name = gp_Name (sc_persona c), pa_Text = answer\<rparr>]\<rparr>))"

text \<open>Where \<open>Run\<close> is: in \<open>runRound\<close>, about to emit the end of a round, calling the moderator, in its
  call, or returned.\<close>

datatype orch_point =
    InRound nat round_run
  | EndRound nat
  | Convening
  | InModerator stream_call
  | Returned

text \<open>\<open>oc_done\<close> is \<open>ctx.Done()\<close>, \<open>oc_listening\<close> that the session's loop still receives, and \<open>oc_wire\<close>
  what it has written.\<close>

record orchestration =
  oc_point :: orch_point
  oc_transcript :: go_transcript
  oc_done :: bool
  oc_listening :: bool
  oc_wire :: "go_event list"

definition next_round :: "go_persona list \<Rightarrow> nat \<Rightarrow> nat \<Rightarrow> orch_point" where
  "next_round personas n rnd = (if rnd \<le> n then InRound rnd (start_round personas) else Convening)"

definition Run :: "go_persona list \<Rightarrow> nat \<Rightarrow> orchestration" where
  "Run personas n =
    \<lparr>oc_point = next_round personas n 1, oc_transcript = [], oc_done = False, oc_listening = True, oc_wire = []\<rparr>"

text \<open>What becomes of an \<open>emit\<close>: the session receives the event and writes it; it receives it and
  cannot write it, upon which it cancels and returns; or the \<open>select\<close> takes \<open>ctx.Done()\<close>, which it may
  even when the session would receive. The result holds what \<open>emit\<close> returns.\<close>

datatype delivery = Written | WriteFailed | Refused

fun emit :: "delivery \<Rightarrow> go_event \<Rightarrow> orchestration \<Rightarrow> (orchestration \<times> bool) option" where
  "emit Written ev s = (if oc_listening s then Some (s\<lparr>oc_wire := oc_wire s @ [ev]\<rparr>, True) else None)"
| "emit WriteFailed ev s = (if oc_listening s then Some (s\<lparr>oc_listening := False, oc_done := True\<rparr>, True) else None)"
| "emit Refused ev s = (if oc_done s then Some (s, False) else None)"

inductive run_step :: "orchestrator \<Rightarrow> jstr \<Rightarrow> go_persona list \<Rightarrow> nat \<Rightarrow> orchestration \<Rightarrow> orchestration \<Rightarrow> bool"
  for orch question personas n where
  starts: "oc_point s = InRound rnd R \<Longrightarrow> rr_waiting R = (i, p) # ws \<Longrightarrow> int (length (rr_running R)) < or_limit orch \<Longrightarrow>
    or_provider orch (buildRequest orch p (oc_transcript s) rnd question) reply \<Longrightarrow>
    run_step orch question personas n s
      (s\<lparr>oc_point := InRound rnd (R\<lparr>rr_waiting := ws,
           rr_running := rr_running R @ [(i, stream_start p rnd False reply)]\<rparr>)\<rparr>)"
| speaks: "oc_point s = InRound rnd R \<Longrightarrow> j < length (rr_running R) \<Longrightarrow>
    emit d (stream_emits (snd (rr_running R ! j))) s = Some (s', emitted) \<Longrightarrow>
    run_step orch question personas n s (s'\<lparr>oc_point := InRound rnd (resume_panelist j emitted R)\<rparr>)"
| waits: "oc_point s = InRound rnd R \<Longrightarrow> rr_waiting R = [] \<Longrightarrow> rr_running R = [] \<Longrightarrow>
    run_step orch question personas n s
      (s\<lparr>oc_point := EndRound rnd,
         oc_transcript := Append (oc_transcript s) \<lparr>gr_Number = rnd, gr_Answers = rr_answers R\<rparr>\<rparr>)"
| completes: "oc_point s = EndRound rnd \<Longrightarrow> emit d (go_RoundComplete rnd) s = Some (s', emitted) \<Longrightarrow>
    run_step orch question personas n s
      (s'\<lparr>oc_point := (if emitted then next_round personas n (rnd + 1) else Returned)\<rparr>)"
| convenes: "oc_point s = Convening \<Longrightarrow>
    or_provider orch (moderator_request orch question (oc_transcript s)) reply \<Longrightarrow>
    run_step orch question personas n s
      (s\<lparr>oc_point := InModerator (stream_start go_Moderator (n + 1) True reply)\<rparr>)"
| judges: "oc_point s = InModerator c \<Longrightarrow> emit d (stream_emits c) s = Some (s', emitted) \<Longrightarrow>
    run_step orch question personas n s
      (s'\<lparr>oc_point := (case stream_resumes emitted c of Inl c' \<Rightarrow> InModerator c' | Inr _ \<Rightarrow> Returned)\<rparr>)"
| cancels: "\<not> oc_done s \<Longrightarrow> run_step orch question personas n s (s\<lparr>oc_done := True\<rparr>)"

text \<open>\<open>HandleSession\<close> once it has read the client's message: an invalid one is answered with one
  error; otherwise the debate runs, with two rounds when the message names none.\<close>

definition go_text :: "nat list \<Rightarrow> jstr" where
  "go_text rs = concat (map (\<lambda>c. if c < 0x10000 then [word_of_nat c]
     else [word_of_nat (0xD800 + (c - 0x10000) div 0x400), word_of_nat (0xDC00 + (c - 0x10000) mod 0x400)]) rs)"

definition HandleSession :: "go_client_message \<Rightarrow> go_persona list \<Rightarrow> go_event list + (jstr \<times> nat \<times> orchestration)" where
  "HandleSession msg personas =
    (if go_Validate msg \<noteq> None then Inl [go_Error '''' (js ''invalid request'')]
     else let n = (if cm_rounds msg = 0 then 2 else nat (cm_rounds msg))
          in Inr (go_text (cm_question msg), n, Run personas n))"

end
