(* ===== verification/Backend_Debate.thy ===== *)
theory Backend_Debate
  imports Backend
begin

text \<open>
  What a debate of the backend sends. However the goroutines of a round interleave, and wherever
  the client goes away, the stream is in the order the frontend's player needs; an undisturbed
  debate ends, with every answer on the wire word by word; and what a panelist or the moderator is
  told of the debate is what was sent of it.
\<close>

section \<open>Panels\<close>

definition panel_ok :: "go_persona list \<Rightarrow> bool" where
  "panel_ok ps \<longleftrightarrow> distinct (map gp_ID ps) \<and> (\<forall>p\<in>set ps. \<exists>q. q \<noteq> Moderator \<and> gp_ID p = persona_name q)"

lemma panel_ids: "map gp_ID DefaultPanel = map persona_name PANELISTS"
  by (simp add: DefaultPanel_def PANELISTS_def)

lemma length_panel: "length DefaultPanel = 4"
  by (simp add: DefaultPanel_def)

lemma panel_ok_default: "panel_ok DefaultPanel"
proof -
  have "distinct (map gp_ID DefaultPanel)" by (simp add: panel_ids PANELISTS_def)
  moreover have "gp_ID p \<in> persona_name ` set PANELISTS" if "p \<in> set DefaultPanel" for p
    using arg_cong [OF panel_ids, of set] that by (auto simp: set_map)
  ultimately show ?thesis unfolding panel_ok_def by (fastforce simp: set_PANELISTS)
qed

lemma moderator_id [simp]: "gp_ID go_Moderator = persona_name Moderator"
  by (simp add: go_Moderator_def)

lemma panel_not_moderator: "panel_ok ps \<Longrightarrow> p \<in> set ps \<Longrightarrow> gp_ID p \<noteq> persona_name Moderator"
  by (auto simp: panel_ok_def) (metis persona_name.simps(5) persona_name_inj)

section \<open>Runs\<close>

abbreviation debates ::
    "orchestrator \<Rightarrow> jstr \<Rightarrow> go_persona list \<Rightarrow> nat \<Rightarrow> orchestration \<Rightarrow> orchestration \<Rightarrow> bool" where
  "debates orch question ps n \<equiv> (run_step orch question ps n)\<^sup>*\<^sup>*"

inductive_cases run_stepE: "run_step orch question ps n s t"

lemmas run_step_cases = run_stepE [consumes 1, case_names starts speaks waits completes convenes judges cancels]

lemma emit_cases [consumes 1, case_names Written WriteFailed Refused]:
  assumes "emit d ev s = Some (s', emitted)"
  obtains "oc_listening s" "s' = s\<lparr>oc_wire := oc_wire s @ [ev]\<rparr>" emitted
    | "oc_listening s" "s' = s\<lparr>oc_listening := False, oc_done := True\<rparr>" emitted
    | "oc_done s" "s' = s" "\<not> emitted"
proof (cases d)
  case Written
  with assms show thesis by (intro that(1)) (auto split: if_splits)
next
  case WriteFailed
  with assms show thesis by (intro that(2)) (auto split: if_splits)
next
  case Refused
  with assms show thesis by (intro that(3)) (auto split: if_splits)
qed

section \<open>The order of the stream\<close>

definition stream_after :: "debate_event list \<Rightarrow> stream_state" where
  "stream_after es = foldl stream_next ({}, False, False) (map Feed es)"

lemma in_order_append: "in_order st (cs @ ds) \<longleftrightarrow> in_order st cs \<and> in_order (foldl stream_next st cs) ds"
  by (induction cs arbitrary: st) auto

definition panel_call :: "go_persona list \<Rightarrow> nat \<Rightarrow> stream_call \<Rightarrow> bool" where
  "panel_call ps r c \<longleftrightarrow> sc_persona c \<in> set ps \<and> sc_round c = r \<and> \<not> sc_isModerator c"

definition moderator_call :: "nat \<Rightarrow> stream_call \<Rightarrow> bool" where
  "moderator_call n c \<longleftrightarrow> sc_persona c = go_Moderator \<and> sc_round c = n + 1 \<and> sc_isModerator c"

text \<open>Where the run can be, and what the stream must have come to there.\<close>

fun point_ok :: "go_persona list \<Rightarrow> nat \<Rightarrow> orch_point \<Rightarrow> bool" where
  "point_ok ps n (InRound r R) = (1 \<le> r \<and> r \<le> n \<and> snd ` set (rr_waiting R) \<subseteq> set ps
     \<and> (\<forall>c\<in>snd ` set (rr_running R). panel_call ps r c))"
| "point_ok ps n (EndRound r) = (1 \<le> r \<and> r \<le> n)"
| "point_ok ps n Convening = True"
| "point_ok ps n (InModerator c) = moderator_call n c"
| "point_ok ps n Returned = True"

fun stream_at :: "nat \<Rightarrow> orch_point \<Rightarrow> stream_state \<Rightarrow> bool" where
  "stream_at n (InRound r R) st = (st = ({1..<r}, False, False))"
| "stream_at n (EndRound r) st = (st = ({1..<r}, False, False))"
| "stream_at n Convening st = (st = ({1..<Suc n}, False, False))"
| "stream_at n (InModerator c) st = (st = ({1..<Suc n}, False, False))"
| "stream_at n Returned st = True"

definition order_inv :: "go_persona list \<Rightarrow> nat \<Rightarrow> orchestration \<Rightarrow> bool" where
  "order_inv ps n s \<longleftrightarrow> point_ok ps n (oc_point s) \<and> (oc_listening s \<or> oc_done s)
     \<and> (\<exists>es. oc_wire s = map go_of_event es \<and> list_all wf_event es \<and> in_order ({}, False, False) (map Feed es)
          \<and> (oc_listening s \<longrightarrow> stream_at n (oc_point s) (stream_after es)))"

lemma panel_event:
  assumes "panel_ok ps" "panel_call ps r c" "1 \<le> r" "r \<le> MAX_WIRE_ROUND"
  obtains e where "stream_emits c = go_of_event e" "wf_event e" "\<And>rs t v. r \<notin> rs \<Longrightarrow> call_in_order (rs, t, v) (Feed e)"
    "\<And>st. stream_next st (Feed e) = st"
proof -
  from assms(1,2) obtain q where q: "q \<noteq> Moderator" "gp_ID (sc_persona c) = persona_name q"
    by (auto simp: panel_ok_def panel_call_def)
  let ?e = "case sc_stream c of
      None \<Rightarrow> ErrorEvent \<lparr>ee_persona = Some q, ee_error = js ''stream failed''\<rparr>
    | Some [] \<Rightarrow> PersonaDoneEvent q r
    | Some (ev # _) \<Rightarrow> if sv_Err ev \<noteq> None then ErrorEvent \<lparr>ee_persona = Some q, ee_error = js ''stream failed''\<rparr>
        else TokenEvent q r (sv_Delta ev)"
  have "stream_emits c = go_of_event ?e"
    using assms(2) q(2) by (simp add: stream_emits_def panel_call_def split: option.split list.split)
  moreover have "wf_event ?e" using assms(3,4) by (simp split: option.split list.split)
  moreover have "call_in_order (rs, t, v) (Feed ?e)" if "r \<notin> rs" for rs t v
    using that q(1) by (simp split: option.split list.split)
  moreover have "stream_next st (Feed ?e) = st" for st
    using q(1) by (cases st) (simp split: option.split list.split)
  ultimately show thesis by (rule that)
qed

lemma moderator_event:
  assumes "moderator_call n c" "n + 1 \<le> MAX_WIRE_ROUND"
  obtains e where "stream_emits c = go_of_event e" "wf_event e" "\<And>rs. call_in_order (rs, False, False) (Feed e)"
    "\<And>c' st. stream_resumes True c = Inl c' \<Longrightarrow> stream_next st (Feed e) = st"
proof -
  let ?err = "ErrorEvent \<lparr>ee_persona = Some Moderator, ee_error = js ''stream failed''\<rparr>"
  let ?e = "case sc_stream c of
      None \<Rightarrow> ?err
    | Some [] \<Rightarrow> VerdictEvent (sc_text c)
    | Some (ev # _) \<Rightarrow> if sv_Err ev \<noteq> None then ?err else TokenEvent Moderator (n + 1) (sv_Delta ev)"
  have "stream_emits c = go_of_event ?e"
    using assms(1) by (simp add: stream_emits_def moderator_call_def split: option.split list.split)
  moreover have "wf_event ?e" using assms(2) by (simp split: option.split list.split)
  moreover have "call_in_order (rs, False, False) (Feed ?e)" for rs
    by (simp split: option.split list.split)
  moreover have "stream_next st (Feed ?e) = st" if "stream_resumes True c = Inl c'" for c' st
    using that by (cases st) (auto simp: stream_resumes_def split: option.splits list.splits if_splits)
  ultimately show thesis by (rule that)
qed

lemma panel_call_resumes: "panel_call ps r c \<Longrightarrow> stream_resumes b c = Inl c' \<Longrightarrow> panel_call ps r c'"
  by (auto simp: stream_resumes_def panel_call_def Let_def split: option.splits list.splits if_splits)

lemma moderator_call_resumes: "moderator_call n c \<Longrightarrow> stream_resumes b c = Inl c' \<Longrightarrow> moderator_call n c'"
  by (auto simp: stream_resumes_def moderator_call_def Let_def split: option.splits list.splits if_splits)

lemma point_ok_resume:
  assumes "point_ok ps n (InRound r R)" "j < length (rr_running R)"
  shows "point_ok ps n (InRound r (resume_panelist j b R))"
proof -
  obtain i c where ic: "rr_running R ! j = (i, c)" by (cases "rr_running R ! j")
  with assms have c: "panel_call ps r c" by (fastforce dest: nth_mem)
  show ?thesis
  proof (cases "stream_resumes b c")
    case (Inl c')
    with panel_call_resumes [OF c Inl] assms ic show ?thesis
      by (fastforce simp: resume_panelist_def dest!: set_update_subset_insert [THEN subsetD])
  next
    case (Inr x)
    with assms ic show ?thesis
      by (fastforce simp: resume_panelist_def dest: in_set_takeD in_set_dropD)
  qed
qed

text \<open>One event more on the wire.\<close>

lemma order_inv_emit:
  assumes inv: "order_inv ps n s" and em: "emit d (go_of_event e) s = Some (s', b)" and wf: "wf_event e"
    and okp: "point_ok ps n pt"
    and next_ok: "\<And>st. stream_at n (oc_point s) st \<Longrightarrow> call_in_order st (Feed e) \<and> (b \<longrightarrow> stream_at n pt (stream_next st (Feed e)))"
    and refused: "\<not> b \<Longrightarrow> \<forall>st. stream_at n (oc_point s) st \<longrightarrow> stream_at n pt st"
  shows "order_inv ps n (s'\<lparr>oc_point := pt\<rparr>)"
proof -
  from inv obtain es where es: "oc_wire s = map go_of_event es" "list_all wf_event es"
    "in_order ({}, False, False) (map Feed es)" "oc_listening s \<longrightarrow> stream_at n (oc_point s) (stream_after es)"
    and live: "oc_listening s \<or> oc_done s" by (auto simp: order_inv_def)
  from em show ?thesis
  proof (cases rule: emit_cases)
    case Written
    from Written(1) es(4) next_ok [of "stream_after es"] Written(3)
    have "call_in_order (stream_after es) (Feed e)" "stream_at n pt (stream_after (es @ [e]))"
      by (simp_all add: stream_after_def)
    with Written es okp live wf show ?thesis
      by (auto simp: order_inv_def in_order_append stream_after_def intro!: exI [of _ "es @ [e]"])
  next
    case WriteFailed
    with es okp show ?thesis by (auto simp: order_inv_def)
  next
    case Refused
    with refused es(4) have "oc_listening s \<longrightarrow> stream_at n pt (stream_after es)" by blast
    with Refused es okp live show ?thesis by (auto simp: order_inv_def intro!: exI [of _ es])
  qed
qed

lemma order_inv_silent:
  assumes "order_inv ps n s" "point_ok ps n pt"
    and "\<And>st. stream_at n (oc_point s) st \<Longrightarrow> stream_at n pt st"
  shows "order_inv ps n (s\<lparr>oc_point := pt, oc_transcript := t\<rparr>)"
proof -
  from assms(1) obtain es where "oc_wire s = map go_of_event es" "list_all wf_event es"
    "in_order ({}, False, False) (map Feed es)" "oc_listening s \<longrightarrow> stream_at n (oc_point s) (stream_after es)"
    "oc_listening s \<or> oc_done s" by (auto simp: order_inv_def)
  with assms(2) assms(3) [of "stream_after es"] show ?thesis
    by (auto simp: order_inv_def intro!: exI [of _ es])
qed

lemma order_inv_step:
  assumes panel: "panel_ok ps" and n: "n \<le> MAX_ROUNDS"
    and inv: "order_inv ps n s" and step: "run_step orch question ps n s t"
  shows "order_inv ps n t"
  using step
proof (cases rule: run_step_cases)
  case (starts r R i p ws reply)
  with order_inv_silent [OF inv, of "InRound r (R\<lparr>rr_waiting := ws, rr_running := rr_running R @ [(i, stream_start p r False reply)]\<rparr>)"
      "oc_transcript s"] inv
  show ?thesis by (auto simp: order_inv_def panel_call_def stream_start_def)
next
  case (speaks r R j d s' b)
  from inv speaks have ok: "point_ok ps n (InRound r R)" by (simp add: order_inv_def)
  then have r: "1 \<le> r" "r \<le> n" by simp_all
  from ok speaks(3) have "panel_call ps r (snd (rr_running R ! j))" by simp
  from panel_event [OF panel this r(1)] r(2) n obtain e where
    e: "stream_emits (snd (rr_running R ! j)) = go_of_event e" "wf_event e"
    "\<And>rs t v. r \<notin> rs \<Longrightarrow> call_in_order (rs, t, v) (Feed e)" "\<And>st. stream_next st (Feed e) = st"
    by (auto simp: MAX_WIRE_ROUND_def)
  show ?thesis unfolding speaks(1)
    by (rule order_inv_emit [OF inv speaks(4) [unfolded e(1)] e(2) point_ok_resume [OF ok speaks(3)]])
      (auto simp: speaks(2) e(3,4))
next
  case (waits r R)
  with order_inv_silent [OF inv, of "EndRound r"] inv show ?thesis by (auto simp: order_inv_def)
next
  case (completes r d s' b)
  have e: "go_RoundComplete r = go_of_event (RoundCompleteEvent r)" by simp
  from inv completes n have r: "1 \<le> r" "r \<le> n" "wf_event (RoundCompleteEvent r)"
    by (simp_all add: order_inv_def MAX_WIRE_ROUND_def)
  show ?thesis unfolding completes(1)
  proof (rule order_inv_emit [OF inv completes(3) [unfolded e] r(3)])
    show "point_ok ps n (if b then next_round ps n (r + 1) else Returned)"
      using r by (auto simp: next_round_def start_round_def in_set_enumerate_eq)
  qed (use r in \<open>auto simp: completes(2) next_round_def atLeastLessThanSuc le_Suc_eq\<close>)
next
  case (convenes reply)
  with order_inv_silent [OF inv, of "InModerator (stream_start go_Moderator (n + 1) True reply)" "oc_transcript s"]
  show ?thesis by (auto simp: moderator_call_def stream_start_def)
next
  case (judges c d s' b)
  from inv judges have c: "moderator_call n c" by (simp add: order_inv_def)
  from moderator_event [OF c] n obtain e where e: "stream_emits c = go_of_event e" "wf_event e"
    "\<And>rs. call_in_order (rs, False, False) (Feed e)"
    "\<And>c' st. stream_resumes True c = Inl c' \<Longrightarrow> stream_next st (Feed e) = st"
    by (auto simp: MAX_WIRE_ROUND_def)
  show ?thesis unfolding judges(1)
    by (rule order_inv_emit [OF inv judges(3) [unfolded e(1)] e(2)])
      (auto simp: judges(2) e(3,4) moderator_call_resumes [OF c] split: sum.split)
next
  case cancels
  with inv show ?thesis by (auto simp: order_inv_def)
qed

lemma order_inv_Run: "panel_ok ps \<Longrightarrow> order_inv ps n (Run ps n)"
  by (auto simp: order_inv_def Run_def next_round_def start_round_def stream_after_def in_set_enumerate_eq
      intro!: exI [of _ "[]"])

section \<open>Every word on the wire\<close>

text \<open>What a persona said in a round, as the wire has it, and the answers a round then has.\<close>

definition said :: "string \<Rightarrow> nat \<Rightarrow> go_event list \<Rightarrow> jstr" where
  "said who k w = concat (map ge_delta (filter (\<lambda>e. ge_type e = ''token'' \<and> ge_persona e = who \<and> ge_round e = k) w))"

definition answer_heard :: "go_event list \<Rightarrow> nat \<Rightarrow> go_persona \<Rightarrow> persona_answer" where
  "answer_heard w k p = \<lparr>pa_PersonaID = gp_ID p, pa_Name = gp_Name p, pa_Text = said (gp_ID p) k w\<rparr>"

definition heard :: "go_persona list \<Rightarrow> go_event list \<Rightarrow> nat \<Rightarrow> go_round" where
  "heard ps w k = \<lparr>gr_Number = k, gr_Answers = map (answer_heard w k) ps\<rparr>"

lemma said_Nil [simp]: "said who k [] = []"
  by (simp add: said_def)

lemma said_append:
  "said who k (w @ [e]) =
    said who k w @ (if ge_type e = ''token'' \<and> ge_persona e = who \<and> ge_round e = k then ge_delta e else [])"
  by (simp add: said_def)

lemmas go_constructors = go_Token_def go_PersonaDone_def go_RoundComplete_def go_Error_def go_Verdict_def go_blank_def

lemma said_round_complete [simp]: "said who k (w @ [go_RoundComplete r]) = said who k w"
  by (simp add: said_append go_constructors)

definition call_heard :: "go_persona \<Rightarrow> nat \<Rightarrow> bool \<Rightarrow> stream_call \<Rightarrow> go_event list \<Rightarrow> bool" where
  "call_heard p r m c w \<longleftrightarrow> sc_persona c = p \<and> sc_round c = r \<and> sc_isModerator c = m
     \<and> said (gp_ID p) r w = sc_text c \<and> (sc_stream c = None \<longrightarrow> sc_text c = [])"

lemma call_heard_start: "said (gp_ID p) r w = [] \<Longrightarrow> call_heard p r m (stream_start p r m reply) w"
  by (simp add: call_heard_def stream_start_def)

lemma call_heard_goes:
  assumes "call_heard p r m c w" "stream_resumes True c = Inl c'"
  shows "call_heard p r m c' (w @ [stream_emits c])"
  using assms by (auto simp: call_heard_def stream_resumes_def stream_emits_def said_append go_constructors Let_def
      split: option.splits list.splits if_splits)

lemma call_heard_returns:
  assumes "call_heard p r m c w" "stream_resumes True c = Inr x"
  shows "said (gp_ID p) r (w @ [stream_emits c]) = x"
  using assms by (auto simp: call_heard_def stream_resumes_def stream_emits_def said_append go_constructors Let_def
      split: option.splits list.splits if_splits)

lemma call_heard_other:
  assumes "call_heard p r m c w" "who = gp_ID p \<Longrightarrow> k \<noteq> r"
  shows "said who k (w @ [stream_emits c]) = said who k w"
  using assms by (auto simp: call_heard_def stream_emits_def said_append go_constructors
      split: option.splits list.splits if_splits)

definition round_heard :: "go_persona list \<Rightarrow> nat \<Rightarrow> round_run \<Rightarrow> go_event list \<Rightarrow> bool" where
  "round_heard ps r R w \<longleftrightarrow> length (rr_answers R) = length ps
     \<and> distinct (map fst (rr_waiting R) @ map fst (rr_running R))
     \<and> (\<forall>i p. (i, p) \<in> set (rr_waiting R) \<longrightarrow> i < length ps \<and> ps ! i = p \<and> said (gp_ID p) r w = [])
     \<and> (\<forall>i c. (i, c) \<in> set (rr_running R) \<longrightarrow> i < length ps \<and> call_heard (ps ! i) r False c w)
     \<and> (\<forall>i < length ps. i \<notin> fst ` set (rr_waiting R) \<longrightarrow> i \<notin> fst ` set (rr_running R) \<longrightarrow>
          rr_answers R ! i = answer_heard w r (ps ! i))"

lemma round_heardI:
  assumes "length (rr_answers R) = length ps" "distinct (map fst (rr_waiting R) @ map fst (rr_running R))"
    and "\<And>i p. (i, p) \<in> set (rr_waiting R) \<Longrightarrow> i < length ps \<and> ps ! i = p \<and> said (gp_ID p) r w = []"
    and "\<And>i c. (i, c) \<in> set (rr_running R) \<Longrightarrow> i < length ps \<and> call_heard (ps ! i) r False c w"
    and "\<And>i. i < length ps \<Longrightarrow> i \<notin> fst ` set (rr_waiting R) \<Longrightarrow> i \<notin> fst ` set (rr_running R) \<Longrightarrow>
          rr_answers R ! i = answer_heard w r (ps ! i)"
  shows "round_heard ps r R w"
  using assms unfolding round_heard_def by blast

lemma round_heard_start:
  assumes "\<And>who. said who r w = []"
  shows "round_heard ps r (start_round ps) w"
  using assms by (auto simp: round_heard_def start_round_def in_set_enumerate_eq)
    (metis add_0 atLeastLessThan_iff less_eq_nat.simps(1) list.set_map map_fst_enumerate set_upt)

lemma round_heard_starts:
  assumes "round_heard ps r R w" "rr_waiting R = (i, p) # ws"
  shows "round_heard ps r (R\<lparr>rr_waiting := ws, rr_running := rr_running R @ [(i, stream_start p r False reply)]\<rparr>) w"
  using assms by (auto simp: round_heard_def call_heard_start)

lemma ids_differ:
  assumes "panel_ok ps" "i < length ps" "j < length ps" "i \<noteq> j"
  shows "gp_ID (ps ! i) \<noteq> gp_ID (ps ! j)"
  using assms nth_eq_iff_index_eq [of "map gp_ID ps" i j] by (simp add: panel_ok_def)

lemma round_heard_resume:
  assumes panel: "panel_ok ps" and R: "round_heard ps r R w" and j: "j < length (rr_running R)"
    and c: "snd (rr_running R ! j) = c"
  shows "round_heard ps r (resume_panelist j True R) (w @ [stream_emits c])"
proof -
  obtain i xs ys where run: "rr_running R = xs @ (i, c) # ys" "length xs = j"
    using id_take_nth_drop [OF j] j c by (cases "rr_running R ! j") fastforce
  from R run have i: "i < length ps" "call_heard (ps ! i) r False c w"
    and own: "i \<notin> fst ` set (rr_waiting R)" "i \<notin> fst ` set xs" "i \<notin> fst ` set ys"
    by (auto simp: round_heard_def)
  have other: "said (gp_ID (ps ! k)) r (w @ [stream_emits c]) = said (gp_ID (ps ! k)) r w" if "k < length ps" "k \<noteq> i" for k
    using call_heard_other [OF i(2)] ids_differ [OF panel that(1) i(1) that(2)] by simp
  have waits: "said (gp_ID p) r (w @ [stream_emits c]) = []" if "(k, p) \<in> set (rr_waiting R)" for k p
  proof -
    from R that have "k < length ps" "ps ! k = p" "said (gp_ID p) r w = []" by (auto simp: round_heard_def)
    moreover from own(1) that have "k \<noteq> i" by force
    ultimately show ?thesis using other [of k] by simp
  qed
  have runs: "call_heard (ps ! k) r False c' (w @ [stream_emits c])" if "(k, c') \<in> set xs \<union> set ys" for k c'
  proof -
    from R run that have "k < length ps" "call_heard (ps ! k) r False c' w" by (auto simp: round_heard_def)
    moreover from own(2,3) that have "k \<noteq> i" by force
    ultimately show ?thesis using other by (simp add: call_heard_def)
  qed
  have ended: "rr_answers R ! k = answer_heard (w @ [stream_emits c]) r (ps ! k)"
    if "k < length ps" "k \<noteq> i" "k \<notin> fst ` set (rr_waiting R)" "k \<notin> fst ` set (rr_running R)" for k
    using R other [OF that(1,2)] that by (simp add: round_heard_def answer_heard_def)
  show ?thesis
  proof (cases "stream_resumes True c")
    case (Inl c')
    have new: "resume_panelist j True R = R\<lparr>rr_running := xs @ (i, c') # ys\<rparr>"
      using run Inl by (auto simp: resume_panelist_def nth_append list_update_append)
    note goes = call_heard_goes [OF i(2) Inl]
    show ?thesis unfolding new
    proof (rule round_heardI)
      fix k d assume "(k, d) \<in> set (rr_running (R\<lparr>rr_running := xs @ (i, c') # ys\<rparr>))"
      then show "k < length ps \<and> call_heard (ps ! k) r False d (w @ [stream_emits c])"
        using goes i(1) runs R run by (auto simp: round_heard_def)
    next
      fix k assume "k < length ps" "k \<notin> fst ` set (rr_waiting (R\<lparr>rr_running := xs @ (i, c') # ys\<rparr>))"
        "k \<notin> fst ` set (rr_running (R\<lparr>rr_running := xs @ (i, c') # ys\<rparr>))"
      with ended [of k] run show "rr_answers (R\<lparr>rr_running := xs @ (i, c') # ys\<rparr>) ! k
          = answer_heard (w @ [stream_emits c]) r (ps ! k)" by simp
    qed (use R run waits in \<open>auto simp: round_heard_def\<close>)
  next
    case (Inr x)
    let ?R = "R\<lparr>rr_running := xs @ ys,
        rr_answers := (rr_answers R)[i := answer_heard (w @ [stream_emits c]) r (ps ! i)]\<rparr>"
    have new: "resume_panelist j True R = ?R"
      using run Inr i(2) call_heard_returns [OF i(2) Inr]
      by (simp add: resume_panelist_def nth_append answer_heard_def call_heard_def)
    show ?thesis unfolding new
    proof (rule round_heardI)
      fix k d assume "(k, d) \<in> set (rr_running ?R)"
      then show "k < length ps \<and> call_heard (ps ! k) r False d (w @ [stream_emits c])"
        using runs R run by (auto simp: round_heard_def)
    next
      fix k assume "k < length ps" "k \<notin> fst ` set (rr_waiting ?R)" "k \<notin> fst ` set (rr_running ?R)"
      with ended [of k] run R show "rr_answers ?R ! k = answer_heard (w @ [stream_emits c]) r (ps ! k)"
        by (cases "k = i") (simp_all add: round_heard_def)
    qed (use R run waits in \<open>auto simp: round_heard_def\<close>)
  qed
qed

text \<open>Nobody has spoken of a later round, and the moderator not at all.\<close>

definition unsaid_after :: "nat \<Rightarrow> go_event list \<Rightarrow> bool" where
  "unsaid_after r w \<longleftrightarrow> (\<forall>who k. r < k \<or> who = persona_name Moderator \<longrightarrow> said who k w = [])"

definition rounds_on_wire :: "nat \<Rightarrow> go_event list \<Rightarrow> bool" where
  "rounds_on_wire r w \<longleftrightarrow> (\<forall>k\<in>{1..r}. go_RoundComplete k \<in> set w)"

text \<open>The moderator speaks of the round after the last only.\<close>

definition moderator_only :: "nat \<Rightarrow> go_event list \<Rightarrow> bool" where
  "moderator_only n w \<longleftrightarrow> (\<forall>k. k \<noteq> n + 1 \<longrightarrow> said (persona_name Moderator) k w = [])"

fun heard_at :: "go_persona list \<Rightarrow> nat \<Rightarrow> go_event list \<Rightarrow> go_transcript \<Rightarrow> orch_point \<Rightarrow> bool" where
  "heard_at ps n w t (InRound r R) \<longleftrightarrow> 1 \<le> r \<and> t = map (heard ps w) [1..<r] \<and> unsaid_after r w
     \<and> rounds_on_wire (r - 1) w \<and> round_heard ps r R w"
| "heard_at ps n w t (EndRound r) \<longleftrightarrow> 1 \<le> r \<and> t = map (heard ps w) [1..<Suc r] \<and> unsaid_after r w
     \<and> rounds_on_wire (r - 1) w"
| "heard_at ps n w t Convening \<longleftrightarrow> t = map (heard ps w) [1..<Suc n] \<and> unsaid_after n w \<and> rounds_on_wire n w"
| "heard_at ps n w t (InModerator c) \<longleftrightarrow> t = map (heard ps w) [1..<Suc n] \<and> rounds_on_wire n w
     \<and> moderator_only n w \<and> call_heard go_Moderator (n + 1) True c w"
| "heard_at ps n w t Returned \<longleftrightarrow> t = map (heard ps w) [1..<Suc n] \<and> rounds_on_wire n w \<and> moderator_only n w
     \<and> (go_Verdict (said (persona_name Moderator) (n + 1) w) \<in> set w
        \<or> go_Error (persona_name Moderator) (js ''stream failed'') \<in> set w)"

definition heard_inv :: "go_persona list \<Rightarrow> nat \<Rightarrow> orchestration \<Rightarrow> bool" where
  "heard_inv ps n s \<longleftrightarrow>
    \<not> oc_done s \<longrightarrow> heard_at ps n (oc_wire s) (oc_transcript s) (oc_point s)"

lemma heard_cong:
  assumes "\<And>p. p \<in> set ps \<Longrightarrow> said (gp_ID p) k w' = said (gp_ID p) k w"
  shows "heard ps w' k = heard ps w k"
  using assms by (simp add: heard_def answer_heard_def)

lemma rounds_on_wire_append: "rounds_on_wire r w \<Longrightarrow> rounds_on_wire r (w @ [e])"
  by (simp add: rounds_on_wire_def)

lemma rounds_on_wire_complete: "1 \<le> r \<Longrightarrow> rounds_on_wire (r - 1) w \<Longrightarrow> rounds_on_wire r (w @ [go_RoundComplete r])"
  by (cases r) (simp_all add: rounds_on_wire_def atLeastAtMostSuc_conv)

lemma unsaid_later: "unsaid_after r w \<Longrightarrow> r \<le> k \<Longrightarrow> unsaid_after k w"
  by (auto simp: unsaid_after_def)

lemma heard_at_next_round:
  assumes "1 \<le> r" "r \<le> n" "t = map (heard ps w) [1..<Suc r]" "unsaid_after r w" "rounds_on_wire r w"
  shows "heard_at ps n w t (next_round ps n (Suc r))"
proof (cases "Suc r \<le> n")
  case True
  with assms show ?thesis by (auto simp: next_round_def round_heard_start unsaid_after_def)
next
  case False
  with assms(2) have "n = r" by simp
  with assms show ?thesis by (simp add: next_round_def)
qed

lemma heard_at_speaks:
  assumes panel: "panel_ok ps" and h: "heard_at ps n w t (InRound r R)" and j: "j < length (rr_running R)"
  shows "heard_at ps n (w @ [stream_emits (snd (rr_running R ! j))]) t (InRound r (resume_panelist j True R))"
proof -
  let ?c = "snd (rr_running R ! j)"
  from h have R: "round_heard ps r R w" by simp
  have "(fst (rr_running R ! j), ?c) \<in> set (rr_running R)" using j by simp
  with R obtain i where i: "i < length ps" "call_heard (ps ! i) r False ?c w" unfolding round_heard_def by blast
  have rest: "said who k (w @ [stream_emits ?c]) = said who k w" if "k \<noteq> r \<or> who = persona_name Moderator" for who k
    using call_heard_other [OF i(2)] that panel_not_moderator [OF panel nth_mem [OF i(1)]] by metis
  have "map (heard ps (w @ [stream_emits ?c])) [1..<r] = map (heard ps w) [1..<r]"
    by (intro map_cong refl heard_cong rest) simp
  moreover have "unsaid_after r (w @ [stream_emits ?c])" using h rest by (auto simp: unsaid_after_def)
  ultimately show ?thesis using h rounds_on_wire_append round_heard_resume [OF panel R j refl] by simp
qed

lemma heard_at_judges:
  assumes panel: "panel_ok ps" and h: "heard_at ps n w t (InModerator c)"
  shows "heard_at ps n (w @ [stream_emits c]) t
    (case stream_resumes True c of Inl c' \<Rightarrow> InModerator c' | Inr _ \<Rightarrow> Returned)"
proof -
  from h have c: "call_heard go_Moderator (n + 1) True c w" by simp
  have rest: "said who k (w @ [stream_emits c]) = said who k w" if "k \<noteq> n + 1 \<or> who \<noteq> persona_name Moderator" for who k
    using call_heard_other [OF c] that by auto
  have "map (heard ps (w @ [stream_emits c])) [1..<Suc n] = map (heard ps w) [1..<Suc n]"
    using panel_not_moderator [OF panel] by (intro map_cong refl heard_cong rest) simp
  moreover have "moderator_only n (w @ [stream_emits c])" using h rest by (auto simp: moderator_only_def)
  moreover have "stream_emits c = go_Verdict x \<or> stream_emits c = go_Error (persona_name Moderator) (js ''stream failed'')"
    if "stream_resumes True c = Inr x" for x
    using that c by (auto simp: call_heard_def stream_resumes_def stream_emits_def Let_def split: option.splits list.splits if_splits)
  ultimately show ?thesis
    using h rounds_on_wire_append call_heard_goes [OF c] call_heard_returns [OF c] by (auto split: sum.split)
qed

lemma heard_inv_step:
  assumes panel: "panel_ok ps" and order: "order_inv ps n s" and inv: "heard_inv ps n s"
    and step: "run_step orch question ps n s t"
  shows "heard_inv ps n t"
  using step
proof (cases rule: run_step_cases)
  case (starts r R i p ws reply)
  with inv show ?thesis by (auto simp: heard_inv_def round_heard_starts)
next
  case (speaks r R j d s' b)
  from speaks(4) show ?thesis
  proof (cases rule: emit_cases)
    case Written
    with inv speaks heard_at_speaks [OF panel _ speaks(3)] show ?thesis by (simp add: heard_inv_def del: heard_at.simps)
  qed (use speaks in \<open>simp_all add: heard_inv_def\<close>)
next
  case (waits r R)
  with inv have "\<not> oc_done s \<Longrightarrow> rr_answers R = map (answer_heard (oc_wire s) r) ps"
    by (auto simp: heard_inv_def round_heard_def intro: nth_equalityI)
  with inv waits show ?thesis by (auto simp: heard_inv_def Append_def heard_def)
next
  case (completes r d s' b)
  from completes(3) show ?thesis
  proof (cases rule: emit_cases)
    case Written
    have same: "heard ps (w @ [go_RoundComplete r]) = heard ps w" for w
      by (intro ext heard_cong) simp
    have "heard_at ps n (oc_wire t) (oc_transcript t) (oc_point t)" if nd: "\<not> oc_done s"
    proof -
      from inv completes(2) nd have h: "1 \<le> r" "oc_transcript s = map (heard ps (oc_wire s)) [1..<Suc r]"
        "unsaid_after r (oc_wire s)" "rounds_on_wire (r - 1) (oc_wire s)" by (simp_all add: heard_inv_def)
      from order completes(2) have "r \<le> n" by (simp add: order_inv_def)
      from heard_at_next_round [OF h(1) this, of "oc_transcript s" ps "oc_wire s @ [go_RoundComplete r]"]
        h rounds_on_wire_complete [OF h(1,4)]
      have "heard_at ps n (oc_wire s @ [go_RoundComplete r]) (oc_transcript s) (next_round ps n (Suc r))"
        by (simp add: same unsaid_after_def)
      with completes Written show ?thesis by simp
    qed
    moreover have "oc_done t = oc_done s" using completes Written by simp
    ultimately show ?thesis by (simp add: heard_inv_def)
  qed (use completes in \<open>simp_all add: heard_inv_def\<close>)
next
  case (convenes reply)
  with inv show ?thesis
    by (auto simp: heard_inv_def unsaid_after_def moderator_only_def intro!: call_heard_start)
next
  case (judges c d s' b)
  from judges(3) show ?thesis
  proof (cases rule: emit_cases)
    case Written
    with inv judges heard_at_judges [OF panel] show ?thesis by (simp add: heard_inv_def del: heard_at.simps)
  qed (use judges in \<open>simp_all add: heard_inv_def\<close>)
qed (use inv in \<open>simp add: heard_inv_def\<close>)

lemma heard_inv_Run: "heard_inv ps n (Run ps n)"
  by (auto simp: heard_inv_def Run_def next_round_def round_heard_start unsaid_after_def rounds_on_wire_def)

text \<open>Every token of the moderator is of the round after the last, the empty ones too.\<close>

definition moderator_inv :: "nat \<Rightarrow> orchestration \<Rightarrow> bool" where
  "moderator_inv n s \<longleftrightarrow>
    (\<forall>e\<in>set (oc_wire s). ge_type e = ''token'' \<longrightarrow> ge_persona e = persona_name Moderator \<longrightarrow> ge_round e = n + 1)"

lemma moderator_inv_emit:
  assumes "moderator_inv n s" "emit d ev s = Some (s', b)"
    and "ge_type ev = ''token'' \<Longrightarrow> ge_persona ev = persona_name Moderator \<Longrightarrow> ge_round ev = n + 1"
  shows "moderator_inv n (s'\<lparr>oc_point := pt\<rparr>)"
  using assms(2) by (cases rule: emit_cases) (use assms(1,3) in \<open>auto simp: moderator_inv_def\<close>)

lemma stream_emits_token:
  "ge_type (stream_emits c) = ''token'' \<Longrightarrow>
   ge_persona (stream_emits c) = gp_ID (sc_persona c) \<and> ge_round (stream_emits c) = sc_round c"
  by (auto simp: stream_emits_def go_constructors split: option.splits list.splits if_splits)

lemma moderator_inv_step:
  assumes panel: "panel_ok ps" and order: "order_inv ps n s" and inv: "moderator_inv n s"
    and step: "run_step orch question ps n s t"
  shows "moderator_inv n t"
  using step
proof (cases rule: run_step_cases)
  case (speaks r R j d s' b)
  with order have "panel_call ps r (snd (rr_running R ! j))" by (simp add: order_inv_def)
  then have "gp_ID (sc_persona (snd (rr_running R ! j))) \<noteq> persona_name Moderator"
    unfolding panel_call_def by (blast dest: panel_not_moderator [OF panel])
  then show ?thesis unfolding speaks(1)
    by (intro moderator_inv_emit [OF inv speaks(4)]) (auto dest: stream_emits_token)
next
  case (completes r d s' b)
  show ?thesis unfolding completes(1)
    by (rule moderator_inv_emit [OF inv completes(3)]) (simp add: go_constructors)
next
  case (judges c d s' b)
  with order have "sc_round c = n + 1" by (simp add: order_inv_def moderator_call_def)
  then show ?thesis unfolding judges(1)
    by (intro moderator_inv_emit [OF inv judges(3)]) (auto dest: stream_emits_token)
qed (use inv in \<open>simp_all add: moderator_inv_def\<close>)

text \<open>Everything the later proofs need of a debate of the default panel.\<close>

definition debate_inv :: "nat \<Rightarrow> orchestration \<Rightarrow> bool" where
  "debate_inv n s \<longleftrightarrow> n \<le> MAX_ROUNDS \<and> order_inv DefaultPanel n s \<and> heard_inv DefaultPanel n s
     \<and> moderator_inv n s"

interpretation debate: step_system "run_step orch question DefaultPanel n" "debate_inv n" for orch question n
  by unfold_locales
    (auto simp: debate_inv_def intro: order_inv_step heard_inv_step moderator_inv_step panel_ok_default)

lemma debate_inv_Run: "n \<le> MAX_ROUNDS \<Longrightarrow> debate_inv n (Run DefaultPanel n)"
  by (simp add: debate_inv_def order_inv_Run heard_inv_Run panel_ok_default) (simp add: moderator_inv_def Run_def)

section \<open>Every debate ends\<close>

text \<open>What is still to come at a point: rounds, then goroutines to start, then events to emit.\<close>

definition call_work :: "stream_call \<Rightarrow> nat" where
  "call_work c = (case sc_stream c of None \<Rightarrow> 1 | Some evs \<Rightarrow> length evs + 1)"

fun point_rank :: "nat \<Rightarrow> orch_point \<Rightarrow> nat" where
  "point_rank n (InRound r R) = 2 * (Suc n - r) + 4"
| "point_rank n (EndRound r) = 2 * (Suc n - r) + 3"
| "point_rank n Convening = 2"
| "point_rank n (InModerator c) = 1"
| "point_rank n Returned = 0"

fun point_waiting :: "orch_point \<Rightarrow> nat" where
  "point_waiting (InRound r R) = length (rr_waiting R)"
| "point_waiting _ = 0"

fun point_work :: "orch_point \<Rightarrow> nat" where
  "point_work (InRound r R) = sum_list (map (call_work \<circ> snd) (rr_running R))"
| "point_work (InModerator c) = call_work c"
| "point_work _ = 0"

definition closer :: "nat \<Rightarrow> (orch_point \<times> orch_point) set" where
  "closer n = measures [point_rank n, point_waiting, point_work]"

lemma call_work_pos: "0 < call_work c"
  by (simp add: call_work_def split: option.split)

lemma call_work_resumes: "stream_resumes b c = Inl c' \<Longrightarrow> call_work c' < call_work c"
  by (auto simp: stream_resumes_def call_work_def Let_def split: option.splits list.splits if_splits)

lemma resume_closer:
  assumes "j < length (rr_running R)"
  shows "(InRound r (resume_panelist j b R), InRound r R) \<in> closer n"
proof -
  obtain i c xs ys where run: "rr_running R = xs @ (i, c) # ys" "length xs = j"
    using id_take_nth_drop [OF assms] assms by (cases "rr_running R ! j") fastforce
  show ?thesis
  proof (cases "stream_resumes b c")
    case (Inl c')
    with run call_work_resumes [OF Inl] show ?thesis
      by (simp add: closer_def resume_panelist_def nth_append list_update_append)
  next
    case (Inr x)
    with run call_work_pos [of c] show ?thesis by (simp add: closer_def resume_panelist_def nth_append)
  qed
qed

lemma judges_closer:
  "((case stream_resumes b c of Inl c' \<Rightarrow> InModerator c' | Inr _ \<Rightarrow> Returned), InModerator c) \<in> closer n"
  using call_work_resumes [of b c] by (auto simp: closer_def split: sum.split)

lemma complete_closer: "(if b then next_round ps n (Suc r) else Returned, EndRound r) \<in> closer n"
  by (auto simp: closer_def next_round_def)

lemma step_closer:
  assumes "run_step orch question ps n s t"
  shows "(oc_point t, oc_point s) \<in> closer n \<or> (t = s\<lparr>oc_done := True\<rparr> \<and> \<not> oc_done s)"
  using assms
proof (cases rule: run_step_cases)
  case (speaks r R j d s' b)
  with resume_closer [OF speaks(3)] show ?thesis by simp
next
  case (completes r d s' b)
  with complete_closer [of b ps n r] show ?thesis by (simp split: if_splits)
next
  case (judges c d s' b)
  with judges_closer show ?thesis by simp
qed (simp_all add: closer_def)

lemma run_step_wf: "wf {(t, s). run_step orch question ps n s t}"
proof (rule wf_subset)
  show "wf (measures [point_rank n \<circ> oc_point, point_waiting \<circ> oc_point, point_work \<circ> oc_point,
      \<lambda>s. if oc_done s then 0 else 1])" by simp
  show "{(t, s). run_step orch question ps n s t} \<subseteq> measures [point_rank n \<circ> oc_point, point_waiting \<circ> oc_point,
      point_work \<circ> oc_point, \<lambda>s. if oc_done s then 0 else 1]"
    using step_closer by (fastforce simp: closer_def)
qed

definition answers :: "orchestrator \<Rightarrow> bool" where
  "answers orch \<longleftrightarrow> (\<forall>req. \<exists>reply. or_provider orch req reply)"

definition towards :: "orchestrator \<Rightarrow> jstr \<Rightarrow> go_persona list \<Rightarrow> nat \<Rightarrow> orchestration \<Rightarrow> orchestration \<Rightarrow> bool" where
  "towards orch question ps n s t \<longleftrightarrow> run_step orch question ps n s t \<and> (oc_point t, oc_point s) \<in> closer n
     \<and> oc_done t = oc_done s \<and> oc_listening t = oc_listening s"

lemma emit_some:
  "oc_listening s \<or> oc_done s \<Longrightarrow>
   \<exists>d s' b. emit d ev s = Some (s', b) \<and> oc_done s' = oc_done s \<and> oc_listening s' = oc_listening s"
  by (cases "oc_listening s") (force intro: exI [of _ Written], force intro: exI [of _ Refused])

lemma towardsI:
  "run_step orch question ps n s t \<Longrightarrow> (oc_point t, oc_point s) \<in> closer n \<Longrightarrow> oc_done t = oc_done s \<Longrightarrow>
   oc_listening t = oc_listening s \<Longrightarrow> \<exists>t. towards orch question ps n s t"
  by (auto simp: towards_def)

lemma step_possible:
  assumes "oc_listening s \<or> oc_done s" "answers orch" "0 < or_limit orch" "oc_point s \<noteq> Returned"
  shows "\<exists>t. towards orch question ps n s t"
proof -
  note em = emit_some [OF assms(1)]
  show ?thesis
  proof (cases "oc_point s")
    case (InRound r R)
    show ?thesis
    proof (cases "rr_running R")
      case Cons
      then have j: "0 < length (rr_running R)" by simp
      obtain d s' b where e: "emit d (stream_emits (snd (rr_running R ! 0))) s = Some (s', b)"
        "oc_done s' = oc_done s" "oc_listening s' = oc_listening s" using em by blast
      from run_step.speaks [OF InRound j e(1)] show ?thesis
        by (rule towardsI) (simp_all add: InRound resume_closer [OF j] e)
    next
      case Nil
      show ?thesis
      proof (cases "rr_waiting R")
        case (Cons w ws)
        obtain i p where w: "rr_waiting R = (i, p) # ws" using Cons by (cases w) simp
        obtain reply where "or_provider orch (buildRequest orch p (oc_transcript s) r question) reply"
          using assms(2) by (auto simp: answers_def)
        from run_step.starts [OF InRound w _ this] Nil assms(3) w show ?thesis
          by (intro towardsI) (assumption | simp add: closer_def InRound)+
      next
        case None: Nil
        from run_step.waits [OF InRound None Nil] show ?thesis
          by (rule towardsI) (simp_all add: InRound closer_def)
      qed
    qed
  next
    case (EndRound r)
    obtain d s' b where e: "emit d (go_RoundComplete r) s = Some (s', b)"
      "oc_done s' = oc_done s" "oc_listening s' = oc_listening s" using em by blast
    from run_step.completes [OF EndRound e(1)] show ?thesis
      by (rule towardsI) (use complete_closer [of b ps n r] in \<open>simp_all add: EndRound e split: if_splits\<close>)
  next
    case Convening
    obtain reply where "or_provider orch (moderator_request orch question (oc_transcript s)) reply"
      using assms(2) by (auto simp: answers_def)
    from run_step.convenes [OF Convening this] show ?thesis by (rule towardsI) (simp_all add: closer_def Convening)
  next
    case (InModerator c)
    obtain d s' b where e: "emit d (stream_emits c) s = Some (s', b)"
      "oc_done s' = oc_done s" "oc_listening s' = oc_listening s" using em by blast
    from run_step.judges [OF InModerator e(1)] show ?thesis
      by (rule towardsI) (simp_all add: InModerator judges_closer e)
  qed (use assms(4) in simp)
qed

text \<open>And it can go on without anything being sent: an event nobody takes in is dropped, when the write of it
  has failed or because the debate is cancelled.\<close>

lemma unaided_emit:
  "oc_listening s \<or> oc_done s \<Longrightarrow>
   \<exists>d s' b. emit d ev s = Some (s', b) \<and> oc_wire s' = oc_wire s \<and> (oc_listening s' \<longrightarrow> oc_done s' = oc_done s)"
  by (cases "oc_listening s") (force intro: exI [of _ WriteFailed], force intro: exI [of _ Refused])

lemma unaided_step:
  assumes "oc_listening s \<or> oc_done s" "answers orch" "0 < or_limit orch" "oc_point s \<noteq> Returned"
  shows "\<exists>t. run_step orch question ps n s t \<and> oc_wire t = oc_wire s \<and> (oc_listening t \<longrightarrow> oc_done t = oc_done s)"
proof -
  from step_possible [OF assms] obtain t where "towards orch question ps n s t" by blast
  then have step: "run_step orch question ps n s t" and same: "oc_done t = oc_done s"
    by (simp_all add: towards_def)
  note em = unaided_emit [OF assms(1)]
  from step show ?thesis
  proof (cases rule: run_step.cases)
    case (speaks r R j d s' b)
    obtain d' s'' b' where e: "emit d' (stream_emits (snd (rr_running R ! j))) s = Some (s'', b')"
      "oc_wire s'' = oc_wire s" "oc_listening s'' \<longrightarrow> oc_done s'' = oc_done s" using em by blast
    from run_step.speaks [OF speaks(2,3) e(1)] e(2,3) show ?thesis by fastforce
  next
    case (completes r d s' b)
    obtain d' s'' b' where e: "emit d' (go_RoundComplete r) s = Some (s'', b')"
      "oc_wire s'' = oc_wire s" "oc_listening s'' \<longrightarrow> oc_done s'' = oc_done s" using em by blast
    from run_step.completes [OF completes(2) e(1)] e(2,3) show ?thesis by fastforce
  next
    case (judges c d s' b)
    obtain d' s'' b' where e: "emit d' (stream_emits c) s = Some (s'', b')"
      "oc_wire s'' = oc_wire s" "oc_listening s'' \<longrightarrow> oc_done s'' = oc_done s" using em by blast
    from run_step.judges [OF judges(2) e(1)] e(2,3) show ?thesis by fastforce
  qed (use step same in fastforce)+
qed

text \<open>Left alone, a debate goes on to its end.\<close>

definition heeded :: "orchestration \<Rightarrow> bool" where
  "heeded s \<longleftrightarrow> oc_listening s \<or> oc_done s"

interpretation undisturbed: step_system "towards orch question ps n" heeded for orch question ps n
  by unfold_locales (simp add: towards_def heeded_def)

lemma left_alone:
  assumes "heeded s" "answers orch" "0 < or_limit orch"
  shows "\<exists>t. (towards orch question ps n)\<^sup>*\<^sup>* s t \<and> heeded t \<and> oc_point t = Returned"
proof (rule undisturbed.comes_to_rest [OF _ assms(1), where r = "closer n" and m = oc_point])
  show "wf (closer n)" by (simp add: closer_def)
  show "\<exists>t. towards orch question ps n s t \<and> (oc_point t, oc_point s) \<in> closer n"
    if "heeded s" "oc_point s \<noteq> Returned" for s
    using step_possible [OF _ assms(2,3) that(2), of question ps n] that(1)
    unfolding heeded_def towards_def by blast
qed

lemma towards_debates:
  assumes "(towards orch question ps n)\<^sup>*\<^sup>* s t"
  shows "debates orch question ps n s t" "oc_done t = oc_done s"
  using assms by (induction rule: rtranclp_induct) (auto simp: towards_def)

section \<open>The pool\<close>

definition pool_inv :: "orchestrator \<Rightarrow> orchestration \<Rightarrow> bool" where
  "pool_inv orch s \<longleftrightarrow> (case oc_point s of InRound r R \<Rightarrow> int (length (rr_running R)) \<le> or_limit orch | _ \<Rightarrow> True)"

lemma length_resume_panelist:
  "j < length (rr_running R) \<Longrightarrow> length (rr_running (resume_panelist j b R)) \<le> length (rr_running R)"
  by (simp add: resume_panelist_def split: prod.split sum.split)

lemma pool_inv_step:
  assumes "0 < or_limit orch \<and> pool_inv orch s" "run_step orch question ps n s t"
  shows "0 < or_limit orch \<and> pool_inv orch t"
  using assms(2)
proof (cases rule: run_step_cases)
  case (speaks r R j d s' b)
  with assms(1) length_resume_panelist [OF speaks(3), of b] show ?thesis by (simp add: pool_inv_def)
next
  case (completes r d s' b)
  with assms(1) show ?thesis by (auto simp: pool_inv_def next_round_def start_round_def)
qed (use assms(1) in \<open>auto simp: pool_inv_def split: sum.split\<close>)

interpretation pool: step_system "run_step orch question ps n" "\<lambda>s. 0 < or_limit orch \<and> pool_inv orch s"
  for orch question ps n
  by unfold_locales (rule pool_inv_step)

section \<open>Requests\<close>

text \<open>What a persona said in a round as it is quoted to the others: nothing, when it said nothing.\<close>

definition quoted :: "go_event list \<Rightarrow> nat \<Rightarrow> go_persona \<Rightarrow> jstr" where
  "quoted w k p = (let x = said (gp_ID p) k w in if x = [] then [] else js ''['' @ gp_Name p @ js '']: '' @ x @ [10, 10])"

lemma renderAnswers_heard: "renderAnswers (map (answer_heard w k) ps) = concat (map (quoted w k) ps)"
  by (induction ps) (simp_all add: renderAnswers_def answer_heard_def quoted_def Let_def)

lemma othersFor_heard:
  "1 < r \<Longrightarrow> othersFor (map (heard ps w) [1..<r]) who =
   map (answer_heard w (r - 1)) (filter (\<lambda>p. gp_ID p \<noteq> who) ps)"
  by (simp add: othersFor_def last_map heard_def filter_map o_def answer_heard_def)

lemma ownLatest_heard:
  assumes "panel_ok ps" "p \<in> set ps" "1 < r"
  shows "ownLatest (map (heard ps w) [1..<r]) (gp_ID p) = Some (answer_heard w (r - 1) p)"
proof -
  have "List.find (\<lambda>a. pa_PersonaID a = gp_ID p) (map (answer_heard w k) ps) = Some (answer_heard w k p)" for k
    using assms(1,2) by (induction ps) (auto simp: panel_ok_def answer_heard_def)
  with assms(3) show ?thesis by (simp add: ownLatest_def last_map heard_def)
qed

lemma HandleSession_runs:
  assumes "HandleSession msg ps = Inr (question, n, s0)"
  shows "s0 = Run ps n" "2 \<le> n" "n \<le> MAX_ROUNDS" "question = go_text (cm_question msg)"
  using assms by (auto simp: HandleSession_def go_Validate_def MAX_ROUNDS_def Let_def split: if_splits)

lemma session_reach:
  assumes "HandleSession msg DefaultPanel = Inr (question, n, s0)" "debates orch question DefaultPanel n s0 s"
  shows "debate_inv n s"
proof -
  note h = HandleSession_runs [OF assms(1)]
  show ?thesis using debate.inv_reach [OF assms(2)] debate_inv_Run [OF h(3)] h(1) by simp
qed

section \<open>Properties\<close>

text \<open>The backend keeps the order the player relies on. Whatever the models answer, however the
  goroutines interleave, and wherever a write fails or the client goes away: what the session has
  written is a sequence of events the frontend knows, with rounds in range, and in an order in
  which no token of a round comes after its round_complete, no moderator token after the verdict,
  and no round_complete or verdict after the end.\<close>

theorem backend_stream_is_in_order:
  assumes "HandleSession msg DefaultPanel = Inr (question, n, s0)" "debates orch question DefaultPanel n s0 s"
  shows "\<exists>es. oc_wire s = map go_of_event es \<and> list_all wf_event es \<and> in_order ({}, False, False) (map Feed es)"
  using session_reach [OF assms] by (auto simp: debate_inv_def order_inv_def)

theorem backend_stream_is_in_order_witness:
  "\<exists>(s :: orchestration) es. oc_wire s \<noteq> [] \<and> oc_wire s = map go_of_event es \<and> in_order ({}, False, False) (map Feed es)"
proof -
  let ?msg = "\<lparr>cm_type = ''ask'', cm_question = [97], cm_rounds = 0\<rparr>"
  let ?orch = "new_orchestrator (\<lambda>_ _. True) ''glm'' 6"
  let ?R = "start_round DefaultPanel"
  let ?p = "DefaultPanel ! 0"
  have start: "HandleSession ?msg DefaultPanel = Inr (go_text [97], 2, Run DefaultPanel 2)"
    by (simp add: HandleSession_def go_Validate_def trim_by_def go_is_space_def)
  obtain p ws where ws: "rr_waiting ?R = (0, p) # ws" by (simp add: start_round_def DefaultPanel_def)
  let ?R1 = "?R\<lparr>rr_waiting := ws, rr_running := [(0, stream_start p 1 False (Inr []))]\<rparr>"
  let ?s1 = "(Run DefaultPanel 2)\<lparr>oc_point := InRound 1 ?R1\<rparr>"
  have at: "oc_point (Run DefaultPanel 2) = InRound 1 ?R" by (simp add: Run_def next_round_def)
  have 1: "run_step ?orch (go_text [97]) DefaultPanel 2 (Run DefaultPanel 2) ?s1"
    using run_step.starts [OF at ws, of ?orch "go_text [97]" "Inr []"]
    by (simp add: new_orchestrator_def start_round_def)
  let ?ev = "stream_emits (snd (rr_running ?R1 ! 0))"
  have "emit Written ?ev ?s1 = Some (?s1\<lparr>oc_wire := [?ev]\<rparr>, True)" by (simp add: Run_def)
  from run_step.speaks [OF _ _ this, of 1, of ?orch "go_text [97]" DefaultPanel 2]
  obtain s2 where 2: "run_step ?orch (go_text [97]) DefaultPanel 2 ?s1 s2" "oc_wire s2 \<noteq> []" by auto
  from 1 2(1) have "debates ?orch (go_text [97]) DefaultPanel 2 (Run DefaultPanel 2) s2" by simp
  from backend_stream_is_in_order [OF start this] 2(2) show ?thesis by blast
qed

text \<open>C16. A debate that is not disturbed is told in full. When \<open>Run\<close> returns and nobody cancelled,
  the backend's transcript has every round, every answer of it is word for word what went over
  the wire for that panelist and round, every round was announced complete, and the moderator
  gave the verdict it had streamed, or failed and said so.\<close>

theorem undisturbed_debate_is_complete:
  assumes "HandleSession msg DefaultPanel = Inr (question, n, s0)" "debates orch question DefaultPanel n s0 s"
    and "oc_point s = Returned" "\<not> oc_done s"
  shows "oc_transcript s = map (\<lambda>k. \<lparr>gr_Number = k, gr_Answers = map (\<lambda>p.
        \<lparr>pa_PersonaID = gp_ID p, pa_Name = gp_Name p, pa_Text = said (gp_ID p) k (oc_wire s)\<rparr>) DefaultPanel\<rparr>) [1..<n + 1]
    \<and> (\<forall>k\<in>{1..n}. go_RoundComplete k \<in> set (oc_wire s))
    \<and> (go_Verdict (said ''moderator'' (n + 1) (oc_wire s)) \<in> set (oc_wire s)
       \<or> go_Error ''moderator'' (js ''stream failed'') \<in> set (oc_wire s))"
proof -
  from session_reach [OF assms(1,2)] assms(3,4) have "heard_at DefaultPanel n (oc_wire s) (oc_transcript s) Returned"
    by (simp add: debate_inv_def heard_inv_def)
  then show ?thesis by (simp add: heard_def [abs_def] answer_heard_def [abs_def] rounds_on_wire_def)
qed

text \<open>A debate with any provider that answers, run to its end.\<close>

lemma some_debate:
  assumes "answers orch" "0 < or_limit orch" "HandleSession msg DefaultPanel = Inr (question, n, s0)"
  obtains s where "debates orch question DefaultPanel n s0 s" "oc_point s = Returned" "\<not> oc_done s"
proof -
  note h = HandleSession_runs(1) [OF assms(3)]
  have "heeded s0" "\<not> oc_done s0" by (simp_all add: heeded_def h Run_def)
  with left_alone [OF this(1) assms(1,2)] towards_debates that show thesis by metis
qed

theorem undisturbed_debate_is_complete_witness:
  "\<exists>s :: orchestration. length (oc_transcript s) = 2 \<and> go_RoundComplete 2 \<in> set (oc_wire s)"
proof -
  let ?msg = "\<lparr>cm_type = ''ask'', cm_question = [97], cm_rounds = 0\<rparr>"
  have start: "HandleSession ?msg DefaultPanel = Inr (go_text [97], 2, Run DefaultPanel 2)"
    by (simp add: HandleSession_def go_Validate_def trim_by_def go_is_space_def)
  obtain s where "debates (new_orchestrator (\<lambda>_ _. True) ''glm'' 6) (go_text [97]) DefaultPanel 2 (Run DefaultPanel 2) s"
    "oc_point s = Returned" "\<not> oc_done s"
    by (rule some_debate [OF _ _ start, of "new_orchestrator (\<lambda>_ _. True) ''glm'' 6"])
      (simp_all add: answers_def new_orchestrator_def)
  from undisturbed_debate_is_complete [OF start this] show ?thesis by (intro exI [of _ s]) auto
qed

text \<open>One that is in its second round.\<close>

lemma reaches_second_round:
  assumes "answers orch" "0 < or_limit orch" "2 \<le> n"
  shows "\<exists>s R. debates orch question ps n (Run ps n) s \<and> \<not> oc_done s \<and> oc_point s = InRound 2 R"
proof -
  let ?step = "\<lambda>s t. towards orch question ps n s t \<and> (\<forall>R. oc_point s \<noteq> InRound 2 R)"
  let ?inv = "\<lambda>s :: orchestration. oc_listening s \<and> \<not> oc_done s
    \<and> (case oc_point s of InRound r R \<Rightarrow> r = 1 \<or> r = 2 | EndRound r \<Rightarrow> r = 1 | _ \<Rightarrow> False)"
  have "?inv t" if inv: "?inv s" and st: "?step s t" for s t
  proof -
    from st have step: "run_step orch question ps n s t" and keeps: "oc_done t = oc_done s" "oc_listening t = oc_listening s"
      by (simp_all add: towards_def)
    from step show ?thesis
    proof (cases rule: run_step_cases)
      case (completes r d s' b)
      from completes(3) inv have b by (cases rule: emit_cases) auto
      with completes inv keeps assms(3) show ?thesis by (auto simp: next_round_def)
    qed (use inv st keeps in auto)
  qed
  then have system: "step_system ?step ?inv" by (unfold_locales) blast
  have "\<exists>t. ?step\<^sup>*\<^sup>* (Run ps n) t \<and> ?inv t \<and> (\<exists>R. oc_point t = InRound 2 R)"
  proof (rule step_system.comes_to_rest [OF system, where r = "closer n" and m = oc_point])
    show "wf (closer n)" by (simp add: closer_def)
    show "?inv (Run ps n)" using assms(3) by (simp add: Run_def next_round_def)
    show "\<exists>t. ?step s t \<and> (oc_point t, oc_point s) \<in> closer n" if "?inv s" "\<not> (\<exists>R. oc_point s = InRound 2 R)" for s
    proof -
      from that(1) have "oc_point s \<noteq> Returned" by auto
      with step_possible [OF _ assms(1,2) this, of question ps n] that show ?thesis by (auto simp: towards_def)
    qed
  qed
  then obtain t R where t: "?step\<^sup>*\<^sup>* (Run ps n) t" "\<not> oc_done t" "oc_point t = InRound 2 R" by blast
  from t(1) have "debates orch question ps n (Run ps n) t"
    by (rule rtranclp_mono [THEN predicate2D, rotated]) (auto simp: towards_def)
  with t(2,3) show ?thesis by blast
qed

text \<open>C17. The panelists hear each other. From the second round on, and while nobody has cancelled, the
  request for a panelist is the question, its own last answer as the assistant's, and an
  instruction to restate (odd rounds) or to rebut (even ones) followed by the last answer of every
  other panelist, in the panel's order, each as it was sent to the client; those who said nothing
  are left out. The moderator gets the question and all answers of all rounds.\<close>

theorem panelists_hear_each_other:
  assumes "HandleSession msg DefaultPanel = Inr (question, n, s0)" "debates orch question DefaultPanel n s0 s"
    and "\<not> oc_done s"
  shows "case oc_point s of
      InRound r R \<Rightarrow>
        if r = 1 then list_all (\<lambda>p. pr_MessageHistory (buildRequest orch p (oc_transcript s) r question) =
          [\<lparr>pm_Role = RoleUser, pm_Message = question\<rparr>]) DefaultPanel
        else list_all (\<lambda>p. pr_MessageHistory (buildRequest orch p (oc_transcript s) r question) =
          [\<lparr>pm_Role = RoleUser, pm_Message = question\<rparr>,
           \<lparr>pm_Role = RoleAssistant, pm_Message = said (gp_ID p) (r - 1) (oc_wire s)\<rparr>,
           \<lparr>pm_Role = RoleUser, pm_Message =
              (if odd r then js ''Having heard the others, sharpen and restate YOUR position.''
               else js ''Directly rebut the other panelists' latest points below.'') @ [10, 10]
              @ concat (map (quoted (oc_wire s) (r - 1)) (filter (\<lambda>q. gp_ID q \<noteq> gp_ID p) DefaultPanel))\<rparr>]) DefaultPanel
    | Convening \<Rightarrow> pr_MessageHistory (moderator_request orch question (oc_transcript s)) =
        [\<lparr>pm_Role = RoleUser, pm_Message = question @ [10, 10]
           @ concat (map (\<lambda>k. concat (map (quoted (oc_wire s) k) DefaultPanel)) [1..<n + 1])\<rparr>]
    | _ \<Rightarrow> True"
proof (cases "oc_point s")
  case (InRound r R)
  from session_reach [OF assms(1,2)] assms(3) InRound
  have t: "1 \<le> r" "oc_transcript s = map (heard DefaultPanel (oc_wire s)) [1..<r]"
    by (simp_all add: debate_inv_def heard_inv_def)
  show ?thesis
  proof (cases "r = 1")
    case True
    then show ?thesis by (simp add: InRound buildRequest_def list_all_iff)
  next
    case False
    with t(1) have "1 < r" by simp
    then show ?thesis
      by (simp add: InRound list_all_iff buildRequest_def Let_def t(2) othersFor_heard renderAnswers_heard
          ownLatest_heard [OF panel_ok_default] kindOfRound_def odd_iff_mod_2_eq_one del: One_nat_def)
        (simp add: answer_heard_def)
  qed
next
  case Convening
  from session_reach [OF assms(1,2)] assms(3) Convening
  have "oc_transcript s = map (heard DefaultPanel (oc_wire s)) [1..<Suc n]"
    by (simp add: debate_inv_def heard_inv_def)
  then show ?thesis by (simp add: Convening moderator_request_def go_render_def heard_def o_def renderAnswers_heard)
qed simp_all

theorem panelists_hear_each_other_witness:
  "\<exists>(s :: orchestration) R. oc_point s = InRound 2 R \<and>
    (let p = DefaultPanel ! 0 in
     pm_Message (pr_MessageHistory (buildRequest (new_orchestrator (\<lambda>_ _. True) ''glm'' 6) p (oc_transcript s) 2 (js ''a'')) ! 1)
     = said (gp_ID p) 1 (oc_wire s))"
proof -
  let ?msg = "\<lparr>cm_type = ''ask'', cm_question = [97], cm_rounds = 0\<rparr>"
  have start: "HandleSession ?msg DefaultPanel = Inr (js ''a'', 2, Run DefaultPanel 2)"
    by (simp add: HandleSession_def go_Validate_def trim_by_def go_is_space_def go_text_def js_def)
  obtain s R where s: "debates (new_orchestrator (\<lambda>_ _. True) ''glm'' 6) (js ''a'') DefaultPanel 2 (Run DefaultPanel 2) s"
    "\<not> oc_done s" "oc_point s = InRound 2 R"
    using reaches_second_round [of "new_orchestrator (\<lambda>_ _. True) ''glm'' 6" 2 "js ''a''" DefaultPanel]
    by (auto simp: answers_def new_orchestrator_def)
  have "DefaultPanel ! 0 \<in> set DefaultPanel" by (simp add: DefaultPanel_def)
  with panelists_hear_each_other [OF start s(1,2)] s(3) show ?thesis
    by (intro exI [of _ s] exI [of _ R]) (simp add: list_all_iff Let_def)
qed

text \<open>Every debate ends. No schedule of goroutines, writes and cancellations goes on for ever,
  whatever the provider answers; and as long as it answers at all the debate is never stuck: until
  \<open>Run\<close> has returned, some goroutine can go on, without any further cancellation.\<close>

theorem every_debate_ends:
  assumes "HandleSession msg DefaultPanel = Inr (question, n, s0)" "debates orch question DefaultPanel n s0 s"
    and "\<And>req. \<exists>reply. or_provider orch req reply" "0 < or_limit orch"
  shows "wf {(t, s). run_step orch question DefaultPanel n s t}
    \<and> (oc_point s = Returned \<or> (\<exists>t. run_step orch question DefaultPanel n s t \<and> oc_point t \<noteq> oc_point s \<and> oc_done t = oc_done s))"
proof -
  have "\<exists>t. towards orch question DefaultPanel n s t" if "oc_point s \<noteq> Returned"
    using session_reach [OF assms(1,2)] step_possible [OF _ _ assms(4) that] assms(3)
    by (simp add: answers_def debate_inv_def order_inv_def)
  moreover have "(pt, pt) \<notin> closer n" for pt by (simp add: closer_def)
  ultimately show ?thesis using run_step_wf [of orch question DefaultPanel n] unfolding towards_def by metis
qed

theorem every_debate_ends_witness:
  "\<exists>t. run_step (new_orchestrator (\<lambda>_ _. True) ''glm'' 6) (js ''a'') DefaultPanel 2 (Run DefaultPanel 2) t"
proof -
  let ?msg = "\<lparr>cm_type = ''ask'', cm_question = [97], cm_rounds = 0\<rparr>"
  have start: "HandleSession ?msg DefaultPanel = Inr (js ''a'', 2, Run DefaultPanel 2)"
    by (simp add: HandleSession_def go_Validate_def trim_by_def go_is_space_def go_text_def js_def)
  from every_debate_ends [OF start rtranclp.rtrancl_refl, of "new_orchestrator (\<lambda>_ _. True) ''glm'' 6"]
  show ?thesis by (auto simp: new_orchestrator_def Run_def next_round_def)
qed

text \<open>The pool is bounded: at no moment do more panelists stream than the configured limit, or one
  where the limit makes no sense.\<close>

lemma streams_within_limit:
  assumes "debates (new_orchestrator provider model limit) question ps n (Run ps n) s"
    and "oc_point s = InRound r R"
  shows "int (length (rr_running R)) \<le> max 1 limit"
proof -
  have "pool_inv (new_orchestrator provider model limit) (Run ps n)"
    by (simp add: pool_inv_def Run_def next_round_def start_round_def new_orchestrator_def)
  with pool.inv_reach [OF assms(1)] assms(2) show ?thesis
    by (auto simp: pool_inv_def new_orchestrator_def split: if_splits)
qed

lemma streams_within_limit_witness:
  "\<exists>(s :: orchestration) R. oc_point s = InRound 2 R \<and> int (length (rr_running R)) \<le> 1"
proof -
  obtain s R where s: "debates (new_orchestrator (\<lambda>_ _. True) ''glm'' 0) (js ''a'') DefaultPanel 2 (Run DefaultPanel 2) s"
    "oc_point s = InRound 2 R"
    using reaches_second_round [of "new_orchestrator (\<lambda>_ _. True) ''glm'' 0" 2 "js ''a''" DefaultPanel]
    by (auto simp: answers_def new_orchestrator_def)
  from streams_within_limit [OF s] s(2) show ?thesis by auto
qed

end
