(* ===== verification/Zai_Provider.thy ===== *)
theory Zai_Provider
  imports Go_Library Backend_Debate
begin

text \<open>
  The providers behind the orchestrator: \<open>provider/zai.go\<close>, which reads a language model's answer as
  server-sent events over HTTP, and the double of \<open>provider/fake.go\<close>. The lines of a response carry
  JSON, which \<open>unmarshal\<close> decodes (\<open>None\<close> where \<open>json.Unmarshal\<close> fails); what a server answers is the
  relation \<open>net\<close>.
\<close>

section \<open>The request\<close>

record zai_provider =
  z_apiKey :: string
  z_baseURL :: string
  z_model :: string

definition NewZaiProvider :: "string \<Rightarrow> string \<Rightarrow> zai_provider" where
  "NewZaiProvider apiKey model =
    \<lparr>z_apiKey = apiKey, z_baseURL = ''https://api.z.ai/api/coding/paas/v4/chat/completions'', z_model = model\<rparr>"

record wire_message =
  wm_Role :: string
  wm_Content :: jstr

record wire_request =
  wr_Model :: string
  wr_Messages :: "wire_message list"
  wr_Stream :: bool
  wr_ThinkingType :: string

record http_request =
  hr_Method :: string
  hr_URL :: string
  hr_Header :: "(string \<times> string) list"
  hr_Body :: wire_request

fun role_name :: "role \<Rightarrow> string" where
  "role_name RoleSystem = ''system''"
| "role_name RoleUser = ''user''"
| "role_name RoleAssistant = ''assistant''"

definition wire_body :: "zai_provider \<Rightarrow> provider_request \<Rightarrow> wire_request" where
  "wire_body z req =
    \<lparr>wr_Model = (if pr_Model req = '''' then z_model z else pr_Model req),
     wr_Messages =
       (if pr_SystemPrompt req \<noteq> [] then [\<lparr>wm_Role = ''system'', wm_Content = pr_SystemPrompt req\<rparr>] else [])
       @ map (\<lambda>msg. \<lparr>wm_Role = role_name (pm_Role msg), wm_Content = pm_Message msg\<rparr>) (pr_MessageHistory req),
     wr_Stream = True, wr_ThinkingType = ''disabled''\<rparr>"

definition zai_request :: "zai_provider \<Rightarrow> provider_request \<Rightarrow> http_request" where
  "zai_request z req =
    \<lparr>hr_Method = ''POST'', hr_URL = z_baseURL z,
     hr_Header = [(''Content-Type'', ''application/json''), (''Authorization'', ''Bearer '' @ z_apiKey z),
                  (''Accept'', ''text/event-stream'')],
     hr_Body = wire_body z req\<rparr>"

section \<open>The response\<close>

text \<open>The contents of the choices of a chunk; a missing \<open>delta\<close> or \<open>content\<close> is Go's empty text.\<close>

record wire_chunk =
  wc_Choices :: "jstr list"

text \<open>\<open>httpClient.Do\<close> fails, or there is a response: its status, the bytes of its body, and the error
  that ended the reading of it, if one did.\<close>

datatype http_reply = NoReply string | Reply nat string "string option"

text \<open>One pass of the loop over the lines: it goes on, it returns, or it has a content to send.\<close>

datatype sse_line = SkipLine | DoneLine | ContentLine jstr

definition read_line :: "(string \<Rightarrow> wire_chunk option) \<Rightarrow> string \<Rightarrow> sse_line" where
  "read_line unmarshal text =
    (if text = '''' \<or> take 6 text \<noteq> ''data: '' then SkipLine
     else let data = drop 6 text in
     if data = ''[DONE]'' then DoneLine
     else case unmarshal data of
       None \<Rightarrow> SkipLine
     | Some chunk \<Rightarrow>
        (case wc_Choices chunk of
           [] \<Rightarrow> SkipLine
         | content # _ \<Rightarrow> if content = [] then SkipLine else ContentLine content))"

definition delta_event :: "jstr \<Rightarrow> stream_event" where
  "delta_event d = \<lparr>sv_Delta = d, sv_Err = None\<rparr>"

definition failed_event :: "string \<Rightarrow> stream_event" where
  "failed_event e = \<lparr>sv_Delta = [], sv_Err = Some e\<rparr>"

text \<open>The loop over the lines of the scanner, which ended with the error \<open>scan_err\<close>, if with one.\<close>

fun read_lines :: "(string \<Rightarrow> wire_chunk option) \<Rightarrow> string option \<Rightarrow> string list \<Rightarrow> stream_event list" where
  "read_lines unmarshal scan_err [] = (case scan_err of None \<Rightarrow> [] | Some e \<Rightarrow> [failed_event e])"
| "read_lines unmarshal scan_err (text # ls) =
    (case read_line unmarshal text of
       SkipLine \<Rightarrow> read_lines unmarshal scan_err ls
     | DoneLine \<Rightarrow> []
     | ContentLine content \<Rightarrow> delta_event content # read_lines unmarshal scan_err ls)"

definition MAX_LINE :: nat where "MAX_LINE = 1024 * 1024"

text \<open>What \<open>streamResponse\<close> sends when its context is not cancelled.\<close>

fun streamResponse :: "(string \<Rightarrow> wire_chunk option) \<Rightarrow> http_reply \<Rightarrow> stream_event list" where
  "streamResponse unmarshal (NoReply err) = [failed_event err]"
| "streamResponse unmarshal (Reply status body err) =
    (if status \<noteq> 200 then [failed_event (''zai: status '' @ show_nat status @ '': '' @ take (2 * 1024) body)]
     else case scan_lines MAX_LINE body of (ls, too_long) \<Rightarrow>
       read_lines unmarshal (if too_long then Some ''bufio.Scanner: token too long'' else err) ls)"

text \<open>\<open>Stream\<close>: \<open>new_request\<close> is the error \<open>http.NewRequestWithContext\<close> has for the URL, if it has one
  (\<open>json.Marshal\<close> has none for such a struct). Every send gives way to \<open>ctx.Done()\<close>, after which the
  channel is closed; so, where the context may be \<open>cancelled\<close>, it may carry a part only.\<close>

inductive zai_stream :: "(string \<Rightarrow> wire_chunk option) \<Rightarrow> (string \<Rightarrow> string option) \<Rightarrow>
    (http_request \<Rightarrow> http_reply \<Rightarrow> bool) \<Rightarrow> zai_provider \<Rightarrow> bool \<Rightarrow> provider"
  for unmarshal new_request net z cancelled where
  no_request: "new_request (z_baseURL z) = Some err \<Longrightarrow>
    zai_stream unmarshal new_request net z cancelled req (Inl err)"
| responds: "new_request (z_baseURL z) = None \<Longrightarrow> net (zai_request z req) reply \<Longrightarrow>
    cancelled \<or> length (streamResponse unmarshal reply) \<le> n \<Longrightarrow>
    zai_stream unmarshal new_request net z cancelled req (Inr (take n (streamResponse unmarshal reply)))"

section \<open>The double\<close>

record fake_provider =
  fk_Deltas :: "jstr list"
  fk_Err :: "string option"
  fk_StreamErr :: "string option"

definition fake_events :: "fake_provider \<Rightarrow> stream_event list" where
  "fake_events f = map delta_event (fk_Deltas f) @ (case fk_Err f of None \<Rightarrow> [] | Some e \<Rightarrow> [failed_event e])"

inductive fake_stream :: "fake_provider \<Rightarrow> bool \<Rightarrow> provider" for f cancelled where
  fake_fails: "fk_StreamErr f = Some err \<Longrightarrow> fake_stream f cancelled req (Inl err)"
| fake_sends: "fk_StreamErr f = None \<Longrightarrow> cancelled \<or> length (fake_events f) \<le> n \<Longrightarrow>
    fake_stream f cancelled req (Inr (take n (fake_events f)))"

section \<open>The contract of a provider\<close>

text \<open>A stream: deltas of a kind, and at most one error, which ends it.\<close>

fun stream_ok :: "(jstr \<Rightarrow> bool) \<Rightarrow> stream_event list \<Rightarrow> bool" where
  "stream_ok good [] = True"
| "stream_ok good (ev # evs) = (if sv_Err ev = None then good (sv_Delta ev) \<and> stream_ok good evs else evs = [])"

lemma stream_ok_take: "stream_ok good evs \<Longrightarrow> stream_ok good (take n evs)"
  by (induction evs arbitrary: n) (auto simp: take_Cons' split: if_splits)

lemma stream_ok_deltas:
  "list_all good ds \<Longrightarrow> stream_ok good (map delta_event ds @ (case err of None \<Rightarrow> [] | Some e \<Rightarrow> [failed_event e]))"
  by (induction ds) (auto simp: delta_event_def failed_event_def split: option.split)

text \<open>What a debate over such a provider sends. The invariant: each call that runs has only such deltas
  left, and only such tokens are on the wire.\<close>

definition call_ok :: "(jstr \<Rightarrow> bool) \<Rightarrow> stream_call \<Rightarrow> bool" where
  "call_ok good c \<longleftrightarrow> (case sc_stream c of None \<Rightarrow> True | Some evs \<Rightarrow> stream_ok good evs)"

definition token_ok :: "(jstr \<Rightarrow> bool) \<Rightarrow> go_event \<Rightarrow> bool" where
  "token_ok good e \<longleftrightarrow> (ge_type e = ''token'' \<longrightarrow> good (ge_delta e))"

definition tokens_inv :: "(jstr \<Rightarrow> bool) \<Rightarrow> orchestration \<Rightarrow> bool" where
  "tokens_inv good s \<longleftrightarrow> list_all (token_ok good) (oc_wire s) \<and>
    (case oc_point s of
       InRound rnd R \<Rightarrow> \<forall>x\<in>set (rr_running R). call_ok good (snd x)
     | InModerator c \<Rightarrow> call_ok good c
     | _ \<Rightarrow> True)"

lemma call_ok_start: "(\<And>evs. reply = Inr evs \<Longrightarrow> stream_ok good evs) \<Longrightarrow> call_ok good (stream_start p rnd m reply)"
  by (auto simp: call_ok_def stream_start_def split: sum.splits)

lemma call_ok_resumes: "call_ok good c \<Longrightarrow> stream_resumes emitted c = Inl c' \<Longrightarrow> call_ok good c'"
  by (auto simp: call_ok_def stream_resumes_def Let_def split: option.splits list.splits if_splits)

lemma call_ok_emits: "call_ok good c \<Longrightarrow> token_ok good (stream_emits c)"
  by (auto simp: call_ok_def token_ok_def stream_emits_def go_Token_def go_Error_def go_Verdict_def
      go_PersonaDone_def go_blank_def split: option.splits list.splits if_splits)

lemma token_ok_emit:
  "emit d ev s = Some (s', emitted) \<Longrightarrow> token_ok good ev \<Longrightarrow> list_all (token_ok good) (oc_wire s) \<Longrightarrow>
   list_all (token_ok good) (oc_wire s')"
  by (cases d) (auto split: if_splits)

lemma running_ok_resume:
  assumes "\<forall>x\<in>set (rr_running R). call_ok good (snd x)" "j < length (rr_running R)"
  shows "\<forall>x\<in>set (rr_running (resume_panelist j emitted R)). call_ok good (snd x)"
proof -
  obtain i c where j: "rr_running R ! j = (i, c)" by fastforce
  with assms nth_mem have "call_ok good c" by fastforce
  then show ?thesis
    using assms(1)
    by (fastforce simp: resume_panelist_def j split: sum.splits
        dest: set_update_subset_insert [THEN subsetD] in_set_takeD in_set_dropD call_ok_resumes)
qed

locale stream_provider =
  fixes provider :: provider
    and good :: "jstr \<Rightarrow> bool"
  assumes streams: "provider req (Inr evs) \<Longrightarrow> stream_ok good evs"
begin

lemma tokens_step:
  assumes "run_step orch question personas n s s'" "tokens_inv good s" "or_provider orch = provider"
  shows "tokens_inv good s'"
  using assms
proof (cases rule: run_step.cases)
  case (starts rnd R i p ws reply)
  then have "call_ok good (stream_start p rnd False reply)"
    using assms(3) by (intro call_ok_start streams) simp
  with starts assms(2) show ?thesis by (simp add: tokens_inv_def)
next
  case (speaks rnd R j d s1 emitted)
  with assms(2) have ok: "\<forall>x\<in>set (rr_running R). call_ok good (snd x)" and
    wire: "list_all (token_ok good) (oc_wire s)"
    by (simp_all add: tokens_inv_def)
  from ok speaks have "call_ok good (snd (rr_running R ! j))"
    by simp
  from token_ok_emit [OF _ call_ok_emits [OF this] wire] speaks running_ok_resume [OF ok]
  show ?thesis by (simp add: tokens_inv_def)
next
  case (completes rnd d s1 emitted)
  then have "list_all (token_ok good) (oc_wire s1)"
    using assms(2) by (auto intro: token_ok_emit simp: tokens_inv_def token_ok_def go_RoundComplete_def go_blank_def)
  with completes show ?thesis by (simp add: tokens_inv_def next_round_def start_round_def)
next
  case (convenes reply)
  then have "call_ok good (stream_start go_Moderator (n + 1) True reply)"
    using assms(3) by (intro call_ok_start streams) simp
  with convenes assms(2) show ?thesis by (simp add: tokens_inv_def)
next
  case (judges c d s1 emitted)
  with assms(2) have ok: "call_ok good c" and wire: "list_all (token_ok good) (oc_wire s)"
    by (simp_all add: tokens_inv_def)
  from token_ok_emit [OF _ call_ok_emits [OF ok] wire] judges call_ok_resumes [OF ok]
  show ?thesis by (auto simp: tokens_inv_def split: sum.splits)
qed (simp_all add: tokens_inv_def)

lemma tokens_reach:
  assumes "(run_step orch question personas n)\<^sup>*\<^sup>* (Run personas n) s" "or_provider orch = provider"
  shows "list_all (token_ok good) (oc_wire s)"
proof -
  from assms(1) have "tokens_inv good s"
  proof (induction rule: rtranclp_induct)
    case base
    show ?case by (simp add: tokens_inv_def Run_def next_round_def start_round_def)
  next
    case (step s t)
    from tokens_step [OF step.hyps(2) step.IH assms(2)] show ?case .
  qed
  then show ?thesis by (simp add: tokens_inv_def)
qed

end

text \<open>Both providers keep it; the one of z.ai never sends an empty delta.\<close>

lemma read_line_content: "read_line unmarshal text = ContentLine content \<Longrightarrow> content \<noteq> []"
  by (auto simp: read_line_def Let_def split: if_splits option.splits list.splits)

lemma read_lines_ok: "stream_ok (\<lambda>d. d \<noteq> []) (read_lines unmarshal err ls)"
  by (induction ls) (auto simp: delta_event_def failed_event_def dest: read_line_content
      split: option.split sse_line.split)

lemma streamResponse_ok: "stream_ok (\<lambda>d. d \<noteq> []) (streamResponse unmarshal reply)"
  by (cases reply) (auto simp: read_lines_ok failed_event_def split: prod.split)

interpretation zai: stream_provider "zai_stream unmarshal new_request net z cancelled" "\<lambda>d. d \<noteq> []"
  by unfold_locales (auto elim!: zai_stream.cases intro!: stream_ok_take streamResponse_ok)

interpretation fake: stream_provider "fake_stream f cancelled" "\<lambda>d. d \<in> set (fk_Deltas f)"
  by unfold_locales (auto elim!: fake_stream.cases intro!: stream_ok_take stream_ok_deltas
      simp: fake_events_def list_all_iff)
text \<open>So no debate over z.ai sends an empty token, and none over the double a token the double was not
  given.\<close>

lemma zai_sends_no_empty_token:
  assumes "or_provider orch = zai_stream unmarshal new_request net z cancelled"
    and "(run_step orch question personas n)\<^sup>*\<^sup>* (Run personas n) s"
  shows "list_all (token_ok (\<lambda>d. d \<noteq> [])) (oc_wire s)"
  by (rule zai.tokens_reach [OF assms(2,1)])

lemma fake_sends_its_deltas:
  assumes "or_provider orch = fake_stream f cancelled"
    and "(run_step orch question personas n)\<^sup>*\<^sup>* (Run personas n) s"
  shows "list_all (token_ok (\<lambda>d. d \<in> set (fk_Deltas f))) (oc_wire s)"
  by (rule fake.tokens_reach [OF assms(2,1)])

text \<open>Where every server answers every request, somehow, so does the provider, as
  \<open>every_debate_ends\<close> asks of one.\<close>

lemma zai_answers:
  assumes "\<And>hr. \<exists>reply. net hr reply"
  shows "\<exists>reply. zai_stream unmarshal new_request net z cancelled req reply"
proof (cases "new_request (z_baseURL z)")
  case None
  obtain reply where "net (zai_request z req) reply" using assms by blast
  with None zai_stream.responds show ?thesis by blast
qed (auto intro: zai_stream.no_request)

section \<open>The way through server-sent events\<close>

text \<open>An answer as a server streams it: chunks, with any number of choices, and data that is no chunk, each
  as a line of \<open>data\<close> and an empty one; between them other lines, such as comments. \<open>marshal\<close> is the
  server's encoding of a chunk.\<close>

datatype sse_item = Chunk wire_chunk | Malformed string | OtherLine string

fun item_lines :: "(wire_chunk \<Rightarrow> string) \<Rightarrow> sse_item \<Rightarrow> string list" where
  "item_lines marshal (Chunk c) = [''data: '' @ marshal c, []]"
| "item_lines marshal (Malformed d) = [''data: '' @ d, []]"
| "item_lines marshal (OtherLine l) = [l]"

definition sse_text :: "string list \<Rightarrow> string" where
  "sse_text ls = concat (map (\<lambda>l. l @ [CHR 0x0A]) ls)"

definition sse_body :: "(wire_chunk \<Rightarrow> string) \<Rightarrow> sse_item list \<Rightarrow> string" where
  "sse_body marshal items = sse_text (concat (map (item_lines marshal) items))"

text \<open>A line the scanner reads whole, and an item that is what its constructor says.\<close>

definition one_line :: "string \<Rightarrow> bool" where
  "one_line l \<longleftrightarrow> CHR 0x0A \<notin> set l \<and> (l = [] \<or> last l \<noteq> CHR 0x0D) \<and> length l < 1024 * 1024"

fun item_ok :: "(string \<Rightarrow> wire_chunk option) \<Rightarrow> (wire_chunk \<Rightarrow> string) \<Rightarrow> sse_item \<Rightarrow> bool" where
  "item_ok unmarshal marshal (Chunk c) \<longleftrightarrow> one_line (''data: '' @ marshal c) \<and> marshal c \<noteq> ''[DONE]''
     \<and> unmarshal (marshal c) = Some c"
| "item_ok unmarshal marshal (Malformed d) \<longleftrightarrow> one_line (''data: '' @ d) \<and> d \<noteq> ''[DONE]'' \<and> unmarshal d = None"
| "item_ok unmarshal marshal (OtherLine l) \<longleftrightarrow> one_line l \<and> take 6 l \<noteq> ''data: ''"

text \<open>What a reader is to get of an item: the content of its first choice, if there is one.\<close>

fun item_answer :: "sse_item \<Rightarrow> jstr list" where
  "item_answer (Chunk c) = filter (\<lambda>d. d \<noteq> []) (take 1 (wc_Choices c))"
| "item_answer _ = []"

lemma scan_text:
  "list_all one_line ls \<Longrightarrow> scan_lines MAX_LINE (sse_text ls @ rest) =
    (ls @ fst (scan_lines MAX_LINE rest), snd (scan_lines MAX_LINE rest))"
proof (induction ls)
  case (Cons l ls)
  then have l: "CHR 0x0A \<notin> set l" "length l < MAX_LINE" "drop_cr l = l"
    by (auto simp: one_line_def MAX_LINE_def drop_cr_def)
  have "sse_text (l # ls) @ rest = l @ CHR 0x0A # (sse_text ls @ rest)" by (simp add: sse_text_def)
  with scan_lines_line [OF l(1,2), of "sse_text ls @ rest"] Cons l(3) show ?case by simp
qed (simp add: sse_text_def)

lemma items_one_line:
  "list_all (item_ok unmarshal marshal) items \<Longrightarrow> list_all one_line (concat (map (item_lines marshal) items))"
proof (induction items)
  case (Cons i items)
  then show ?case by (cases i) (auto simp: one_line_def)
qed simp

lemma read_line_simps:
  "read_line unmarshal [] = SkipLine"
  "read_line unmarshal ''data: [DONE]'' = DoneLine"
  "take 6 l \<noteq> ''data: '' \<Longrightarrow> read_line unmarshal l = SkipLine"
  by (simp_all add: read_line_def)

lemma read_items:
  "list_all (item_ok unmarshal marshal) items \<Longrightarrow>
   read_lines unmarshal err (concat (map (item_lines marshal) items) @ ls) =
     map delta_event (concat (map item_answer items)) @ read_lines unmarshal err ls"
proof (induction items)
  case (Cons i items)
  show ?case
  proof (cases i)
    case (Chunk c)
    with Cons show ?thesis
      by (cases "wc_Choices c") (auto simp: read_line_simps read_line_def)
  qed (use Cons in \<open>auto simp: read_line_simps read_line_def\<close>)
qed simp

text \<open>C22. What the model's server streams is what the orchestrator reads. The body is any sequence of
  chunks, with any number of choices, of data that does not parse, and of other lines, each line shorter
  than 1 MiB, the limit of the scanner. Then exactly the non-empty contents of the chunks' first choices
  arrive, in order: chunks without a choice or a content, malformed data, comments and empty lines are
  passed over, none of them ends the stream. After \<open>[DONE]\<close> nothing arrives and no error, whatever
  follows; if the body ends without it, at the end of a line, the error that ended it, if one did, comes
  last.\<close>

theorem sse_answer_arrives:
  assumes "list_all (item_ok unmarshal marshal) items"
  shows "streamResponse unmarshal (Reply 200 (sse_body marshal items @ ''data: [DONE]'' @ CHR 0x0A # rest) err) =
      map delta_event (concat (map item_answer items))
    \<and> streamResponse unmarshal (Reply 200 (sse_body marshal items) err) =
      map delta_event (concat (map item_answer items)) @ (case err of None \<Rightarrow> [] | Some e \<Rightarrow> [failed_event e])"
proof
  note lines = items_one_line [OF assms]
  have last: "list_all one_line [''data: [DONE]'']" by (simp add: one_line_def)
  have end_line: "''data: [DONE]'' @ CHR 0x0A # rest = sse_text [''data: [DONE]''] @ rest" by (simp add: sse_text_def)
  show "streamResponse unmarshal (Reply 200 (sse_body marshal items @ ''data: [DONE]'' @ CHR 0x0A # rest) err) =
      map delta_event (concat (map item_answer items))"
    unfolding end_line sse_body_def streamResponse.simps scan_text [OF lines] scan_text [OF last]
    by (simp add: read_items [OF assms] read_line_simps)
  show "streamResponse unmarshal (Reply 200 (sse_body marshal items) err) =
      map delta_event (concat (map item_answer items)) @ (case err of None \<Rightarrow> [] | Some e \<Rightarrow> [failed_event e])"
    using scan_text [OF lines, of "[]"] read_items [OF assms, of err "[]"]
    by (simp add: sse_body_def scan_lines_Nil)
qed

text \<open>An encoding of chunks of at most one choice, for the witness.\<close>

definition plain_chunk :: "wire_chunk \<Rightarrow> string" where
  "plain_chunk c = (case wc_Choices c of [] \<Rightarrow> ''-'' | content # _ \<Rightarrow> CHR ''+'' # map (char_of \<circ> unat) content)"

definition read_chunk :: "string \<Rightarrow> wire_chunk option" where
  "read_chunk d = (if d = ''-'' then Some \<lparr>wc_Choices = []\<rparr>
     else if take 1 d = ''+'' then Some \<lparr>wc_Choices = [js (drop 1 d)]\<rparr> else None)"

theorem sse_answer_arrives_witness:
  "streamResponse read_chunk (Reply 200 (sse_body plain_chunk
       [OtherLine '': ping'', Chunk \<lparr>wc_Choices = [js ''Hel'']\<rparr>, Malformed ''{'', Chunk \<lparr>wc_Choices = []\<rparr>,
        Chunk \<lparr>wc_Choices = [js []]\<rparr>, OtherLine ''event: x'', Chunk \<lparr>wc_Choices = [js ''lo'']\<rparr>]
       @ ''data: [DONE]'' @ CHR 0x0A # ''x'') None) =
   [delta_event (js ''Hel''), delta_event (js ''lo'')]"
proof -
  have chars: "map (char_of \<circ> unat) (js s) = s" for s
    by (simp add: js_def o_def unat_of_char_16)
  have plain: "plain_chunk \<lparr>wc_Choices = [js s]\<rparr> = CHR ''+'' # s" for s by (simp add: plain_chunk_def chars)
  have none: "plain_chunk \<lparr>wc_Choices = []\<rparr> = ''-''" by (simp add: plain_chunk_def)
  have "list_all (item_ok read_chunk plain_chunk)
      [OtherLine '': ping'', Chunk \<lparr>wc_Choices = [js ''Hel'']\<rparr>, Malformed ''{'', Chunk \<lparr>wc_Choices = []\<rparr>,
        Chunk \<lparr>wc_Choices = [js []]\<rparr>, OtherLine ''event: x'', Chunk \<lparr>wc_Choices = [js ''lo'']\<rparr>]"
    by (simp only: list.pred_inject item_ok.simps plain none) (simp add: one_line_def read_chunk_def)
  from sse_answer_arrives [OF this, of "''x''" None]
  have "streamResponse read_chunk (Reply 200 (sse_body plain_chunk
       [OtherLine '': ping'', Chunk \<lparr>wc_Choices = [js ''Hel'']\<rparr>, Malformed ''{'', Chunk \<lparr>wc_Choices = []\<rparr>,
        Chunk \<lparr>wc_Choices = [js []]\<rparr>, OtherLine ''event: x'', Chunk \<lparr>wc_Choices = [js ''lo'']\<rparr>]
       @ ''data: [DONE]'' @ CHR 0x0A # ''x'') None) =
    map delta_event (concat (map item_answer
      [OtherLine '': ping'', Chunk \<lparr>wc_Choices = [js ''Hel'']\<rparr>, Malformed ''{'', Chunk \<lparr>wc_Choices = []\<rparr>,
        Chunk \<lparr>wc_Choices = [js []]\<rparr>, OtherLine ''event: x'', Chunk \<lparr>wc_Choices = [js ''lo'']\<rparr>]))"
    by (rule conjunct1)
  also have "concat (map item_answer
      [OtherLine '': ping'', Chunk \<lparr>wc_Choices = [js ''Hel'']\<rparr>, Malformed ''{'', Chunk \<lparr>wc_Choices = []\<rparr>,
        Chunk \<lparr>wc_Choices = [js []]\<rparr>, OtherLine ''event: x'', Chunk \<lparr>wc_Choices = [js ''lo'']\<rparr>]) = [js ''Hel'', js ''lo'']"
    by (simp add: js_def)
  finally show ?thesis by simp
qed

end
