(* ===== verification/Admission.thy ===== *)
theory Admission
  imports Go_Library
begin

text \<open>
  Who gets a debate: \<open>httpx/clientip.go\<close>, \<open>ratelimit/\<close>, \<open>store/quota.go\<close>, \<open>config/config.go\<close> and the
  limits \<open>cmd/server/main.go\<close> passes on. The HTTP handlers of all clients run concurrently; the server
  is a step relation whose steps are their critical sections: one call of the limiter, one statement of
  the store, one operation on the semaphore.

  The token bucket is \<open>golang.org/x/time/rate\<close>, not part of the source: the record \<open>rate_package\<close> is a
  parameter and \<open>rate_documented\<close> its documentation. Times are seconds of the monotonic clock.
\<close>

section \<open>The client's address\<close>

record http_origin =
  rq_RemoteAddr :: "nat list"
  rq_XForwardedFor :: "nat list"

definition unknownIP :: "nat list" where
  "unknownIP = runes ''unknown''"

definition extractFFIP :: "http_origin \<Rightarrow> nat list" where
  "extractFFIP r =
    (let xff = rq_XForwardedFor r in
     if xff = [] then []
     else let firstIP = go_TrimSpace (hd (go_split (of_char (CHR '','')) xff)) in
     if \<not> ParseIP_ok firstIP then [] else firstIP)"

definition ClientIP :: "http_origin \<Rightarrow> bool \<Rightarrow> nat list" where
  "ClientIP r trustProxy =
    (if trustProxy \<and> extractFFIP r \<noteq> [] then extractFFIP r
     else let rawAddr = go_TrimSpace (rq_RemoteAddr r) in
     if rawAddr = [] then unknownIP
     else case SplitHostPort rawAddr of
       Some host \<Rightarrow> if host \<noteq> [] then host else rawAddr
     | None \<Rightarrow> rawAddr)"

section \<open>The limiter\<close>

record 'l rate_package =
  NewLimiter :: "real \<Rightarrow> int \<Rightarrow> 'l"
  AllowN :: "'l \<Rightarrow> real \<Rightarrow> int \<Rightarrow> bool \<times> 'l"
  TokensAt :: "'l \<Rightarrow> real \<Rightarrow> real"

record 'l ip_entry =
  ie_lim :: 'l
  ie_lastSeen :: real

record 'l limiter =
  li_ips :: "nat list \<Rightarrow> 'l ip_entry option"
  li_rps :: real
  li_burst :: int
  li_ttl :: real

definition new_limiter :: "real \<Rightarrow> int \<Rightarrow> real \<Rightarrow> 'l limiter" where
  "new_limiter rps burst ttl = \<lparr>li_ips = Map.empty, li_rps = rps, li_burst = burst, li_ttl = ttl\<rparr>"

definition Allow :: "'l rate_package \<Rightarrow> real \<Rightarrow> nat list \<Rightarrow> 'l limiter \<Rightarrow> bool \<times> 'l limiter" where
  "Allow pkg now ip l =
    (let e = (case li_ips l ip of
           None \<Rightarrow> \<lparr>ie_lim = NewLimiter pkg (li_rps l) (li_burst l), ie_lastSeen = now\<rparr>
         | Some e \<Rightarrow> e\<lparr>ie_lastSeen := now\<rparr>);
         (ok, lm) = AllowN pkg (ie_lim e) now 1
     in (ok, l\<lparr>li_ips := (li_ips l)(ip \<mapsto> e\<lparr>ie_lim := lm\<rparr>)\<rparr>))"

definition sweep :: "real \<Rightarrow> 'l limiter \<Rightarrow> 'l limiter" where
  "sweep now l = l\<lparr>li_ips := (\<lambda>ip. case li_ips l ip of
      None \<Rightarrow> None
    | Some e \<Rightarrow> if now - ie_lastSeen e \<ge> li_ttl l then None else Some e)\<rparr>"

section \<open>The daily quota\<close>

text \<open>The table \<open>daily_usage\<close>, and its one statement.\<close>

type_synonym usage = "nat list \<times> string \<Rightarrow> nat option"

definition upsertUsage :: "nat list \<Rightarrow> string \<Rightarrow> usage \<Rightarrow> nat \<times> usage" where
  "upsertUsage ip day u =
    (let count = (case u (ip, day) of None \<Rightarrow> 1 | Some c \<Rightarrow> c + 1) in (count, u((ip, day) \<mapsto> count)))"

text \<open>What the database makes of a statement: it is carried out; or there is an error, before or after
  the row was written.\<close>

datatype db_outcome = DbDone | DbError bool

definition CheckAndIncrement :: "db_outcome \<Rightarrow> nat list \<Rightarrow> string \<Rightarrow> int \<Rightarrow> usage \<Rightarrow> bool option \<times> usage" where
  "CheckAndIncrement db ip day limit u =
    (case upsertUsage ip day u of (count, u') \<Rightarrow>
      (case db of
         DbDone \<Rightarrow> (Some (int count \<le> limit), u')
       | DbError written \<Rightarrow> (None, if written then u' else u)))"

section \<open>The middleware\<close>

text \<open>Where a request is in the handler: before each of the three guards, in \<open>next\<close>, or done.\<close>

datatype stage = AtLimiter | AtQuota | AtSemaphore | InNext | Rejected nat string | Finished

record handling =
  hg_ip :: "nat list"
  hg_day :: string
  hg_stage :: stage

record 'l server =
  sv_limiter :: "'l limiter"
  sv_usage :: usage
  sv_slots :: nat
  sv_requests :: "handling list"

record gate_config =
  gc_sem :: nat
  gc_dailyLimit :: int
  gc_trustProxy :: bool

definition set_stage :: "nat \<Rightarrow> stage \<Rightarrow> 'l server \<Rightarrow> 'l server" where
  "set_stage i st s = s\<lparr>sv_requests := (sv_requests s)[i := (sv_requests s ! i)\<lparr>hg_stage := st\<rparr>]\<rparr>"

definition limiter_guard :: "'l rate_package \<Rightarrow> real \<Rightarrow> nat \<Rightarrow> 'l server \<Rightarrow> 'l server" where
  "limiter_guard pkg now i s =
    (case Allow pkg now (hg_ip (sv_requests s ! i)) (sv_limiter s) of (ok, l) \<Rightarrow>
      set_stage i (if ok then AtQuota else Rejected 429 ''rate limit exceeded'') (s\<lparr>sv_limiter := l\<rparr>))"

definition quota_guard :: "gate_config \<Rightarrow> db_outcome \<Rightarrow> string \<Rightarrow> nat \<Rightarrow> 'l server \<Rightarrow> 'l server" where
  "quota_guard g db day i s =
    (case CheckAndIncrement db (hg_ip (sv_requests s ! i)) day (gc_dailyLimit g) (sv_usage s) of (allowed, u) \<Rightarrow>
      set_stage i
        (case allowed of
           None \<Rightarrow> Rejected 503 ''quota check failed''
         | Some ok \<Rightarrow> if ok then AtSemaphore else Rejected 429 ''daily limit reached'')
        (s\<lparr>sv_usage := u, sv_requests := (sv_requests s)[i := (sv_requests s ! i)\<lparr>hg_day := day\<rparr>]\<rparr>))"

definition semaphore_guard :: "gate_config \<Rightarrow> nat \<Rightarrow> 'l server \<Rightarrow> 'l server" where
  "semaphore_guard g i s =
    (if sv_slots s < gc_sem g then set_stage i InNext (s\<lparr>sv_slots := sv_slots s + 1\<rparr>)
     else set_stage i (Rejected 503 ''server busy, try again shortly'') s)"

definition release :: "nat \<Rightarrow> 'l server \<Rightarrow> 'l server" where
  "release i s = set_stage i Finished (s\<lparr>sv_slots := sv_slots s - 1\<rparr>)"

inductive guard_step :: "'l rate_package \<Rightarrow> gate_config \<Rightarrow> 'l server \<Rightarrow> 'l server \<Rightarrow> bool"
  for pkg g where
  limits: "i < length (sv_requests s) \<Longrightarrow> hg_stage (sv_requests s ! i) = AtLimiter \<Longrightarrow>
    guard_step pkg g s (limiter_guard pkg now i s)"
| counts: "i < length (sv_requests s) \<Longrightarrow> hg_stage (sv_requests s ! i) = AtQuota \<Longrightarrow>
    guard_step pkg g s (quota_guard g db day i s)"
| acquires: "i < length (sv_requests s) \<Longrightarrow> hg_stage (sv_requests s ! i) = AtSemaphore \<Longrightarrow>
    guard_step pkg g s (semaphore_guard g i s)"

definition arrival :: "gate_config \<Rightarrow> http_origin \<Rightarrow> 'l server \<Rightarrow> 'l server" where
  "arrival g r s = s\<lparr>sv_requests := sv_requests s @
     [\<lparr>hg_ip = ClientIP r (gc_trustProxy g), hg_day = '''', hg_stage = AtLimiter\<rparr>]\<rparr>"

inductive server_step :: "'l rate_package \<Rightarrow> gate_config \<Rightarrow> 'l server \<Rightarrow> 'l server \<Rightarrow> bool"
  for pkg g where
  arrives: "server_step pkg g s (arrival g r s)"
| guards: "guard_step pkg g s t \<Longrightarrow> server_step pkg g s t"
| returns: "i < length (sv_requests s) \<Longrightarrow> hg_stage (sv_requests s ! i) = InNext \<Longrightarrow>
    server_step pkg g s (release i s)"
| sweeps: "server_step pkg g s (s\<lparr>sv_limiter := sweep now (sv_limiter s)\<rparr>)"

definition start_server :: "'l limiter \<Rightarrow> usage \<Rightarrow> 'l server" where
  "start_server l u = \<lparr>sv_limiter = l, sv_usage = u, sv_slots = 0, sv_requests = []\<rparr>"

section \<open>The configuration\<close>

text \<open>The parsers of \<open>strconv\<close> and \<open>time\<close>, \<open>None\<close> where they fail; a duration is in nanoseconds. An
  error is the key it is about.\<close>

record parsers =
  ps_Atoi :: "string \<Rightarrow> int option"
  ps_ParseFloat :: "string \<Rightarrow> jsnum option"
  ps_ParseDuration :: "string \<Rightarrow> int option"
  ps_ParseBool :: "string \<Rightarrow> bool option"

datatype config_error = Required string | InvalidValue string | OutOfRange string

record config =
  cf_Addr :: string
  cf_AllowedOrigins :: "nat list list"
  cf_ZaiAPIKey :: string
  cf_LlmModel :: string
  cf_RateLimitRPS :: jsnum
  cf_RateLimitBurst :: int
  cf_RateLimitTTL :: int
  cf_RateLimitSweepEvery :: int
  cf_MaxConcurrentSessions :: int
  cf_DailyQuota :: int
  cf_DBPath :: string
  cf_TrustProxy :: bool

definition orDefault :: "string \<Rightarrow> string \<Rightarrow> string" where
  "orDefault v fallback = (if v = '''' then fallback else v)"

definition env_value :: "(string \<Rightarrow> string) \<Rightarrow> (string \<Rightarrow> 'a option) \<Rightarrow> string \<Rightarrow> 'a \<Rightarrow> config_error + 'a" where
  "env_value env parse key def =
    (if env key = '''' then Inr def else case parse (env key) of None \<Rightarrow> Inl (InvalidValue key) | Some v \<Rightarrow> Inr v)"

definition checked :: "('a \<Rightarrow> bool) \<Rightarrow> string \<Rightarrow> config_error + 'a \<Rightarrow> config_error + 'a" where
  "checked bad key r = (case r of Inl e \<Rightarrow> Inl e | Inr v \<Rightarrow> if bad v then Inl (OutOfRange key) else Inr v)"

definition and_then :: "'e + 'a \<Rightarrow> ('a \<Rightarrow> 'e + 'b) \<Rightarrow> 'e + 'b" where
  "and_then r f = (case r of Inl e \<Rightarrow> Inl e | Inr v \<Rightarrow> f v)"

definition float_le :: "jsnum \<Rightarrow> jsnum \<Rightarrow> bool" where
  "float_le a b \<longleftrightarrow> js_lt a b \<or> js_num_eq a b"

definition parseOrigins :: "nat list \<Rightarrow> nat list list" where
  "parseOrigins raw =
    (if raw = [] then [runes ''localhost:5173'']
     else filter (\<lambda>part. part \<noteq> []) (map go_TrimSpace (go_split (of_char (CHR '','')) raw)))"

definition SECOND :: int where "SECOND = 1000000000"

definition Load :: "parsers \<Rightarrow> (string \<Rightarrow> string) \<Rightarrow> config_error + config" where
  "Load ps env =
    (if env ''ZAI_API_KEY'' = '''' then Inl (Required ''ZAI_API_KEY'')
     else
     and_then (checked (\<lambda>v. float_le v (JNum 0)) ''RATE_LIMIT_RPS''
       (env_value env (ps_ParseFloat ps) ''RATE_LIMIT_RPS'' (JNum 1))) (\<lambda>rps.
     and_then (checked (\<lambda>v. v < 1) ''RATE_LIMIT_BURST'' (env_value env (ps_Atoi ps) ''RATE_LIMIT_BURST'' 3)) (\<lambda>burst.
     and_then (checked (\<lambda>v. v \<le> 0) ''RATE_LIMIT_TTL''
       (env_value env (ps_ParseDuration ps) ''RATE_LIMIT_TTL'' (10 * 60 * SECOND))) (\<lambda>ttl.
     and_then (checked (\<lambda>v. v \<le> 0) ''RATE_LIMIT_SWEEP''
       (env_value env (ps_ParseDuration ps) ''RATE_LIMIT_SWEEP'' (60 * SECOND))) (\<lambda>sweep_every.
     and_then (checked (\<lambda>v. v < 1) ''MAX_CONCURRENT_SESSIONS''
       (env_value env (ps_Atoi ps) ''MAX_CONCURRENT_SESSIONS'' 6)) (\<lambda>maxSessions.
     and_then (checked (\<lambda>v. v < 1) ''DAILY_QUOTA'' (env_value env (ps_Atoi ps) ''DAILY_QUOTA'' 20)) (\<lambda>quota.
     and_then (env_value env (ps_ParseBool ps) ''TRUST_PROXY'' False) (\<lambda>trustProxy.
       Inr \<lparr>cf_Addr = orDefault (env ''BACKEND_ADDR'') '':8080'',
            cf_AllowedOrigins = parseOrigins (runes (env ''FRONTEND_ORIGINS'')),
            cf_ZaiAPIKey = env ''ZAI_API_KEY'', cf_LlmModel = orDefault (env ''LLM_MODEL'') ''glm-4.7'',
            cf_RateLimitRPS = rps, cf_RateLimitBurst = burst, cf_RateLimitTTL = ttl,
            cf_RateLimitSweepEvery = sweep_every, cf_MaxConcurrentSessions = maxSessions,
            cf_DailyQuota = quota, cf_DBPath = orDefault (env ''DB_PATH'') ''./council.db'',
            cf_TrustProxy = trustProxy\<rparr>))))))))"

text \<open>What \<open>main\<close> makes of it: the guards of the middleware, and the orchestrator's pool.\<close>

definition main_gate :: "config \<Rightarrow> gate_config" where
  "main_gate cfg = \<lparr>gc_sem = nat (cf_MaxConcurrentSessions cfg), gc_dailyLimit = cf_DailyQuota cfg,
     gc_trustProxy = cf_TrustProxy cfg\<rparr>"

lemma and_then_Inr: "and_then r f = Inr c \<longleftrightarrow> (\<exists>v. r = Inr v \<and> f v = Inr c)"
  by (cases r) (auto simp: and_then_def)

lemma checked_Inr: "checked bad key r = Inr v \<longleftrightarrow> r = Inr v \<and> \<not> bad v"
  by (cases r) (auto simp: checked_def)

text \<open>A configuration that loads is one the services can work with. A rate that is no number passes,
  though: NaN is not less than or equal to anything.\<close>

lemma config_is_sane:
  assumes "Load ps env = Inr cfg"
  shows "cf_ZaiAPIKey cfg \<noteq> '''' \<and> \<not> float_le (cf_RateLimitRPS cfg) (JNum 0) \<and> 1 \<le> cf_RateLimitBurst cfg \<and>
    0 < cf_RateLimitTTL cfg \<and> 0 < cf_RateLimitSweepEvery cfg \<and> 1 \<le> cf_MaxConcurrentSessions cfg \<and>
    1 \<le> cf_DailyQuota cfg \<and> cf_Addr cfg \<noteq> '''' \<and> cf_LlmModel cfg \<noteq> '''' \<and> cf_DBPath cfg \<noteq> ''''"
  using assms by (clarsimp simp: Load_def and_then_Inr checked_Inr orDefault_def split: if_split_asm)

lemma nan_rate_is_accepted:
  assumes "ps_ParseFloat ps ''NaN'' = Some JNaN"
  shows "\<exists>cfg. Load ps ((\<lambda>_. '''')(''ZAI_API_KEY'' := ''k'', ''RATE_LIMIT_RPS'' := ''NaN'')) = Inr cfg
    \<and> cf_RateLimitRPS cfg = JNaN"
  using assms
  by (simp add: Load_def and_then_def checked_def env_value_def float_le_def js_num_eq_def SECOND_def)

section \<open>The client's address: properties\<close>

text \<open>Every client has an address to be counted under; the header has a say only behind a trusted
  proxy, and only with a literal address.\<close>

lemma unknownIP_not_Nil: "unknownIP \<noteq> []"
  by (simp add: unknownIP_def runes_def)

lemma ClientIP_not_Nil: "ClientIP r trustProxy \<noteq> []"
  by (auto simp: ClientIP_def Let_def unknownIP_not_Nil split: option.split)

lemma header_needs_trust: "ClientIP \<lparr>rq_RemoteAddr = a, rq_XForwardedFor = h\<rparr> False = ClientIP \<lparr>rq_RemoteAddr = a, rq_XForwardedFor = h'\<rparr> False"
  by (simp add: ClientIP_def)

lemma header_is_an_address:
  "ClientIP r True = ClientIP r False \<or> ParseIP_ok (ClientIP r True)"
  by (auto simp: ClientIP_def extractFFIP_def Let_def split: if_splits)

text \<open>The port of a connection is not part of the address.\<close>

lemma trim_by_id: "s \<noteq> [] \<Longrightarrow> \<not> sp (hd s) \<Longrightarrow> \<not> sp (last s) \<Longrightarrow> trim_by sp s = s"
  by (simp add: trim_by_def dropWhile_eq_self_iff [THEN iffD2] hd_rev)

lemma SplitHostPort_plain:
  assumes "set host \<inter> {58, 91, 93} = {}" "set port \<inter> {58, 91, 93} = {}"
  shows "SplitHostPort (host @ 58 # port) = Some host"
proof -
  have "takeWhile (\<lambda>c. c \<noteq> 58) (rev (host @ 58 # port)) = rev port"
    using assms(2) by (simp add: takeWhile_append2 takeWhile_tail) (auto simp: takeWhile_append)
  then show ?thesis
    using assms by (cases host) (auto simp: SplitHostPort_def Let_def)
qed

lemma ClientIP_ignores_the_port:
  assumes "set host \<inter> {58, 91, 93} = {}" "set port \<inter> {58, 91, 93} = {}"
    and "host \<noteq> []" "\<not> go_is_space (hd host)" "port \<noteq> []" "\<not> go_is_space (last port)"
  shows "ClientIP \<lparr>rq_RemoteAddr = host @ 58 # port, rq_XForwardedFor = h\<rparr> False = host"
proof -
  have "go_TrimSpace (host @ 58 # port) = host @ 58 # port"
    using assms(3-6) by (simp add: go_TrimSpace_def trim_by_id)
  with assms SplitHostPort_plain [OF assms(1,2)] show ?thesis by (simp add: ClientIP_def)
qed

end
