(* ===== verification/Admission_Control.thy ===== *)
theory Admission_Control
  imports Admission
begin

text \<open>
  What the guards before a debate guarantee: the capacity of the server and the daily quota of a
  client under every interleaving of the handlers, and the rate of one client over any window of
  time, evictions included.
\<close>

section \<open>Counting handlers\<close>

lemma length_filter_update:
  assumes "i < length xs"
  shows "length (filter P (xs[i := x])) + (if P (xs ! i) then 1 else 0) =
    length (filter P xs) + (if P x then 1 else (0::nat))"
proof -
  have "filter P xs = filter P (take i xs) @ filter P [xs ! i] @ filter P (drop (Suc i) xs)"
    by (metis assms filter_append id_take_nth_drop append_Cons append_Nil)
  moreover have "filter P (xs[i := x]) = filter P (take i xs) @ filter P [x] @ filter P (drop (Suc i) xs)"
    by (metis assms filter_append upd_conv_take_nth_drop append_Cons append_Nil)
  ultimately show ?thesis by simp
qed

definition in_next :: "handling \<Rightarrow> bool" where
  "in_next h \<longleftrightarrow> hg_stage h = InNext"

definition within_quota :: "nat list \<Rightarrow> string \<Rightarrow> handling \<Rightarrow> bool" where
  "within_quota ip day h \<longleftrightarrow> hg_ip h = ip \<and> hg_day h = day \<and> hg_stage h \<in> {AtSemaphore, InNext, Finished}"

definition served :: "nat list \<Rightarrow> string \<Rightarrow> handling \<Rightarrow> bool" where
  "served ip day h \<longleftrightarrow> hg_ip h = ip \<and> hg_day h = day \<and> hg_stage h \<in> {InNext, Finished}"

definition used :: "usage \<Rightarrow> nat list \<Rightarrow> string \<Rightarrow> nat" where
  "used u ip day = (case u (ip, day) of None \<Rightarrow> 0 | Some c \<Rightarrow> c)"

lemma served_le: "length (filter (served ip day) hs) \<le> length (filter (within_quota ip day) hs)"
  by (induction hs) (auto simp: served_def within_quota_def)

lemma used_upsert:
  "upsertUsage ip day u = (count, u') \<Longrightarrow>
   count = used u ip day + 1 \<and> used u' ip' day' = (if ip' = ip \<and> day' = day then count else used u ip' day')"
  by (auto simp: upsertUsage_def used_def Let_def split: option.splits)

section \<open>Capacity and quota\<close>

definition admission_inv :: "gate_config \<Rightarrow> usage \<Rightarrow> 'l server \<Rightarrow> bool" where
  "admission_inv g u0 s \<longleftrightarrow>
    sv_slots s = length (filter in_next (sv_requests s)) \<and> sv_slots s \<le> gc_sem g \<and>
    (\<forall>ip day. length (filter (within_quota ip day) (sv_requests s)) + used u0 ip day \<le> used (sv_usage s) ip day \<and>
      length (filter (within_quota ip day) (sv_requests s)) \<le> nat (gc_dailyLimit g) - used u0 ip day)"

lemma admission_inv_keep:
  assumes "admission_inv g u0 s" "i < length (sv_requests s)" "sv_requests s' = (sv_requests s)[i := h]"
    and "\<not> in_next (sv_requests s ! i)" "\<not> in_next h"
    and "\<And>ip day. within_quota ip day h \<Longrightarrow> within_quota ip day (sv_requests s ! i)"
    and "sv_slots s' = sv_slots s" "\<And>ip day. used (sv_usage s) ip day \<le> used (sv_usage s') ip day"
  shows "admission_inv g u0 s'"
proof -
  have less: "length (filter (within_quota ip day) (sv_requests s')) \<le> length (filter (within_quota ip day) (sv_requests s))"
    for ip day
    using length_filter_update [OF assms(2), of "within_quota ip day" h] assms(6) [of ip day] assms(3)
    by (auto split: if_splits)
  have "length (filter in_next (sv_requests s')) = length (filter in_next (sv_requests s))"
    using length_filter_update [OF assms(2), of in_next h] assms(3-5) by simp
  with assms(1,7,8) less show ?thesis
    unfolding admission_inv_def by (metis (no_types, lifting) add_le_mono1 le_trans)
qed

lemma admission_inv_limits:
  assumes "admission_inv g u0 s" "i < length (sv_requests s)" "hg_stage (sv_requests s ! i) = AtLimiter"
  shows "admission_inv g u0 (limiter_guard pkg now i s)"
  using assms
  by (cases "Allow pkg now (hg_ip (sv_requests s ! i)) (sv_limiter s)")
    (rule admission_inv_keep [OF assms(1,2)],
     auto simp: limiter_guard_def set_stage_def in_next_def within_quota_def split: if_splits)

lemma quota_guard_requests:
  "sv_slots (quota_guard g db day i s) = sv_slots s"
  "sv_usage (quota_guard g db day i s) = snd (CheckAndIncrement db (hg_ip (sv_requests s ! i)) day (gc_dailyLimit g) (sv_usage s))"
  "i < length (sv_requests s) \<Longrightarrow> sv_requests (quota_guard g db day i s) = (sv_requests s)[i := (sv_requests s ! i)\<lparr>hg_day := day,
     hg_stage := (case fst (CheckAndIncrement db (hg_ip (sv_requests s ! i)) day (gc_dailyLimit g) (sv_usage s)) of
           None \<Rightarrow> Rejected 503 ''quota check failed''
         | Some ok \<Rightarrow> if ok then AtSemaphore else Rejected 429 ''daily limit reached'')\<rparr>]"
  by (simp_all add: quota_guard_def set_stage_def split: prod.split)

lemma CheckAndIncrement_used:
  "used u ip' day' \<le> used (snd (CheckAndIncrement db ip day limit u)) ip' day'"
  using used_upsert [of ip day u "fst (upsertUsage ip day u)" "snd (upsertUsage ip day u)"]
  by (auto simp: CheckAndIncrement_def split: prod.splits db_outcome.splits)

lemma CheckAndIncrement_allows:
  assumes "fst (CheckAndIncrement db ip day limit u) = Some True"
  shows "used (snd (CheckAndIncrement db ip day limit u)) ip' day' =
      used u ip' day' + (if ip' = ip \<and> day' = day then 1 else 0)"
    "int (used u ip day) < limit"
  using assms used_upsert [of ip day u "fst (upsertUsage ip day u)" "snd (upsertUsage ip day u)"]
  by (auto simp: CheckAndIncrement_def split: prod.splits db_outcome.splits)

lemma admission_inv_counts:
  assumes "admission_inv g u0 s" "i < length (sv_requests s)" "hg_stage (sv_requests s ! i) = AtQuota"
  shows "admission_inv g u0 (quota_guard g db day i s)"
proof (cases "fst (CheckAndIncrement db (hg_ip (sv_requests s ! i)) day (gc_dailyLimit g) (sv_usage s)) = Some True")
  case False
  let ?r = "fst (CheckAndIncrement db (hg_ip (sv_requests s ! i)) day (gc_dailyLimit g) (sv_usage s))"
  from False have "\<exists>st msg. (case ?r of None \<Rightarrow> Rejected 503 ''quota check failed''
         | Some ok \<Rightarrow> if ok then AtSemaphore else Rejected 429 ''daily limit reached'') = Rejected st msg"
    by (auto split: option.split)
  then show ?thesis
    using assms(3)
    by (intro admission_inv_keep [OF assms(1,2) quota_guard_requests(3) [OF assms(2)]])
      (auto simp: quota_guard_requests in_next_def within_quota_def CheckAndIncrement_used)
next
  case True
  let ?h = "sv_requests s ! i"
  let ?s' = "quota_guard g db day i s"
  let ?h' = "?h\<lparr>hg_day := day, hg_stage := AtSemaphore\<rparr>"
  note allows = CheckAndIncrement_allows [OF True]
  have reqs: "sv_requests ?s' = (sv_requests s)[i := ?h']"
    using True assms(2) by (simp add: quota_guard_requests)
  have slots: "length (filter in_next (sv_requests ?s')) = length (filter in_next (sv_requests s))"
    using length_filter_update [OF assms(2), of in_next ?h'] assms(3) by (simp add: reqs in_next_def)
  have more: "length (filter (within_quota ip d) (sv_requests ?s')) =
      length (filter (within_quota ip d) (sv_requests s)) + (if ip = hg_ip ?h \<and> d = day then 1 else 0)" for ip d
    using length_filter_update [OF assms(2), of "within_quota ip d" ?h'] assms(3) by (auto simp: reqs within_quota_def)
  have counted: "used (sv_usage ?s') ip d = used (sv_usage s) ip d + (if ip = hg_ip ?h \<and> d = day then 1 else 0)" for ip d
    by (simp add: quota_guard_requests(2) allows(1))
  have old: "length (filter (within_quota ip d) (sv_requests s)) + used u0 ip d \<le> used (sv_usage s) ip d"
    "length (filter (within_quota ip d) (sv_requests s)) \<le> nat (gc_dailyLimit g) - used u0 ip d" for ip d
    using assms(1) by (simp_all add: admission_inv_def)
  have "length (filter (within_quota ip d) (sv_requests ?s')) \<le> nat (gc_dailyLimit g) - used u0 ip d" for ip d
    using old(2) [of ip d] old(1) [of "hg_ip ?h" day] allows(2) by (auto simp: more)
  moreover have "length (filter (within_quota ip d) (sv_requests ?s')) + used u0 ip d \<le> used (sv_usage ?s') ip d" for ip d
    using old(1) [of ip d] unfolding more counted by simp
  ultimately show ?thesis
    using assms(1) slots by (simp add: admission_inv_def quota_guard_requests(1))
qed

lemma admission_inv_acquires:
  assumes "admission_inv g u0 s" "i < length (sv_requests s)" "hg_stage (sv_requests s ! i) = AtSemaphore"
  shows "admission_inv g u0 (semaphore_guard g i s)"
proof (cases "sv_slots s < gc_sem g")
  case False
  with assms show ?thesis
    by (intro admission_inv_keep [OF assms(1,2),
          where h = "(sv_requests s ! i)\<lparr>hg_stage := Rejected 503 ''server busy, try again shortly''\<rparr>"])
      (auto simp: semaphore_guard_def set_stage_def in_next_def within_quota_def)
next
  case True
  let ?h = "(sv_requests s ! i)\<lparr>hg_stage := InNext\<rparr>"
  have "length (filter (within_quota ip d) ((sv_requests s)[i := ?h])) = length (filter (within_quota ip d) (sv_requests s))"
    for ip d
    using length_filter_update [OF assms(2), of "within_quota ip d" ?h] assms(3) by (auto simp: within_quota_def split: if_splits)
  moreover have "length (filter in_next ((sv_requests s)[i := ?h])) = length (filter in_next (sv_requests s)) + 1"
    using length_filter_update [OF assms(2), of in_next ?h] assms(3) by (simp add: in_next_def)
  ultimately show ?thesis
    using assms(1) True by (simp add: admission_inv_def semaphore_guard_def set_stage_def)
qed

lemma admission_inv_returns:
  assumes "admission_inv g u0 s" "i < length (sv_requests s)" "hg_stage (sv_requests s ! i) = InNext"
  shows "admission_inv g u0 (release i s)"
proof -
  let ?h = "(sv_requests s ! i)\<lparr>hg_stage := Finished\<rparr>"
  have "length (filter (within_quota ip d) ((sv_requests s)[i := ?h])) = length (filter (within_quota ip d) (sv_requests s))"
    for ip d
    using length_filter_update [OF assms(2), of "within_quota ip d" ?h] assms(3) by (auto simp: within_quota_def split: if_splits)
  moreover have "length (filter in_next ((sv_requests s)[i := ?h])) + 1 = length (filter in_next (sv_requests s))"
    using length_filter_update [OF assms(2), of in_next ?h] assms(3) by (simp add: in_next_def)
  ultimately show ?thesis
    using assms(1) by (simp add: admission_inv_def release_def set_stage_def) linarith
qed

lemma admission_inv_guard:
  assumes "guard_step pkg g s t" "admission_inv g u0 s"
  shows "admission_inv g u0 t"
  using assms(1)
  by cases (auto intro: assms(2) admission_inv_limits admission_inv_counts admission_inv_acquires)

lemma admission_inv_step:
  assumes "server_step pkg g s t" "admission_inv g u0 s"
  shows "admission_inv g u0 t"
  using assms(1)
proof cases
  case (arrives r)
  with assms(2) show ?thesis by (simp add: admission_inv_def arrival_def in_next_def within_quota_def)
next
  case (sweeps now)
  with assms(2) show ?thesis by (simp add: admission_inv_def)
qed (auto intro: assms(2) admission_inv_guard admission_inv_returns)

interpretation gate: step_system "server_step pkg g" "admission_inv g u0"
  by unfold_locales (rule admission_inv_step)

lemma admission_inv_start: "admission_inv g u (start_server l u)"
  by (simp add: admission_inv_def start_server_def)

text \<open>Every handler is a few steps from its answer, as long as \<open>next\<close> returns; then no slot is taken.\<close>

fun steps_left :: "stage \<Rightarrow> nat" where
  "steps_left AtLimiter = 4"
| "steps_left AtQuota = 3"
| "steps_left AtSemaphore = 2"
| "steps_left InNext = 1"
| "steps_left _ = 0"

definition server_work :: "'l server \<Rightarrow> nat" where
  "server_work s = sum_list (map (steps_left \<circ> hg_stage) (sv_requests s))"

lemma server_work_update:
  assumes "i < length (sv_requests s)" "sv_requests t = (sv_requests s)[i := h]"
    and "steps_left (hg_stage h) < steps_left (hg_stage (sv_requests s ! i))"
  shows "server_work t < server_work s"
proof -
  let ?w = "map (steps_left \<circ> hg_stage) (sv_requests s)"
  have "server_work t = sum_list ?w + steps_left (hg_stage h) - ?w ! i"
    using assms(1,2) by (simp add: server_work_def map_update sum_list_update)
  moreover have "?w ! i \<le> sum_list ?w"
    using assms(1) by (intro elem_le_sum_list) simp
  ultimately show ?thesis using assms(1,3) by (simp add: server_work_def)
qed

lemma server_progress:
  assumes "i < length (sv_requests s)" "steps_left (hg_stage (sv_requests s ! i)) \<noteq> 0"
  shows "\<exists>t. server_step pkg g s t \<and> server_work t < server_work s"
proof (cases "hg_stage (sv_requests s ! i)")
  case AtLimiter
  have "server_work (limiter_guard pkg now i s) < server_work s" for now
    by (cases "Allow pkg now (hg_ip (sv_requests s ! i)) (sv_limiter s)")
      (rule server_work_update [OF assms(1)], auto simp: AtLimiter limiter_guard_def set_stage_def)
  with server_step.guards [OF guard_step.limits [OF assms(1) AtLimiter]] show ?thesis by blast
next
  case AtQuota
  have "server_work (quota_guard g db day i s) < server_work s" for db day
    by (rule server_work_update [OF assms(1) quota_guard_requests(3) [OF assms(1)]])
      (auto simp: AtQuota split: option.split)
  with server_step.guards [OF guard_step.counts [OF assms(1) AtQuota]] show ?thesis by blast
next
  case AtSemaphore
  have "server_work (semaphore_guard g i s) < server_work s"
    by (rule server_work_update [OF assms(1), where h = "(sv_requests s ! i)\<lparr>hg_stage :=
          if sv_slots s < gc_sem g then InNext else Rejected 503 ''server busy, try again shortly''\<rparr>"])
      (auto simp: AtSemaphore semaphore_guard_def set_stage_def)
  with server_step.guards [OF guard_step.acquires [OF assms(1) AtSemaphore]] show ?thesis by blast
next
  case InNext
  have "server_work (release i s) < server_work s"
    by (rule server_work_update [OF assms(1)]) (auto simp: InNext release_def set_stage_def)
  with server_step.returns [OF assms(1) InNext] show ?thesis by blast
qed (use assms(2) in auto)

definition all_answered :: "'l server \<Rightarrow> bool" where
  "all_answered s \<longleftrightarrow> (\<forall>h\<in>set (sv_requests s). steps_left (hg_stage h) = 0)"

lemma server_comes_to_rest:
  assumes "(server_step pkg g)\<^sup>*\<^sup>* (start_server l u) s"
  shows "\<exists>t. (server_step pkg g)\<^sup>*\<^sup>* s t \<and> all_answered t \<and> sv_slots t = 0"
proof -
  note inv = gate.inv_reach [OF assms admission_inv_start]
  have "\<exists>t. server_step pkg g s t \<and> (server_work t, server_work s) \<in> less_than" if "\<not> all_answered s" for s :: "'a server"
    using that server_progress [of _ s pkg g] by (auto simp: all_answered_def in_set_conv_nth)
  from gate.comes_to_rest [OF wf_less_than inv, where m = server_work and rest = all_answered, OF this]
  obtain t where t: "(server_step pkg g)\<^sup>*\<^sup>* s t" "admission_inv g u t" "all_answered t" by blast
  from t(3) have "filter in_next (sv_requests t) = []"
    by (auto simp: all_answered_def in_next_def filter_empty_conv)
  with t show ?thesis by (auto simp: admission_inv_def)
qed

section \<open>The rate of one client\<close>

text \<open>A limiter of the package: made for a rate and a burst, and last asked at a time. It is a bucket that
  is full at first and is refilled at the rate.\<close>

inductive bucket :: "'l rate_package \<Rightarrow> real \<Rightarrow> int \<Rightarrow> 'l \<Rightarrow> real \<Rightarrow> bool" for pkg rps burst where
  fresh: "bucket pkg rps burst (NewLimiter pkg rps burst) now"
| asked: "bucket pkg rps burst lm t \<Longrightarrow> t \<le> now \<Longrightarrow> bucket pkg rps burst (snd (AllowN pkg lm now 1)) now"

definition rate_documented :: "'l rate_package \<Rightarrow> bool" where
  "rate_documented pkg \<longleftrightarrow> (\<forall>rps burst. 0 < rps \<and> 0 \<le> burst \<longrightarrow>
    (\<forall>t. TokensAt pkg (NewLimiter pkg rps burst) t = of_int burst) \<and>
    (\<forall>lm t. bucket pkg rps burst lm t \<longrightarrow>
      (\<forall>t1 t2. t \<le> t1 \<and> t1 \<le> t2 \<longrightarrow>
        TokensAt pkg lm t2 = min (of_int burst) (TokensAt pkg lm t1 + rps * (t2 - t1))) \<and>
      (\<forall>now \<ge> t. fst (AllowN pkg lm now 1) = (1 \<le> TokensAt pkg lm now) \<and>
        TokensAt pkg (snd (AllowN pkg lm now 1)) now =
          TokensAt pkg lm now - (if fst (AllowN pkg lm now 1) then 1 else 0))))"

text \<open>The calls a limiter answers: requests, and the ticks of the janitor, who may get to a tick late.\<close>

datatype limiter_call = Request real "nat list" | Tick real real

fun call_time :: "limiter_call \<Rightarrow> real" where
  "call_time (Request now ip) = now"
| "call_time (Tick tick now) = now"

fun limiter_does :: "'l rate_package \<Rightarrow> 'l limiter \<Rightarrow> limiter_call \<Rightarrow> 'l limiter" where
  "limiter_does pkg l (Request now ip) = snd (Allow pkg now ip l)"
| "limiter_does pkg l (Tick tick now) = sweep tick l"

fun granted :: "'l rate_package \<Rightarrow> nat list \<Rightarrow> 'l limiter \<Rightarrow> limiter_call list \<Rightarrow> nat" where
  "granted pkg ip l [] = 0"
| "granted pkg ip l (c # cs) =
    (case c of Request now ip' \<Rightarrow> if ip' = ip \<and> fst (Allow pkg now ip' l) then 1 else 0 | _ \<Rightarrow> 0)
    + granted pkg ip (limiter_does pkg l c) cs"

fun timely :: "real \<Rightarrow> limiter_call list \<Rightarrow> bool" where
  "timely t [] = True"
| "timely t (c # cs) \<longleftrightarrow> t \<le> call_time c \<and> (case c of Tick tick now \<Rightarrow> tick \<le> now | _ \<Rightarrow> True) \<and> timely (call_time c) cs"

definition level :: "'l rate_package \<Rightarrow> nat list \<Rightarrow> 'l limiter \<Rightarrow> real \<Rightarrow> real" where
  "level pkg ip l t = (case li_ips l ip of None \<Rightarrow> of_int (li_burst l) | Some e \<Rightarrow> TokensAt pkg (ie_lim e) t)"

definition limiter_ok :: "'l rate_package \<Rightarrow> real \<Rightarrow> 'l limiter \<Rightarrow> bool" where
  "limiter_ok pkg t l \<longleftrightarrow> 0 < li_rps l \<and> 0 \<le> li_burst l \<and> of_int (li_burst l) \<le> li_rps l * li_ttl l \<and>
    (\<forall>ip e. li_ips l ip = Some e \<longrightarrow> bucket pkg (li_rps l) (li_burst l) (ie_lim e) (ie_lastSeen e) \<and> ie_lastSeen e \<le> t)"

lemma documented:
  assumes "rate_documented pkg" "0 < rps" "0 \<le> burst"
  shows "TokensAt pkg (NewLimiter pkg rps burst) t0 = of_int burst"
    and "bucket pkg rps burst lm t \<Longrightarrow> t \<le> t1 \<Longrightarrow> t1 \<le> t2 \<Longrightarrow>
      TokensAt pkg lm t2 = min (of_int burst) (TokensAt pkg lm t1 + rps * (t2 - t1))"
    and "bucket pkg rps burst lm t \<Longrightarrow> t \<le> now \<Longrightarrow> fst (AllowN pkg lm now 1) = (1 \<le> TokensAt pkg lm now)"
    and "bucket pkg rps burst lm t \<Longrightarrow> t \<le> now \<Longrightarrow> TokensAt pkg (snd (AllowN pkg lm now 1)) now =
      TokensAt pkg lm now - (if 1 \<le> TokensAt pkg lm now then 1 else 0)"
proof -
  have law: "\<forall>t. TokensAt pkg (NewLimiter pkg rps burst) t = of_int burst"
    "\<forall>lm t. bucket pkg rps burst lm t \<longrightarrow>
      (\<forall>t1 t2. t \<le> t1 \<and> t1 \<le> t2 \<longrightarrow>
        TokensAt pkg lm t2 = min (of_int burst) (TokensAt pkg lm t1 + rps * (t2 - t1)))"
    "\<forall>lm t now. bucket pkg rps burst lm t \<longrightarrow> t \<le> now \<longrightarrow>
      fst (AllowN pkg lm now 1) = (1 \<le> TokensAt pkg lm now)"
    "\<forall>lm t now. bucket pkg rps burst lm t \<longrightarrow> t \<le> now \<longrightarrow>
        TokensAt pkg (snd (AllowN pkg lm now 1)) now =
          TokensAt pkg lm now - (if fst (AllowN pkg lm now 1) then 1 else 0)"
    using assms unfolding rate_documented_def by blast+
  show "TokensAt pkg (NewLimiter pkg rps burst) t0 = of_int burst" using law(1) by blast
  show "bucket pkg rps burst lm t \<Longrightarrow> t \<le> t1 \<Longrightarrow> t1 \<le> t2 \<Longrightarrow>
      TokensAt pkg lm t2 = min (of_int burst) (TokensAt pkg lm t1 + rps * (t2 - t1))" using law(2) by blast
  show allows: "bucket pkg rps burst lm t \<Longrightarrow> t \<le> now \<Longrightarrow> fst (AllowN pkg lm now 1) = (1 \<le> TokensAt pkg lm now)"
    using law(3) by blast
  show "bucket pkg rps burst lm t \<Longrightarrow> t \<le> now \<Longrightarrow> TokensAt pkg (snd (AllowN pkg lm now 1)) now =
      TokensAt pkg lm now - (if 1 \<le> TokensAt pkg lm now then 1 else 0)"
    using law(4) allows by simp
qed

lemma tokens_bounds:
  assumes "rate_documented pkg" "0 < rps" "0 \<le> burst" "bucket pkg rps burst lm t" "t \<le> now"
  shows "0 \<le> TokensAt pkg lm now \<and> TokensAt pkg lm now \<le> of_int burst"
  using assms(4,5)
proof (induction arbitrary: now rule: bucket.induct)
  case (fresh t)
  show ?case using documented(1) [OF assms(1-3)] assms(3) by simp
next
  case (asked lm t t1)
  note law = documented [OF assms(1-3)]
  have now: "TokensAt pkg (snd (AllowN pkg lm t1 1)) now =
      min (of_int burst) (TokensAt pkg (snd (AllowN pkg lm t1 1)) t1 + rps * (now - t1))"
    using bucket.asked [OF asked.hyps] asked.prems by (intro law(2)) auto
  have "0 \<le> TokensAt pkg (snd (AllowN pkg lm t1 1)) t1"
    using asked.IH [OF asked.hyps(2)] law(4) [OF asked.hyps] by simp
  moreover have "0 \<le> rps * (now - t1)" using assms(2) asked.prems by simp
  ultimately show ?case using assms(3) by (simp add: now)
qed

lemma level_bounds:
  assumes "rate_documented pkg" "limiter_ok pkg t l" "t \<le> now"
  shows "0 \<le> level pkg ip l now \<and> level pkg ip l now \<le> of_int (li_burst l)"
proof (cases "li_ips l ip")
  case (Some e)
  with assms(2,3) have "bucket pkg (li_rps l) (li_burst l) (ie_lim e) (ie_lastSeen e)" "ie_lastSeen e \<le> now"
    by (auto simp: limiter_ok_def intro: order_trans)
  from tokens_bounds [OF assms(1) _ _ this] assms(2) Some show ?thesis by (simp add: level_def limiter_ok_def)
qed (use assms(2) in \<open>simp add: level_def limiter_ok_def\<close>)

lemma level_refills:
  assumes "rate_documented pkg" "limiter_ok pkg t l" "t \<le> now"
  shows "level pkg ip l now \<le> level pkg ip l t + li_rps l * (now - t)"
proof (cases "li_ips l ip")
  case None
  with assms(2,3) show ?thesis by (simp add: level_def limiter_ok_def)
next
  case (Some e)
  with assms(2) have "bucket pkg (li_rps l) (li_burst l) (ie_lim e) (ie_lastSeen e)" "ie_lastSeen e \<le> t"
    by (auto simp: limiter_ok_def)
  from documented(2) [OF assms(1) _ _ this assms(3)] assms(2)
  have "TokensAt pkg (ie_lim e) now =
      min (of_int (li_burst l)) (TokensAt pkg (ie_lim e) t + li_rps l * (now - t))"
    by (simp add: limiter_ok_def)
  with Some show ?thesis by (simp add: level_def)
qed

text \<open>A request takes one token, of its own client only.\<close>

lemma Allow_level:
  assumes "rate_documented pkg" "limiter_ok pkg t l" "t \<le> now"
  shows "limiter_ok pkg now (snd (Allow pkg now ip' l)) \<and>
    level pkg ip (snd (Allow pkg now ip' l)) now =
      level pkg ip l now - (if ip' = ip \<and> fst (Allow pkg now ip' l) then 1 else 0)"
proof -
  define e where "e = (case li_ips l ip' of
      None \<Rightarrow> \<lparr>ie_lim = NewLimiter pkg (li_rps l) (li_burst l), ie_lastSeen = now\<rparr>
    | Some e \<Rightarrow> e\<lparr>ie_lastSeen := now\<rparr>)"
  have pos: "0 < li_rps l" "0 \<le> li_burst l" using assms(2) by (simp_all add: limiter_ok_def)
  obtain t0 where e: "bucket pkg (li_rps l) (li_burst l) (ie_lim e) t0" "t0 \<le> now"
    using assms(2,3) by (cases "li_ips l ip'")
      (auto simp: e_def limiter_ok_def intro: bucket.fresh order_trans)
  have lv: "level pkg ip' l now = TokensAt pkg (ie_lim e) now"
    using documented(1) [OF assms(1) pos] by (cases "li_ips l ip'") (simp_all add: level_def e_def)
  have allow: "Allow pkg now ip' l =
      (fst (AllowN pkg (ie_lim e) now 1), l\<lparr>li_ips := (li_ips l)(ip' \<mapsto> e\<lparr>ie_lim := snd (AllowN pkg (ie_lim e) now 1)\<rparr>)\<rparr>)"
    by (simp add: Allow_def e_def Let_def split: prod.split)
  have seen: "ie_lastSeen e = now" by (simp add: e_def split: option.split)
  have "limiter_ok pkg now (snd (Allow pkg now ip' l))"
    using assms(2,3) bucket.asked [OF e] by (auto simp: limiter_ok_def allow seen intro: order_trans)
  moreover have "level pkg ip (snd (Allow pkg now ip' l)) now =
      level pkg ip l now - (if ip' = ip \<and> fst (Allow pkg now ip' l) then 1 else 0)"
    using documented(3,4) [OF assms(1) pos e] lv by (auto simp: level_def allow split: option.split)
  ultimately show ?thesis ..
qed

text \<open>An entry that is evicted had a full bucket, so eviction gives its client nothing.\<close>

lemma sweep_level:
  assumes "rate_documented pkg" "limiter_ok pkg t l" "t \<le> now" "tick \<le> now"
  shows "limiter_ok pkg now (sweep tick l) \<and> level pkg ip (sweep tick l) now \<le> level pkg ip l now"
proof
  show "limiter_ok pkg now (sweep tick l)"
    using assms(2,3) by (auto simp: limiter_ok_def sweep_def intro: order_trans split: option.splits if_splits)
  show "level pkg ip (sweep tick l) now \<le> level pkg ip l now"
  proof (cases "li_ips l ip")
    case (Some e)
    show ?thesis
    proof (cases "tick - ie_lastSeen e \<ge> li_ttl l")
      case True
      have ok: "0 < li_rps l" "0 \<le> li_burst l" "of_int (li_burst l) \<le> li_rps l * li_ttl l"
        and b: "bucket pkg (li_rps l) (li_burst l) (ie_lim e) (ie_lastSeen e)" "ie_lastSeen e \<le> now"
        using assms(2,3) Some by (auto simp: limiter_ok_def intro: order_trans)
      have "li_rps l * li_ttl l \<le> li_rps l * (now - ie_lastSeen e)"
        using ok(1) True assms(4) by (intro mult_left_mono) auto
      moreover have "0 \<le> TokensAt pkg (ie_lim e) (ie_lastSeen e)"
        using tokens_bounds [OF assms(1) ok(1,2) b(1) order_refl] by simp
      moreover have "TokensAt pkg (ie_lim e) now =
          min (of_int (li_burst l)) (TokensAt pkg (ie_lim e) (ie_lastSeen e) + li_rps l * (now - ie_lastSeen e))"
        by (rule documented(2) [OF assms(1) ok(1,2) b(1) order_refl b(2)])
      ultimately show ?thesis using ok(3) Some True by (simp add: level_def sweep_def)
    qed (simp add: Some level_def sweep_def)
  qed (simp add: level_def sweep_def)
qed

lemma limiter_does_params [simp]:
  "li_rps (limiter_does pkg l c) = li_rps l" "li_burst (limiter_does pkg l c) = li_burst l"
  by (cases c; simp add: Allow_def sweep_def Let_def split: prod.split)+

lemma limiter_does_ok:
  assumes "rate_documented pkg" "limiter_ok pkg t l" "timely t (c # cs)"
  shows "limiter_ok pkg (call_time c) (limiter_does pkg l c)"
    and "of_nat (granted pkg ip l [c]) + level pkg ip (limiter_does pkg l c) (call_time c) \<le> level pkg ip l (call_time c)"
  using Allow_level [OF assms(1,2)] sweep_level [OF assms(1,2)] assms(3) by (cases c; auto)+

lemma limiter_runs_ok:
  assumes "rate_documented pkg"
  shows "limiter_ok pkg t l \<Longrightarrow> timely t (cs @ ds) \<Longrightarrow>
    \<exists>t'. limiter_ok pkg t' (foldl (limiter_does pkg) l cs) \<and> timely t' ds"
proof (induction cs arbitrary: t l)
  case (Cons c cs)
  then have "timely t (c # (cs @ ds))" by simp
  from Cons.IH [OF limiter_does_ok(1) [OF assms Cons.prems(1) this]] this show ?case by simp
qed auto

lemma granted_bound:
  assumes "rate_documented pkg"
  shows "limiter_ok pkg t l \<Longrightarrow> timely t cs \<Longrightarrow> t \<le> t1 \<Longrightarrow> \<forall>c\<in>set cs. call_time c \<le> t1 \<Longrightarrow>
    of_nat (granted pkg ip l cs) \<le> level pkg ip l t + li_rps l * (t1 - t)"
proof (induction cs arbitrary: t l)
  case Nil
  then show ?case using level_bounds [OF assms Nil(1), of t ip] by (simp add: limiter_ok_def)
next
  case (Cons c cs)
  note ok = limiter_does_ok [OF assms Cons.prems(1,2)]
  have "of_nat (granted pkg ip (limiter_does pkg l c) cs) \<le>
      level pkg ip (limiter_does pkg l c) (call_time c) + li_rps l * (t1 - call_time c)"
    using Cons.IH [OF ok(1)] Cons.prems by simp
  moreover have "level pkg ip l (call_time c) \<le> level pkg ip l t + li_rps l * (call_time c - t)"
    using Cons.prems by (intro level_refills [OF assms]) auto
  ultimately show ?case using ok(2) [of ip] by (simp add: algebra_simps)
qed

lemma limiter_run_params [simp]:
  "li_rps (foldl (limiter_does pkg) l cs) = li_rps l" "li_burst (foldl (limiter_does pkg) l cs) = li_burst l"
  by (induction cs arbitrary: l) simp_all

lemma limiter_ok_later: "limiter_ok pkg t l \<Longrightarrow> t \<le> t' \<Longrightarrow> limiter_ok pkg t' l"
  by (force simp: limiter_ok_def)

section \<open>A bucket as documented\<close>

text \<open>The documentation can be kept: a bucket that computes its tokens when it is asked.\<close>

record token_bucket =
  tb_rate :: real
  tb_burst :: int
  tb_tokens :: real
  tb_last :: "real option"

definition tb_at :: "token_bucket \<Rightarrow> real \<Rightarrow> real" where
  "tb_at b t = (case tb_last b of None \<Rightarrow> tb_tokens b
     | Some t0 \<Rightarrow> min (of_int (tb_burst b)) (tb_tokens b + tb_rate b * (t - t0)))"

definition rate_reference :: "token_bucket rate_package" where
  "rate_reference = \<lparr>
     NewLimiter = (\<lambda>rps burst. \<lparr>tb_rate = rps, tb_burst = burst, tb_tokens = of_int burst, tb_last = None\<rparr>),
     AllowN = (\<lambda>b now n. if of_int n \<le> tb_at b now
       then (True, b\<lparr>tb_tokens := tb_at b now - of_int n, tb_last := Some now\<rparr>)
       else (False, b\<lparr>tb_tokens := tb_at b now, tb_last := Some now\<rparr>)),
     TokensAt = tb_at\<rparr>"

lemma token_bucket_bucket:
  assumes "bucket rate_reference rps burst b t" "0 < rps" "0 \<le> burst"
  shows "tb_rate b = rps \<and> tb_burst b = burst \<and> tb_tokens b \<le> of_int burst \<and>
    (case tb_last b of None \<Rightarrow> tb_tokens b = of_int burst | Some t0 \<Rightarrow> t0 = t)"
  using assms
  by (induction rule: bucket.induct) (auto simp: rate_reference_def tb_at_def split: option.splits)

lemma tb_at_later:
  assumes "tb_rate b = rps" "tb_burst b = burst" "0 < rps" "t1 \<le> t2" "tb_last b = Some t0"
  shows "tb_at b t2 = min (of_int burst) (tb_at b t1 + rps * (t2 - t1))"
proof -
  have "0 \<le> rps * (t2 - t1)" using assms(3,4) by simp
  then show ?thesis using assms(1,2,5) by (auto simp: tb_at_def min_def algebra_simps)
qed

lemma tb_at_now: "tb_last b = Some t \<Longrightarrow> tb_tokens b \<le> of_int (tb_burst b) \<Longrightarrow> tb_at b t = tb_tokens b"
  by (simp add: tb_at_def)

lemma tb_at_le: "tb_tokens b \<le> of_int (tb_burst b) \<Longrightarrow> tb_at b t \<le> of_int (tb_burst b)"
  by (simp add: tb_at_def split: option.split)

lemma rate_reference_documented: "rate_documented rate_reference"
  unfolding rate_documented_def
proof (intro allI impI conjI; (elim conjE)?)
  fix rps :: real and burst :: int and t
  show "TokensAt rate_reference (NewLimiter rate_reference rps burst) t = of_int burst"
    by (simp add: rate_reference_def tb_at_def)
next
  fix rps :: real and burst b t t1 t2
  assume pos: "0 < rps" "0 \<le> burst" and b: "bucket rate_reference rps burst b t" and t: "t \<le> t1" "t1 \<le> t2"
  note shape = token_bucket_bucket [OF b pos]
  show "TokensAt rate_reference b t2 = min (of_int burst) (TokensAt rate_reference b t1 + rps * (t2 - t1))"
  proof (cases "tb_last b")
    case None
    with shape pos t show ?thesis by (simp add: rate_reference_def tb_at_def)
  next
    case (Some t0)
    with tb_at_later [of b rps burst t1 t2 t0] shape pos t show ?thesis by (simp add: rate_reference_def)
  qed
next
  fix rps :: real and burst b t now
  assume pos: "0 < rps" "0 \<le> burst" and b: "bucket rate_reference rps burst b t" and "t \<le> now"
  show "fst (AllowN rate_reference b now 1) = (1 \<le> TokensAt rate_reference b now)"
    by (simp add: rate_reference_def)
  show "TokensAt rate_reference (snd (AllowN rate_reference b now 1)) now =
      TokensAt rate_reference b now - (if fst (AllowN rate_reference b now 1) then 1 else 0)"
    using token_bucket_bucket [OF b pos] tb_at_le [of b now]
    by (simp add: rate_reference_def tb_at_now)
qed

section \<open>Properties\<close>

text \<open>The server's capacity and the daily quota hold whatever the interleaving: at most as many debates
  run as the semaphore has slots, a slot is taken exactly while one runs, and no client is served more
  debates on a day than the limit leaves it after what the database had counted for it, however many
  requests it makes at once, and whatever fails.\<close>

theorem admission_is_bounded:
  assumes "(server_step pkg g)\<^sup>*\<^sup>* (start_server l u) s"
  shows "sv_slots s = length (filter in_next (sv_requests s)) \<and> sv_slots s \<le> gc_sem g \<and>
    length (filter (served ip day) (sv_requests s)) \<le> nat (gc_dailyLimit g) - used u ip day"
  using gate.inv_reach [OF assms admission_inv_start] served_le [of ip day "sv_requests s"]
  by (auto simp: admission_inv_def intro: order_trans)

text \<open>One client, of whose debates one was counted already, and any limits that admit one more.\<close>

definition example_usage :: usage where
  "example_usage = [(runes ''10.0.0.1'', ''2026-01-01'') \<mapsto> 1]"

definition example_start :: "token_bucket server" where
  "example_start = start_server (new_limiter 1 3 600) example_usage"

definition example_arrived :: "token_bucket server" where
  "example_arrived = example_start\<lparr>sv_requests :=
     [\<lparr>hg_ip = ClientIP \<lparr>rq_RemoteAddr = runes ''10.0.0.1:5000'', rq_XForwardedFor = []\<rparr> False, hg_day = '''', hg_stage = AtLimiter\<rparr>]\<rparr>"

definition example_served :: "gate_config \<Rightarrow> token_bucket server" where
  "example_served g = semaphore_guard g 0 (quota_guard g DbDone ''2026-01-01'' 0
     (limiter_guard rate_reference 0 0 example_arrived))"

lemma example_ip: "ClientIP \<lparr>rq_RemoteAddr = runes ''10.0.0.1:5000'', rq_XForwardedFor = []\<rparr> False = runes ''10.0.0.1''"
proof -
  have "runes ''10.0.0.1:5000'' = runes ''10.0.0.1'' @ 58 # runes ''5000''" by (simp add: runes_def)
  with ClientIP_ignores_the_port [of "runes ''10.0.0.1''" "runes ''5000''" "[]"] show ?thesis
    by (simp add: runes_def go_is_space_def)
qed

lemmas example_simps = example_usage_def example_start_def example_arrived_def start_server_def limiter_guard_def
  quota_guard_def semaphore_guard_def set_stage_def Allow_def new_limiter_def CheckAndIncrement_def
  upsertUsage_def rate_reference_def tb_at_def

lemma example_reached:
  assumes "\<not> gc_trustProxy g" "2 \<le> gc_dailyLimit g"
  shows "(server_step rate_reference g)\<^sup>*\<^sup>* example_start (example_served g)"
proof -
  let ?s1 = "limiter_guard rate_reference 0 0 example_arrived"
  let ?s2 = "quota_guard g DbDone ''2026-01-01'' 0 ?s1"
  let ?R = "server_step rate_reference g"
  have "?R example_start example_arrived"
    using server_step.arrives [of rate_reference g example_start
        "\<lparr>rq_RemoteAddr = runes ''10.0.0.1:5000'', rq_XForwardedFor = []\<rparr>"] assms(1)
    by (simp add: example_arrived_def example_start_def start_server_def arrival_def)
  moreover have "?R example_arrived ?s1" by (rule server_step.guards, rule guard_step.limits) (simp_all add: example_arrived_def)
  moreover have "?R ?s1 ?s2" by (rule server_step.guards, rule guard_step.counts) (simp_all add: example_simps)
  moreover have "?R ?s2 (example_served g)"
    unfolding example_served_def by (rule server_step.guards, rule guard_step.acquires) (simp_all add: example_simps example_ip assms(2))
  ultimately show ?thesis by (meson converse_rtranclp_into_rtranclp rtranclp.rtrancl_refl)
qed

lemma example_in_next:
  assumes "1 \<le> gc_sem g" "2 \<le> gc_dailyLimit g"
  shows "sv_slots (example_served g) = 1" "length (sv_requests (example_served g)) = 1"
    "in_next (sv_requests (example_served g) ! 0)"
  using assms by (simp_all add: example_served_def example_simps example_ip in_next_def)

theorem admission_is_bounded_witness:
  "let s = example_served \<lparr>gc_sem = 1, gc_dailyLimit = 2, gc_trustProxy = False\<rparr> in
   sv_slots s = 1 \<and> length (filter in_next (sv_requests s)) = 1 \<and>
   length (filter (served (runes ''10.0.0.1'') ''2026-01-01'') (sv_requests s)) \<le> 1"
proof -
  let ?g = "\<lparr>gc_sem = 1, gc_dailyLimit = 2, gc_trustProxy = False\<rparr>"
  have "(server_step rate_reference ?g)\<^sup>*\<^sup>* (start_server (new_limiter 1 3 600) example_usage) (example_served ?g)"
    using example_reached [of ?g] by (simp add: example_start_def)
  from admission_is_bounded [OF this, of "runes ''10.0.0.1''" "''2026-01-01''"] show ?thesis
    by (simp add: example_in_next example_usage_def used_def)
qed

text \<open>No client gets more requests past the limiter, in any window of time, than a burst and what the
  rate allows for the window; being evicted for idleness gains it nothing, as long as an entry is kept
  until its bucket is full again.\<close>

theorem request_rate_is_bounded:
  assumes "rate_documented pkg" "0 < rps" "1 \<le> burst" "of_int burst \<le> rps * ttl"
    and "timely t (cs @ ds)" "t0 \<le> t1" "\<forall>c\<in>set ds. t0 \<le> call_time c \<and> call_time c \<le> t1"
  shows "of_nat (granted pkg ip (foldl (limiter_does pkg) (new_limiter rps burst ttl) cs) ds)
    \<le> of_int burst + rps * (t1 - t0)"
proof (cases ds)
  case Nil
  with assms(2,3,6) show ?thesis by simp
next
  case (Cons c ds')
  let ?l = "foldl (limiter_does pkg) (new_limiter rps burst ttl) cs"
  have "limiter_ok pkg t (new_limiter rps burst ttl)"
    using assms(2-4) by (simp add: limiter_ok_def new_limiter_def)
  from limiter_runs_ok [OF assms(1) this assms(5)]
  obtain t' where t': "limiter_ok pkg t' ?l" "timely t' ds" by blast
  with Cons have ok: "limiter_ok pkg (call_time c) ?l" and "timely (call_time c) ds"
    by (auto intro: limiter_ok_later)
  with granted_bound [OF assms(1) ok, of ds t1 ip] assms(7) Cons
  have "of_nat (granted pkg ip ?l ds) \<le> level pkg ip ?l (call_time c) + rps * (t1 - call_time c)"
    by (simp add: new_limiter_def)
  moreover have "level pkg ip ?l (call_time c) \<le> of_int burst"
    using level_bounds [OF assms(1) ok order_refl, of ip] by (simp add: new_limiter_def)
  moreover have "rps * (t1 - call_time c) \<le> rps * (t1 - t0)"
    using assms(2,7) Cons by (intro mult_left_mono) auto
  ultimately show ?thesis by linarith
qed

theorem request_rate_is_bounded_witness:
  "of_nat (granted rate_reference [1] (foldl (limiter_does rate_reference) (new_limiter 1 3 600) [Request 0 [1], Tick 650 700])
     [Request 700 [1], Request 701 [1], Request 701 [2]]) \<le> of_int 3 + (1::real) * (701 - 700)"
  by (rule request_rate_is_bounded [where t = 0, OF rate_reference_documented]) auto

text \<open>The condition is needed, and the configuration does not check it: with a short \<open>RATE_LIMIT_TTL\<close>, a
  client that waits to be evicted finds a full bucket.\<close>

lemma eviction_can_refill:
  "granted rate_reference [1] (new_limiter (1 / 100) 1 1) [Request 0 [1], Tick 2 2, Request 2 [1]] = 2
   \<and> of_nat 2 > of_int 1 + (1 / 100 :: real) * (2 - 0)"
  by (simp add: Allow_def new_limiter_def rate_reference_def tb_at_def sweep_def)

end
