(* ===== verification/Service.thy ===== *)
theory Service
  imports Zai_Provider Admission_Control "HOL-Library.Multiset"
begin

text \<open>
  The server as a whole: the handler of \<open>ws/session.go\<close> from the handshake to its return, as many of
  them as the guards of \<open>Admission\<close> let through at once, and what \<open>cmd/server/main.go\<close> puts them together
  from. The service is a step relation over the server's state and one session for each request; its
  steps are the steps of the parts, so what is proved of a server and of a debate holds here.
\<close>

section \<open>One session\<close>

text \<open>Where a handler is: before \<open>websocket.Accept\<close>, before the client's one message, in the loop over
  the debate's events, or returned. Its debate has goroutines of its own, which may go on after it.\<close>

datatype session_point = AtAccept | AtRead | AtEvents | SessionOver

record ws_session =
  wss_point :: session_point
  wss_debate :: "(jstr \<times> nat \<times> orchestration) option"
  wss_answered :: "go_event list"

definition fresh_session :: ws_session where
  "fresh_session = \<lparr>wss_point = AtAccept, wss_debate = None, wss_answered = []\<rparr>"

text \<open>On the way out \<open>cancel\<close> is called, and the connection closed. The relation says what can happen,
  not who makes it happen: a handshake is answered from the request alone, but a read ends only when the
  client sends something or goes, unless there is a deadline for it (\<open>needs_client\<close>).\<close>

inductive handler_step :: "orchestrator \<Rightarrow> go_persona list \<Rightarrow> ws_session \<Rightarrow> ws_session \<Rightarrow> bool"
  for orch personas where
  accept_fails: "wss_point w = AtAccept \<Longrightarrow> handler_step orch personas w (w\<lparr>wss_point := SessionOver\<rparr>)"
| accepts: "wss_point w = AtAccept \<Longrightarrow> handler_step orch personas w (w\<lparr>wss_point := AtRead\<rparr>)"
| read_fails: "wss_point w = AtRead \<Longrightarrow> handler_step orch personas w (w\<lparr>wss_point := SessionOver\<rparr>)"
| rejects: "wss_point w = AtRead \<Longrightarrow> HandleSession msg personas = Inl evs \<Longrightarrow>
    handler_step orch personas w (w\<lparr>wss_point := SessionOver, wss_answered := (if written then evs else [])\<rparr>)"
| convokes: "wss_point w = AtRead \<Longrightarrow> HandleSession msg personas = Inr d \<Longrightarrow>
    handler_step orch personas w (w\<lparr>wss_point := AtEvents, wss_debate := Some d\<rparr>)"
| debates_on: "wss_debate w = Some (question, n, s) \<Longrightarrow> run_step orch question personas n s s' \<Longrightarrow>
    handler_step orch personas w (w\<lparr>wss_debate := Some (question, n, s')\<rparr>)"
| leaves: "wss_point w = AtEvents \<Longrightarrow> wss_debate w = Some (question, n, s) \<Longrightarrow>
    \<not> oc_listening s \<or> oc_point s = Returned \<Longrightarrow>
    handler_step orch personas w (w\<lparr>wss_point := SessionOver, wss_debate := Some (question, n, s\<lparr>oc_done := True\<rparr>)\<rparr>)"

text \<open>The deadlines of the handler's reads and writes: the context of \<open>wsjson.Read\<close> is cancelled when
  the handler returns, and has none; a write of an event has \<open>writeTimeout\<close>.\<close>

definition read_deadline :: "int option" where "read_deadline = None"

definition write_deadline :: "int option" where "write_deadline = Some (10 * SECOND)"

text \<open>A step a session makes only because its client does something: it sends its message or goes before
  it did; it takes in an event; it hangs up; or the write of an event to it fails before a deadline.\<close>

definition needs_client :: "ws_session \<Rightarrow> ws_session \<Rightarrow> bool" where
  "needs_client w w' \<longleftrightarrow>
     (wss_point w = AtRead \<and> w' \<noteq> w \<and> read_deadline = None)
   \<or> (case (wss_debate w, wss_debate w') of
        (Some (_, _, s), Some (_, _, s')) \<Rightarrow>
           oc_wire s' \<noteq> oc_wire s
         \<or> (oc_listening s' \<and> oc_done s' \<noteq> oc_done s \<and> wss_point w' = wss_point w)
         \<or> (oc_listening s' \<noteq> oc_listening s \<and> write_deadline = None)
      | _ \<Rightarrow> False)"

lemma needs_client_refl [simp]: "\<not> needs_client w w"
  by (auto simp: needs_client_def split: option.splits)

definition session_wire :: "ws_session \<Rightarrow> go_event list" where
  "session_wire w = wss_answered w @ (case wss_debate w of None \<Rightarrow> [] | Some (_, _, s) \<Rightarrow> oc_wire s)"

text \<open>What a session may be in the middle of.\<close>

definition session_ok :: "orchestrator \<Rightarrow> ws_session \<Rightarrow> bool" where
  "session_ok orch w \<longleftrightarrow>
    (case wss_debate w of
       None \<Rightarrow> wss_point w \<noteq> AtEvents \<and> (wss_answered w = [] \<or> (wss_point w = SessionOver \<and>
         wss_answered w = [go_Error '''' (js ''invalid request'')]))
     | Some (question, n, s) \<Rightarrow> wss_answered w = [] \<and>
         (\<exists>msg s0. HandleSession msg DefaultPanel = Inr (question, n, s0) \<and> debates orch question DefaultPanel n s0 s) \<and>
         (wss_point w = AtEvents \<or> wss_point w = SessionOver \<and> oc_done s \<and> (\<not> oc_listening s \<or> oc_point s = Returned)))"

lemma HandleSession_rejects: "HandleSession msg ps = Inl evs \<Longrightarrow> evs = [go_Error '''' (js ''invalid request'')]"
  by (auto simp: HandleSession_def Let_def split: if_splits)

lemma over_stays:
  assumes "run_step orch question ps n s t" "\<not> oc_listening s \<or> oc_point s = Returned" "oc_done s"
  shows "\<not> oc_listening t \<or> oc_point t = Returned" "oc_done t"
proof -
  from assms(1) have "oc_done t \<and> (\<not> oc_listening t \<or> oc_point t = Returned)"
  proof (cases rule: run_step.cases)
    case (speaks rnd R j d s' b)
    from speaks(4) assms(2,3) show ?thesis using speaks by (cases d) (auto split: if_splits)
  next
    case (completes rnd d s' b)
    from completes(3) assms(2,3) show ?thesis using completes by (cases d) (auto split: if_splits)
  next
    case (judges c d s' b)
    from judges(3) assms(2,3) show ?thesis using judges by (cases d) (auto split: if_splits)
  qed (use assms(2,3) in auto)
  then show "\<not> oc_listening t \<or> oc_point t = Returned" "oc_done t" by simp_all
qed

lemma cancel_debates:
  assumes "debates orch question ps n s0 s"
  shows "debates orch question ps n s0 (s\<lparr>oc_done := True\<rparr>)"
proof (cases "oc_done s")
  case True
  then have "s\<lparr>oc_done := True\<rparr> = s" by simp
  with assms show ?thesis by simp
next
  case False
  from assms run_step.cancels [OF False] show ?thesis by (rule rtranclp.rtrancl_into_rtrancl)
qed

lemma session_ok_step:
  assumes "handler_step orch DefaultPanel w w'" "session_ok orch w"
  shows "session_ok orch w'"
  using assms(1)
proof cases
  case (rejects msg evs written)
  with assms(2) HandleSession_rejects [OF rejects(3)] show ?thesis
    by (auto simp: session_ok_def split: option.splits)
next
  case (convokes msg d)
  obtain question n s where d: "d = (question, n, s)" by (cases d)
  from convokes assms(2) show ?thesis by (auto simp: session_ok_def d split: option.splits)
next
  case (debates_on question n s s')
  with assms(2) obtain msg s0 where "HandleSession msg DefaultPanel = Inr (question, n, s0)" "debates orch question DefaultPanel n s0 s"
    by (auto simp: session_ok_def)
  moreover from this(2) debates_on(3) have "debates orch question DefaultPanel n s0 s'" by simp
  ultimately show ?thesis
    using debates_on assms(2) over_stays [OF debates_on(3)] by (auto simp: session_ok_def)
next
  case (leaves question n s)
  with assms(2) cancel_debates show ?thesis by (fastforce simp: session_ok_def)
qed (use assms(2) in \<open>auto simp: session_ok_def split: option.splits\<close>)

text \<open>A session does not go on for ever, whatever the client and the models do.\<close>

fun session_rank :: "session_point \<Rightarrow> nat" where
  "session_rank AtAccept = 3"
| "session_rank AtRead = 2"
| "session_rank AtEvents = 1"
| "session_rank SessionOver = 0"

definition debate_ends :: "orchestrator \<Rightarrow> ((jstr \<times> nat \<times> orchestration) option \<times> (jstr \<times> nat \<times> orchestration) option) set" where
  "debate_ends orch = {(d', d). \<exists>question n s s'. d = Some (question, n, s) \<and> d' = Some (question, n, s')
     \<and> run_step orch question DefaultPanel n s s'}"

lemma wf_debate_ends: "wf (debate_ends orch)"
proof (rule wfI_min)
  fix d and Q :: "(jstr \<times> nat \<times> orchestration) option set"
  assume d: "d \<in> Q"
  show "\<exists>d\<in>Q. \<forall>d'. (d', d) \<in> debate_ends orch \<longrightarrow> d' \<notin> Q"
  proof (cases d)
    case None
    with d show ?thesis by (intro bexI [of _ None]) (auto simp: debate_ends_def)
  next
    case (Some qns)
    then obtain question n s where "d = Some (question, n, s)" by (cases qns) auto
    with d have "s \<in> {s. Some (question, n, s) \<in> Q}" by simp
    from wfE_min [OF run_step_wf [of orch question DefaultPanel n] this]
    obtain s1 where "Some (question, n, s1) \<in> Q"
      "\<And>s'. run_step orch question DefaultPanel n s1 s' \<Longrightarrow> Some (question, n, s') \<notin> Q" by auto
    then show ?thesis by (intro bexI [of _ "Some (question, n, s1)"]) (auto simp: debate_ends_def)
  qed
qed

definition session_ends :: "orchestrator \<Rightarrow> (ws_session \<times> ws_session) set" where
  "session_ends orch = inv_image (less_than <*lex*> debate_ends orch) (\<lambda>w. (session_rank (wss_point w), wss_debate w))"

lemma handler_step_ends: "handler_step orch DefaultPanel w w' \<Longrightarrow> (w', w) \<in> session_ends orch"
  by (cases rule: handler_step.cases) (auto simp: session_ends_def debate_ends_def)

lemma wf_session_ends: "wf (session_ends orch)"
  by (simp add: session_ends_def wf_debate_ends wf_lex_prod)

text \<open>Until it is over and its debate has returned, it can go on without its client, unless it waits for
  the client's one message.\<close>

definition session_done :: "ws_session \<Rightarrow> bool" where
  "session_done w \<longleftrightarrow> wss_point w = SessionOver \<and> (case wss_debate w of None \<Rightarrow> True | Some (_, _, s) \<Rightarrow> oc_point s = Returned)"

lemma session_goes_on:
  assumes "session_ok orch w" "\<not> session_done w" "wss_point w \<noteq> AtRead" "answers orch" "0 < or_limit orch"
  shows "\<exists>w'. handler_step orch DefaultPanel w w' \<and> \<not> needs_client w w'"
proof (cases "wss_debate w")
  case None
  with assms(1-3) have "wss_point w = AtAccept"
    by (cases "wss_point w") (auto simp: session_ok_def session_done_def)
  from handler_step.accepts [OF this] this None show ?thesis by (auto simp: needs_client_def)
next
  case (Some qns)
  then obtain question n s where d: "wss_debate w = Some (question, n, s)" by (cases qns) auto
  show ?thesis
  proof (cases "oc_point s = Returned")
    case True
    with assms(1,2) d have pt: "wss_point w = AtEvents" by (auto simp: session_ok_def session_done_def)
    from handler_step.leaves [OF this d] True d pt show ?thesis by (fastforce simp: needs_client_def)
  next
    case False
    from assms(1) d obtain msg s0 where "HandleSession msg DefaultPanel = Inr (question, n, s0)" "debates orch question DefaultPanel n s0 s"
      by (auto simp: session_ok_def)
    from session_reach [OF this] have "oc_listening s \<or> oc_done s"
      by (simp add: debate_inv_def order_inv_def)
    from unaided_step [OF this assms(4,5) False, of question DefaultPanel n] obtain s'
      where s': "run_step orch question DefaultPanel n s s'" "oc_wire s' = oc_wire s"
        "oc_listening s' \<longrightarrow> oc_done s' = oc_done s" by blast
    from handler_step.debates_on [OF d s'(1)] s'(2,3) d assms(3) show ?thesis
      by (fastforce simp: needs_client_def write_deadline_def)
  qed
qed

section \<open>All sessions\<close>

text \<open>The session of a request is the \<open>next\<close> of its handler.\<close>

record 'l service =
  sy_gate :: "'l server"
  sy_sessions :: "nat \<Rightarrow> ws_session"

definition start_service :: "'l limiter \<Rightarrow> usage \<Rightarrow> 'l service" where
  "start_service l u = \<lparr>sy_gate = start_server l u, sy_sessions = (\<lambda>_. fresh_session)\<rparr>"

abbreviation requests :: "'l service \<Rightarrow> handling list" where
  "requests v \<equiv> sv_requests (sy_gate v)"

text \<open>The service at work on the requests it has: a guard, a step of a session or of the debate it left
  behind, or a handler that returns and with it the slot.\<close>

inductive working_step :: "'l rate_package \<Rightarrow> gate_config \<Rightarrow> orchestrator \<Rightarrow> 'l service \<Rightarrow> 'l service \<Rightarrow> bool"
  for pkg g orch where
  admits: "guard_step pkg g (sy_gate v) s \<Longrightarrow> working_step pkg g orch v (v\<lparr>sy_gate := s\<rparr>)"
| handles: "i < length (requests v) \<Longrightarrow> hg_stage (requests v ! i) \<in> {InNext, Finished} \<Longrightarrow>
    handler_step orch DefaultPanel (sy_sessions v i) w \<Longrightarrow>
    working_step pkg g orch v (v\<lparr>sy_sessions := (sy_sessions v)(i := w)\<rparr>)"
| finishes: "i < length (requests v) \<Longrightarrow> hg_stage (requests v ! i) = InNext \<Longrightarrow>
    wss_point (sy_sessions v i) = SessionOver \<Longrightarrow>
    working_step pkg g orch v (v\<lparr>sy_gate := release i (sy_gate v)\<rparr>)"

inductive service_step :: "'l rate_package \<Rightarrow> gate_config \<Rightarrow> orchestrator \<Rightarrow> 'l service \<Rightarrow> 'l service \<Rightarrow> bool"
  for pkg g orch where
  works: "working_step pkg g orch v v' \<Longrightarrow> service_step pkg g orch v v'"
| comes: "service_step pkg g orch v (v\<lparr>sy_gate := arrival g r (sy_gate v)\<rparr>)"
| ticks: "service_step pkg g orch v (v\<lparr>sy_gate := (sy_gate v)\<lparr>sv_limiter := sweep now (sv_limiter (sy_gate v))\<rparr>\<rparr>)"

text \<open>A guard moves one request on, by one stage; none of them ends a \<open>next\<close>.\<close>

lemma guard_step_moves:
  assumes "guard_step pkg g s t"
  obtains i h where "i < length (sv_requests s)" "sv_requests t = (sv_requests s)[i := h]"
    "hg_stage (sv_requests s ! i) \<notin> {InNext, Finished}" "hg_stage h \<noteq> Finished"
    "steps_left (hg_stage h) < steps_left (hg_stage (sv_requests s ! i))"
  using assms
proof cases
  case (limits i now)
  show thesis
    by (rule that [of i "(sv_requests s ! i)\<lparr>hg_stage := if fst (Allow pkg now (hg_ip (sv_requests s ! i)) (sv_limiter s))
          then AtQuota else Rejected 429 ''rate limit exceeded''\<rparr>"])
      (auto simp: limits limiter_guard_def set_stage_def split: prod.split)
next
  case (counts i db day)
  let ?st = "case fst (CheckAndIncrement db (hg_ip (sv_requests s ! i)) day (gc_dailyLimit g) (sv_usage s)) of
           None \<Rightarrow> Rejected 503 ''quota check failed''
         | Some ok \<Rightarrow> if ok then AtSemaphore else Rejected 429 ''daily limit reached''"
  have "?st = AtSemaphore \<or> (\<exists>c msg. ?st = Rejected c msg)" by (auto split: option.split)
  then show thesis
    using that [OF counts(2) quota_guard_requests(3) [OF counts(2), of g db day, folded counts(1)]] counts(3) by auto
next
  case (acquires i)
  show thesis
    by (rule that [of i "(sv_requests s ! i)\<lparr>hg_stage := if sv_slots s < gc_sem g
          then InNext else Rejected 503 ''server busy, try again shortly''\<rparr>"])
      (auto simp: acquires semaphore_guard_def set_stage_def)
qed

definition service_ok :: "'l rate_package \<Rightarrow> gate_config \<Rightarrow> orchestrator \<Rightarrow> 'l limiter \<Rightarrow> usage \<Rightarrow> 'l service \<Rightarrow> bool" where
  "service_ok pkg g orch l u v \<longleftrightarrow> (server_step pkg g)\<^sup>*\<^sup>* (start_server l u) (sy_gate v) \<and>
    (\<forall>i. session_ok orch (sy_sessions v i)) \<and>
    (\<forall>i < length (requests v). hg_stage (requests v ! i) = Finished \<longrightarrow> wss_point (sy_sessions v i) = SessionOver) \<and>
    (\<forall>i. i < length (requests v) \<and> hg_stage (requests v ! i) \<in> {InNext, Finished} \<or> sy_sessions v i = fresh_session)"

lemma session_ok_fresh: "session_ok orch fresh_session"
  by (simp add: session_ok_def fresh_session_def)

lemma session_over_stays:
  "handler_step orch ps w w' \<Longrightarrow> wss_point w = SessionOver \<Longrightarrow> wss_point w' = SessionOver"
  by (cases rule: handler_step.cases) auto

lemma service_ok_works:
  assumes "working_step pkg g orch v v'" "service_ok pkg g orch l u v"
  shows "service_ok pkg g orch l u v'"
  using assms(1)
proof cases
  case (admits s)
  from guard_step_moves [OF admits(2)] obtain i h where m: "i < length (requests v)" "sv_requests s = (requests v)[i := h]"
    "hg_stage (requests v ! i) \<notin> {InNext, Finished}" "hg_stage h \<noteq> Finished" by metis
  from server_step.guards [OF admits(2)] assms(2) have "(server_step pkg g)\<^sup>*\<^sup>* (start_server l u) s"
    by (auto simp: service_ok_def intro: rtranclp.rtrancl_into_rtrancl)
  moreover have "j < length (requests v) \<and> hg_stage ((requests v)[i := h] ! j) \<in> {InNext, Finished} \<or> sy_sessions v j = fresh_session" for j
    using assms(2) m(3) unfolding service_ok_def by (cases "j = i") auto
  moreover have "hg_stage ((requests v)[i := h] ! j) = Finished \<longrightarrow> wss_point (sy_sessions v j) = SessionOver"
    if "j < length (requests v)" for j
    using assms(2) m(1,4) that by (auto simp: service_ok_def nth_list_update)
  ultimately show ?thesis using assms(2) by (simp add: service_ok_def admits(1) m(2))
next
  case (handles i w)
  from assms(2) have ok: "session_ok orch (sy_sessions v j)" for j by (simp add: service_ok_def)
  have "session_ok orch w" by (rule session_ok_step [OF handles(4) ok])
  moreover have "wss_point w = SessionOver" if "wss_point (sy_sessions v i) = SessionOver"
    using session_over_stays [OF handles(4) that] .
  ultimately show ?thesis using assms(2) handles by (auto simp: service_ok_def)
next
  case (finishes i)
  from server_step.returns [OF finishes(2,3)] assms(2) have "(server_step pkg g)\<^sup>*\<^sup>* (start_server l u) (release i (sy_gate v))"
    by (auto simp: service_ok_def intro: rtranclp.rtrancl_into_rtrancl)
  moreover have "sv_requests (release i (sy_gate v)) = (requests v)[i := (requests v ! i)\<lparr>hg_stage := Finished\<rparr>]"
    by (simp add: release_def set_stage_def)
  ultimately show ?thesis
    using assms(2) finishes by (auto simp: service_ok_def nth_list_update)
qed

lemma service_ok_step:
  assumes "service_step pkg g orch v v'" "service_ok pkg g orch l u v"
  shows "service_ok pkg g orch l u v'"
  using assms(1)
proof cases
  case works
  then show ?thesis by (rule service_ok_works) (rule assms(2))
next
  case (comes r)
  from assms(2) server_step.arrives [of pkg g "sy_gate v" r]
  have "(server_step pkg g)\<^sup>*\<^sup>* (start_server l u) (arrival g r (sy_gate v))"
    by (auto simp: service_ok_def intro: rtranclp.rtrancl_into_rtrancl)
  then show ?thesis
    using assms(2) comes by (auto simp: service_ok_def arrival_def nth_append less_Suc_eq)
next
  case (ticks now)
  from assms(2) server_step.sweeps [of pkg g "sy_gate v" now]
  have "(server_step pkg g)\<^sup>*\<^sup>* (start_server l u) ((sy_gate v)\<lparr>sv_limiter := sweep now (sv_limiter (sy_gate v))\<rparr>)"
    by (auto simp: service_ok_def intro: rtranclp.rtrancl_into_rtrancl)
  then show ?thesis using assms(2) ticks by (simp add: service_ok_def)
qed

interpretation service: step_system "service_step pkg g orch" "service_ok pkg g orch l u"
  by unfold_locales (rule service_ok_step)

lemma service_ok_gate:
  "service_ok pkg g orch l u v \<Longrightarrow> admission_inv g u (sy_gate v)"
  using gate.inv_reach [OF _ admission_inv_start] unfolding service_ok_def by blast

lemma service_ok_start: "service_ok pkg g orch l u (start_service l u)"
  by (simp add: service_ok_def start_service_def start_server_def session_ok_fresh)

section \<open>Work comes to an end\<close>

text \<open>The requests a service has, as a multiset of what is left of each: a working step makes one of them
  smaller.\<close>

definition request_ends :: "orchestrator \<Rightarrow> ((nat \<times> ws_session) \<times> (nat \<times> ws_session)) set" where
  "request_ends orch = less_than <*lex*> session_ends orch"

definition work_of :: "'l service \<Rightarrow> (nat \<times> ws_session) multiset" where
  "work_of v = mset (map (\<lambda>i. (steps_left (hg_stage (requests v ! i)), sy_sessions v i)) [0..<length (requests v)])"

lemma mset_update_less:
  assumes "i < length xs" "(y, xs ! i) \<in> r"
  shows "(mset (xs[i := y]), mset xs) \<in> mult r"
proof -
  have "mset xs = mset (take i xs @ drop (Suc i) xs) + {#xs ! i#}"
    by (subst id_take_nth_drop [OF assms(1)]) simp
  moreover have "mset (xs[i := y]) = mset (take i xs @ drop (Suc i) xs) + {#y#}"
    using assms(1) by (simp add: upd_conv_take_nth_drop)
  ultimately show ?thesis
    using one_step_implies_mult [of "{#xs ! i#}" "{#y#}" r "mset (take i xs @ drop (Suc i) xs)"] assms(2) by simp
qed

lemma work_of_less:
  assumes "length (requests v') = length (requests v)" "i < length (requests v)"
    and "\<And>j. j < length (requests v) \<Longrightarrow> j \<noteq> i \<Longrightarrow>
      hg_stage (requests v' ! j) = hg_stage (requests v ! j) \<and> sy_sessions v' j = sy_sessions v j"
    and "((steps_left (hg_stage (requests v' ! i)), sy_sessions v' i),
          (steps_left (hg_stage (requests v ! i)), sy_sessions v i)) \<in> request_ends orch"
  shows "(work_of v', work_of v) \<in> mult (request_ends orch)"
proof -
  let ?w = "\<lambda>v. map (\<lambda>i. (steps_left (hg_stage (requests v ! i)), sy_sessions v i)) [0..<length (requests v)]"
  have "?w v' = (?w v)[i := (steps_left (hg_stage (requests v' ! i)), sy_sessions v' i)]"
    using assms(1-3) by (intro nth_equalityI) (auto simp: nth_list_update)
  with mset_update_less [of i "?w v" _ "request_ends orch"] assms(2,4) show ?thesis by (simp add: work_of_def)
qed

lemma working_step_less:
  assumes "working_step pkg g orch v v'"
  shows "(work_of v', work_of v) \<in> mult (request_ends orch)"
  using assms
proof cases
  case (admits s)
  from guard_step_moves [OF admits(2)] obtain i h where m: "i < length (requests v)" "sv_requests s = (requests v)[i := h]"
    "steps_left (hg_stage h) < steps_left (hg_stage (requests v ! i))" by metis
  then show ?thesis
    by (intro work_of_less [where i = i]) (auto simp: admits(1) request_ends_def)
next
  case (handles i w)
  then show ?thesis
    by (intro work_of_less [where i = i]) (auto simp: request_ends_def handler_step_ends)
next
  case (finishes i)
  then show ?thesis
    by (intro work_of_less [where i = i]) (auto simp: request_ends_def release_def set_stage_def)
qed

lemma working_wf: "wf {(v', v). working_step pkg g orch v v'}"
proof (rule wf_subset)
  show "wf (inv_image (mult (request_ends orch)) work_of)"
    by (intro wf_inv_image wf_mult) (simp add: request_ends_def wf_lex_prod wf_session_ends)
  show "{(v', v). working_step pkg g orch v v'} \<subseteq> inv_image (mult (request_ends orch)) work_of"
    using working_step_less by (auto simp: inv_image_def)
qed

text \<open>A service with nothing to work on: every request is answered, no slot is taken, no goroutine left.\<close>

definition at_rest :: "'l service \<Rightarrow> bool" where
  "at_rest v \<longleftrightarrow> all_answered (sy_gate v) \<and> sv_slots (sy_gate v) = 0 \<and>
    (\<forall>i < length (requests v). case wss_debate (sy_sessions v i) of None \<Rightarrow> True | Some (_, _, s) \<Rightarrow> oc_point s = Returned)"

lemma guard_possible:
  assumes "i < length (sv_requests s)" "hg_stage (sv_requests s ! i) \<in> {AtLimiter, AtQuota, AtSemaphore}"
  shows "\<exists>t. guard_step pkg g s t"
  using assms guard_step.intros [of i s] by blast

text \<open>The steps the server makes on its own, and the requests whose handlers wait for the first message of
  their clients.\<close>

definition own_step :: "'l rate_package \<Rightarrow> gate_config \<Rightarrow> orchestrator \<Rightarrow> 'l service \<Rightarrow> 'l service \<Rightarrow> bool" where
  "own_step pkg g orch v v' \<longleftrightarrow> working_step pkg g orch v v'
     \<and> (\<forall>i. \<not> needs_client (sy_sessions v i) (sy_sessions v' i))"

definition awaiting :: "'l service \<Rightarrow> nat set" where
  "awaiting v = {i. i < length (requests v) \<and> in_next (requests v ! i) \<and> wss_point (sy_sessions v i) = AtRead}"

definition waits_for_clients :: "'l service \<Rightarrow> bool" where
  "waits_for_clients v \<longleftrightarrow>
    (\<forall>i < length (requests v). i \<in> awaiting v \<or> steps_left (hg_stage (requests v ! i)) = 0) \<and>
    sv_slots (sy_gate v) = card (awaiting v) \<and>
    (\<forall>i < length (requests v). case wss_debate (sy_sessions v i) of None \<Rightarrow> True | Some (_, _, s) \<Rightarrow> oc_point s = Returned)"

lemma waits_for_none:
  "waits_for_clients v \<Longrightarrow> awaiting v = {} \<Longrightarrow> at_rest v"
  by (auto simp: waits_for_clients_def at_rest_def all_answered_def in_set_conv_nth)

lemma session_possible:
  assumes "service_ok pkg g orch l u v" "answers orch" "0 < or_limit orch"
    and "i < length (requests v)" "hg_stage (requests v ! i) \<in> {InNext, Finished}" "\<not> session_done (sy_sessions v i)"
    and "i \<notin> awaiting v"
  shows "\<exists>v'. own_step pkg g orch v v'"
proof -
  have ok: "session_ok orch (sy_sessions v i)" using assms(1) by (simp add: service_ok_def)
  have "wss_point (sy_sessions v i) \<noteq> AtRead"
    using assms(1,4,5,7) by (auto simp: awaiting_def in_next_def service_ok_def)
  from session_goes_on [OF ok assms(6) this assms(2,3)] obtain w
    where "handler_step orch DefaultPanel (sy_sessions v i) w" "\<not> needs_client (sy_sessions v i) w" by blast
  from working_step.handles [OF assms(4,5) this(1), of pkg g] this(2)
  have "own_step pkg g orch v (v\<lparr>sy_sessions := (sy_sessions v)(i := w)\<rparr>)" by (simp add: own_step_def)
  then show ?thesis by blast
qed

lemma works_or_waits:
  assumes "service_ok pkg g orch l u v" "answers orch" "0 < or_limit orch"
  shows "(\<exists>v'. own_step pkg g orch v v') \<or> waits_for_clients v"
proof (rule disjCI)
  assume waits: "\<not> waits_for_clients v"
  show "\<exists>v'. own_step pkg g orch v v'"
  proof (cases "\<exists>i < length (requests v). hg_stage (requests v ! i) \<in> {AtLimiter, AtQuota, AtSemaphore}")
    case True
    then obtain s where "guard_step pkg g (sy_gate v) s" using guard_possible by blast
    from working_step.admits [OF this] show ?thesis by (fastforce simp: own_step_def)
  next
    case guarded: False
    show ?thesis
    proof (cases "\<exists>i < length (requests v). hg_stage (requests v ! i) \<in> {InNext, Finished} \<and> \<not> session_done (sy_sessions v i)
        \<and> i \<notin> awaiting v")
      case True
      then show ?thesis using session_possible [OF assms] by blast
    next
      case handled: False
      have ended: "session_done (sy_sessions v i)"
        if "i < length (requests v)" "hg_stage (requests v ! i) \<in> {InNext, Finished}" "i \<notin> awaiting v" for i
        using handled that by blast
      show ?thesis
      proof (cases "\<exists>i < length (requests v). hg_stage (requests v ! i) = InNext \<and> i \<notin> awaiting v")
        case True
        then obtain i where i: "i < length (requests v)" "hg_stage (requests v ! i) = InNext" "i \<notin> awaiting v" by blast
        with ended have "wss_point (sy_sessions v i) = SessionOver" by (simp add: session_done_def)
        from working_step.finishes [OF i(1,2) this] show ?thesis by (fastforce simp: own_step_def)
      next
        case none: False
        have answered: "i \<in> awaiting v \<or> steps_left (hg_stage (requests v ! i)) = 0" if "i < length (requests v)" for i
          using guarded none that by (cases "hg_stage (requests v ! i)") auto
        have "awaiting v = {i. i < length (requests v) \<and> in_next (requests v ! i)}"
          using none by (auto simp: awaiting_def in_next_def)
        with service_ok_gate [OF assms(1)] have "sv_slots (sy_gate v) = card (awaiting v)"
          by (simp add: admission_inv_def length_filter_conv_card)
        moreover have "case wss_debate (sy_sessions v i) of None \<Rightarrow> True | Some (_, _, s) \<Rightarrow> oc_point s = Returned"
          if i: "i < length (requests v)" for i
        proof (cases "hg_stage (requests v ! i) \<in> {InNext, Finished}")
          case True
          show ?thesis
          proof (cases "i \<in> awaiting v")
            case True
            moreover from assms(1) have "session_ok orch (sy_sessions v i)" by (simp add: service_ok_def)
            ultimately show ?thesis by (auto simp: awaiting_def session_ok_def split: option.splits)
          qed (use ended [OF i True] in \<open>simp add: session_done_def\<close>)
        next
          case False
          with assms(1) have "sy_sessions v i = fresh_session" by (auto simp: service_ok_def)
          then show ?thesis by (simp add: fresh_session_def)
        qed
        ultimately have "waits_for_clients v" using answered by (simp add: waits_for_clients_def)
        with waits show ?thesis by contradiction
      qed
    qed
  qed
qed

text \<open>So a client that connects and says nothing keeps its slot, whatever the server does on its own; and
  when such clients have all the slots, everybody else is turned away.\<close>

lemma idle_client_keeps_its_slot:
  assumes "service_ok pkg g orch l u v" "own_step pkg g orch v v'" "i \<in> awaiting v"
  shows "i \<in> awaiting v'"
proof -
  from assms(3) have i: "i < length (requests v)" "hg_stage (requests v ! i) = InNext" "wss_point (sy_sessions v i) = AtRead"
    by (simp_all add: awaiting_def in_next_def)
  from assms(2) have own: "\<not> needs_client (sy_sessions v i) (sy_sessions v' i)" and "working_step pkg g orch v v'"
    by (simp_all add: own_step_def)
  from this(2) show ?thesis
  proof cases
    case (admits s)
    from guard_step_moves [OF admits(2)] obtain j h where "j < length (requests v)" "sv_requests s = (requests v)[j := h]"
      "hg_stage (requests v ! j) \<notin> {InNext, Finished}" by metis
    with i show ?thesis by (cases "j = i") (auto simp: awaiting_def in_next_def admits(1))
  next
    case (handles j w)
    with own i show ?thesis by (cases "j = i") (auto simp: awaiting_def in_next_def needs_client_def read_deadline_def)
  next
    case (finishes j)
    with i show ?thesis by (cases "j = i") (auto simp: awaiting_def in_next_def release_def set_stage_def)
  qed
qed

lemma idle_clients_lock_out:
  assumes "service_ok pkg g orch l u v" "card (awaiting v) = gc_sem g" "i < length (requests v)"
  shows "hg_stage (sv_requests (semaphore_guard g i (sy_gate v)) ! i) = Rejected 503 ''server busy, try again shortly''"
proof -
  have "card (awaiting v) \<le> card {i. i < length (requests v) \<and> in_next (requests v ! i)}"
    by (intro card_mono) (auto simp: awaiting_def)
  with service_ok_gate [OF assms(1)] assms(2) have "gc_sem g \<le> sv_slots (sy_gate v)"
    by (simp add: admission_inv_def length_filter_conv_card)
  with assms(3) show ?thesis by (simp add: semaphore_guard_def set_stage_def)
qed

section \<open>What the clients are sent\<close>

lemma session_wire_in_order:
  assumes "session_ok orch w"
  shows "\<exists>es. session_wire w = map go_of_event es \<and> list_all wf_event es \<and> in_order ({}, False, False) (map Feed es)"
proof (cases "wss_debate w")
  case None
  with assms have "wss_answered w = [] \<or> wss_answered w = [go_Error '''' (js ''invalid request'')]"
    by (auto simp: session_ok_def)
  then show ?thesis
  proof
    assume "wss_answered w = [go_Error '''' (js ''invalid request'')]"
    then show ?thesis
      by (intro exI [of _ "[ErrorEvent \<lparr>ee_persona = None, ee_error = js ''invalid request''\<rparr>]"])
        (simp add: session_wire_def None)
  qed (simp add: session_wire_def None)
next
  case (Some qns)
  then obtain question n s where d: "wss_debate w = Some (question, n, s)" by (cases qns) auto
  with assms obtain msg s0 where "HandleSession msg DefaultPanel = Inr (question, n, s0)" "debates orch question DefaultPanel n s0 s"
    and "wss_answered w = []" by (auto simp: session_ok_def)
  with session_reach [OF this(1,2)] d show ?thesis by (auto simp: session_wire_def debate_inv_def order_inv_def)
qed

section \<open>What main puts together\<close>

text \<open>What \<open>main\<close> builds of its configuration: the orchestrator, over z.ai, with a pool no larger than the
  panel.\<close>

definition maxConcurrency :: nat where "maxConcurrency = 6"

definition main_orchestrator :: "(string \<Rightarrow> wire_chunk option) \<Rightarrow> (string \<Rightarrow> string option) \<Rightarrow>
    (http_request \<Rightarrow> http_reply \<Rightarrow> bool) \<Rightarrow> config \<Rightarrow> orchestrator" where
  "main_orchestrator unmarshal new_request net cfg =
    new_orchestrator (zai_stream unmarshal new_request net (NewZaiProvider (cf_ZaiAPIKey cfg) (cf_LlmModel cfg)) True)
      (cf_LlmModel cfg) (int (min maxConcurrency (length DefaultPanel)))"

text \<open>The calls of the model a debate has running.\<close>

definition model_calls :: "orchestration \<Rightarrow> nat" where
  "model_calls s = (case oc_point s of InRound r R \<Rightarrow> length (rr_running R) | InModerator c \<Rightarrow> 1 | _ \<Rightarrow> 0)"

lemma model_calls_bounded:
  assumes "debates (new_orchestrator provider model limit) question ps n (Run ps n) s"
  shows "int (model_calls s) \<le> max 1 limit"
  using streams_within_limit [OF assms] by (cases "oc_point s") (simp_all add: model_calls_def)

lemma sum_of_those:
  assumes "\<And>i. i < length xs \<Longrightarrow> P (xs ! i) \<Longrightarrow> f i \<le> (k::nat)"
  shows "(\<Sum>i | i < length xs \<and> P (xs ! i). f i) \<le> k * length (filter P xs)"
proof -
  have "(\<Sum>i | i < length xs \<and> P (xs ! i). f i) \<le> (\<Sum>i | i < length xs \<and> P (xs ! i). k)"
    using assms by (intro sum_mono) auto
  then show ?thesis by (simp add: length_filter_conv_card mult.commute)
qed

definition example_config :: config where
  "example_config = \<lparr>cf_Addr = '':8080'', cf_AllowedOrigins = [runes ''localhost:5173''], cf_ZaiAPIKey = ''k'',
     cf_LlmModel = ''glm-4.7'', cf_RateLimitRPS = JNum 1, cf_RateLimitBurst = 3, cf_RateLimitTTL = 600 * SECOND,
     cf_RateLimitSweepEvery = 60 * SECOND, cf_MaxConcurrentSessions = 6, cf_DailyQuota = 20,
     cf_DBPath = ''./council.db'', cf_TrustProxy = False\<rparr>"

lemma example_loads: "Load ps ((\<lambda>_. '''')(''ZAI_API_KEY'' := ''k'')) = Inr example_config"
  by (simp add: Load_def env_value_def checked_def and_then_def float_le_def js_num_eq_def orDefault_def
      parseOrigins_def example_config_def runes_def SECOND_def)

section \<open>A service at work\<close>

text \<open>A run for the witnesses: a client is admitted and asks; its debate calls the model once; the write
  of what the call says fails, so the handler leaves and the slot is free; and a second client of the same
  address is admitted and asks. \<open>R\<close> is the round with the one call, of which nothing is known but the
  \<open>reply\<close> it gets.\<close>

definition example_round :: "provider_reply \<Rightarrow> round_run" where
  "example_round reply = (start_round DefaultPanel)
     \<lparr>rr_waiting := tl (rr_waiting (start_round DefaultPanel)),
      rr_running := [(0, stream_start (hd DefaultPanel) 1 False reply)]\<rparr>"

definition example_calling :: "provider_reply \<Rightarrow> orchestration" where
  "example_calling reply = (Run DefaultPanel 2)\<lparr>oc_point := InRound 1 (example_round reply)\<rparr>"

abbreviation example_reply :: provider_reply where
  "example_reply \<equiv> Inr [delta_event (js ''x'')]"

definition example_left :: orchestration where
  "example_left = (example_calling example_reply)\<lparr>oc_listening := False, oc_done := True,
     oc_point := InRound 1 (resume_panelist 0 True (example_round example_reply))\<rparr>"

definition asking :: "session_point \<Rightarrow> orchestration \<Rightarrow> ws_session" where
  "asking pt s = \<lparr>wss_point = pt, wss_debate = Some (js ''a'', 2, s), wss_answered = []\<rparr>"

lemma example_message:
  "HandleSession \<lparr>cm_type = ''ask'', cm_question = [97], cm_rounds = 0\<rparr> DefaultPanel = Inr (js ''a'', 2, Run DefaultPanel 2)"
  by (simp add: HandleSession_def go_Validate_def trim_by_def go_is_space_def go_text_def js_def)

lemma example_panel:
  "rr_waiting (start_round DefaultPanel) = (0, hd DefaultPanel) # tl (rr_waiting (start_round DefaultPanel))"
  by (simp add: start_round_def DefaultPanel_def)

lemma example_calls:
  assumes "\<And>req. or_provider orch req reply" "0 < or_limit orch"
  shows "run_step orch (js ''a'') DefaultPanel 2 (Run DefaultPanel 2) (example_calling reply)"
proof -
  have at: "oc_point (Run DefaultPanel 2) = InRound 1 (start_round DefaultPanel)"
    by (simp add: Run_def next_round_def)
  from run_step.starts [OF at example_panel _ assms(1), where question = "js ''a''"] assms(2) show ?thesis
    by (simp add: example_calling_def example_round_def start_round_def)
qed

lemma example_fails: "run_step orch (js ''a'') DefaultPanel 2 (example_calling example_reply) example_left"
proof -
  let ?R = "example_round example_reply"
  have at: "oc_point (example_calling example_reply) = InRound 1 ?R" by (simp add: example_calling_def)
  have "emit WriteFailed (stream_emits (snd (rr_running ?R ! 0))) (example_calling example_reply) =
      Some ((example_calling example_reply)\<lparr>oc_listening := False, oc_done := True\<rparr>, True)"
    by (simp add: example_calling_def Run_def)
  from run_step.speaks [OF at _ this] show ?thesis by (simp add: example_left_def example_round_def)
qed

lemma example_numbers:
  "model_calls (example_calling reply) = 1" "model_calls example_left = 1" "\<not> oc_listening example_left"
  "oc_done example_left" "\<not> oc_done (example_calling reply)"
  by (simp_all add: example_calling_def example_left_def example_round_def model_calls_def resume_panelist_def
      stream_start_def stream_resumes_def delta_event_def Run_def)

lemma example_done: "example_left\<lparr>oc_done := True\<rparr> = example_left"
  by (simp add: example_left_def)

text \<open>A session gets to any state of the debate it convokes.\<close>

lemma session_hosts:
  assumes "HandleSession msg DefaultPanel = Inr (question, n, s0)" "debates orch question DefaultPanel n s0 s"
  shows "(handler_step orch DefaultPanel)\<^sup>*\<^sup>* fresh_session
    \<lparr>wss_point = AtEvents, wss_debate = Some (question, n, s), wss_answered = []\<rparr>"
proof -
  let ?S = "handler_step orch DefaultPanel"
  let ?w = "\<lambda>s. \<lparr>wss_point = AtEvents, wss_debate = Some (question, n, s), wss_answered = []\<rparr>"
  have "?S fresh_session (fresh_session\<lparr>wss_point := AtRead\<rparr>)"
    by (rule handler_step.accepts) (simp add: fresh_session_def)
  moreover have "?S (fresh_session\<lparr>wss_point := AtRead\<rparr>) (?w s0)"
    using handler_step.convokes [OF _ assms(1), of "fresh_session\<lparr>wss_point := AtRead\<rparr>" orch]
    by (simp add: fresh_session_def)
  moreover have "?S\<^sup>*\<^sup>* (?w s0) (?w s)"
    using assms(2)
  proof (induction rule: rtranclp_induct)
    case (step s1 s2)
    from handler_step.debates_on [OF _ step.hyps(2), of "?w s1"] have "?S (?w s1) (?w s2)" by simp
    with step.IH show ?case by (rule rtranclp.rtrancl_into_rtrancl)
  qed simp
  ultimately show ?thesis by (meson converse_rtranclp_into_rtranclp)
qed

text \<open>The steps of a session: up to the call, and from there to the handler's return.\<close>

lemma example_session:
  assumes "\<And>req. or_provider orch req reply" "0 < or_limit orch"
  shows "(handler_step orch DefaultPanel)\<^sup>*\<^sup>* fresh_session (asking AtEvents (example_calling reply))"
  unfolding asking_def using example_calls [OF assms] by (intro session_hosts [OF example_message]) simp

lemma example_leaves:
  "(handler_step orch DefaultPanel)\<^sup>*\<^sup>* (asking AtEvents (example_calling example_reply)) (asking SessionOver example_left)"
proof -
  let ?S = "handler_step orch DefaultPanel"
  have "?S (asking AtEvents (example_calling example_reply)) (asking AtEvents example_left)"
    using handler_step.debates_on [OF _ example_fails, of "asking AtEvents (example_calling example_reply)"]
    by (simp add: asking_def)
  moreover have "?S (asking AtEvents example_left) (asking SessionOver example_left)"
    using handler_step.leaves [of "asking AtEvents example_left" "js ''a''" 2 example_left orch DefaultPanel]
      example_numbers(3) example_done
    by (simp add: asking_def)
  ultimately show ?thesis by (meson converse_rtranclp_into_rtranclp rtranclp.rtrancl_refl)
qed

lemma session_lifts:
  assumes "(handler_step orch DefaultPanel)\<^sup>*\<^sup>* (sy_sessions v i) w"
    and "i < length (requests v)" "hg_stage (requests v ! i) \<in> {InNext, Finished}"
  shows "(service_step pkg g orch)\<^sup>*\<^sup>* v (v\<lparr>sy_sessions := (sy_sessions v)(i := w)\<rparr>)"
  using assms(1)
proof (induction rule: rtranclp_induct)
  case (step w w')
  let ?v = "v\<lparr>sy_sessions := (sy_sessions v)(i := w)\<rparr>"
  have "handler_step orch DefaultPanel (sy_sessions ?v i) w'" using step.hyps(2) by simp
  from working_step.handles [OF _ _ this, of pkg g] assms(2,3)
  have "working_step pkg g orch ?v (?v\<lparr>sy_sessions := (sy_sessions ?v)(i := w')\<rparr>)" by simp
  moreover have "?v\<lparr>sy_sessions := (sy_sessions ?v)(i := w')\<rparr> = v\<lparr>sy_sessions := (sy_sessions v)(i := w')\<rparr>" by simp
  ultimately have "service_step pkg g orch ?v (v\<lparr>sy_sessions := (sy_sessions v)(i := w')\<rparr>)"
    by (metis service_step.works)
  with step.IH show ?case by (rule rtranclp.rtrancl_into_rtrancl)
qed simp

text \<open>The guards let a request of \<open>r\<close> through on a day.\<close>

definition admission :: "'l rate_package \<Rightarrow> gate_config \<Rightarrow> string \<Rightarrow> nat \<Rightarrow> 'l server \<Rightarrow> 'l server" where
  "admission pkg g day i s = semaphore_guard g i (quota_guard g DbDone day i (limiter_guard pkg 0 i s))"

lemma admission_lifts:
  assumes "sy_gate v = s" "i < length (sv_requests s)" "hg_stage (sv_requests s ! i) = AtLimiter"
    and "let s' = limiter_guard pkg 0 i s in i < length (sv_requests s') \<and> hg_stage (sv_requests s' ! i) = AtQuota"
    and "let s' = quota_guard g DbDone day i (limiter_guard pkg 0 i s) in
      i < length (sv_requests s') \<and> hg_stage (sv_requests s' ! i) = AtSemaphore"
  shows "(service_step pkg g orch)\<^sup>*\<^sup>* v (v\<lparr>sy_gate := admission pkg g day i s\<rparr>)"
proof -
  let ?s1 = "limiter_guard pkg 0 i s" let ?s2 = "quota_guard g DbDone day i ?s1"
  have "service_step pkg g orch v (v\<lparr>sy_gate := ?s1\<rparr>)"
    using service_step.works [OF working_step.admits, of pkg g v ?s1 orch]
      guard_step.limits [OF assms(2,3), of pkg g 0] assms(1) by simp
  moreover have "service_step pkg g orch (v\<lparr>sy_gate := ?s1\<rparr>) (v\<lparr>sy_gate := ?s2\<rparr>)"
    using service_step.works [OF working_step.admits, of pkg g "v\<lparr>sy_gate := ?s1\<rparr>" ?s2 orch]
      guard_step.counts [of i ?s1 pkg g DbDone day] assms(4) by (simp add: Let_def)
  moreover have "service_step pkg g orch (v\<lparr>sy_gate := ?s2\<rparr>) (v\<lparr>sy_gate := admission pkg g day i s\<rparr>)"
    using service_step.works [OF working_step.admits, of pkg g "v\<lparr>sy_gate := ?s2\<rparr>" "admission pkg g day i s" orch]
      guard_step.acquires [of i ?s2 pkg g] assms(5) by (simp add: admission_def Let_def)
  ultimately show ?thesis by (meson converse_rtranclp_into_rtranclp rtranclp.rtrancl_refl)
qed

text \<open>The first client is let through; then there is a session for it.\<close>

definition example_admitted :: "gate_config \<Rightarrow> token_bucket service" where
  "example_admitted g = (start_service (new_limiter 1 3 600) example_usage)\<lparr>sy_gate := example_served g\<rparr>"

definition example_debating :: "gate_config \<Rightarrow> provider_reply \<Rightarrow> token_bucket service" where
  "example_debating g reply =
    (example_admitted g)\<lparr>sy_sessions := (\<lambda>_. fresh_session)(0 := asking AtEvents (example_calling reply))\<rparr>"

lemma example_admits:
  assumes "\<not> gc_trustProxy g" "2 \<le> gc_dailyLimit g"
  shows "(service_step rate_reference g orch)\<^sup>*\<^sup>* (start_service (new_limiter 1 3 600) example_usage) (example_admitted g)"
proof -
  let ?v = "start_service (new_limiter 1 3 600) example_usage :: token_bucket service"
  let ?a = "?v\<lparr>sy_gate := example_arrived\<rparr>"
  have "service_step rate_reference g orch ?v ?a"
    using service_step.comes [of rate_reference g orch ?v
        "\<lparr>rq_RemoteAddr = runes ''10.0.0.1:5000'', rq_XForwardedFor = []\<rparr>"] assms(1)
    by (simp add: example_arrived_def example_start_def start_service_def start_server_def arrival_def)
  moreover have "(service_step rate_reference g orch)\<^sup>*\<^sup>* ?a (?a\<lparr>sy_gate := admission rate_reference g ''2026-01-01'' 0 example_arrived\<rparr>)"
    by (rule admission_lifts) (simp_all add: example_simps example_ip assms(2))
  moreover have "?a\<lparr>sy_gate := admission rate_reference g ''2026-01-01'' 0 example_arrived\<rparr> = example_admitted g"
    by (simp add: admission_def example_admitted_def example_served_def)
  ultimately show ?thesis by (simp add: converse_rtranclp_into_rtranclp)
qed

lemma example_hosts:
  assumes "\<not> gc_trustProxy g" "2 \<le> gc_dailyLimit g" "1 \<le> gc_sem g"
    and "(handler_step orch DefaultPanel)\<^sup>*\<^sup>* fresh_session w"
  shows "(service_step rate_reference g orch)\<^sup>*\<^sup>* (start_service (new_limiter 1 3 600) example_usage)
    ((example_admitted g)\<lparr>sy_sessions := (\<lambda>_. fresh_session)(0 := w)\<rparr>)"
proof -
  have sessions: "sy_sessions (example_admitted g) = (\<lambda>_. fresh_session)" "sy_gate (example_admitted g) = example_served g"
    by (simp_all add: example_admitted_def start_service_def)
  have "(service_step rate_reference g orch)\<^sup>*\<^sup>* (example_admitted g)
      ((example_admitted g)\<lparr>sy_sessions := (sy_sessions (example_admitted g))(0 := w)\<rparr>)"
    using example_in_next [OF assms(3,2)] assms(4)
    by (intro session_lifts) (simp_all add: sessions in_next_def)
  with example_admits [OF assms(1,2)] show ?thesis unfolding sessions by (rule rtranclp_trans)
qed

lemma example_debates:
  assumes "\<not> gc_trustProxy g" "2 \<le> gc_dailyLimit g" "1 \<le> gc_sem g"
    and "\<And>req. or_provider orch req reply" "0 < or_limit orch"
  shows "(service_step rate_reference g orch)\<^sup>*\<^sup>* (start_service (new_limiter 1 3 600) example_usage) (example_debating g reply)"
  unfolding example_debating_def by (rule example_hosts [OF assms(1-3) example_session [OF assms(4,5)]])

section \<open>Properties\<close>

text \<open>C4. Every client gets a stream in order. Whatever the clients, the models and the database do, and
  however the handlers and goroutines of all of them interleave: what the server has written to a client
  is a sequence of events the frontend knows, with rounds in range, and in an order in which no token of
  a round comes after its round_complete, no moderator token after the verdict, and no round_complete or
  verdict after the end.\<close>

theorem every_client_gets_a_stream_in_order:
  assumes "(service_step pkg g orch)\<^sup>*\<^sup>* (start_service l u) v"
  shows "\<exists>es. session_wire (sy_sessions v i) = map go_of_event es \<and> list_all wf_event es
    \<and> in_order ({}, False, False) (map Feed es)"
  using service.inv_reach [OF assms service_ok_start] by (auto simp: service_ok_def intro: session_wire_in_order)

theorem every_client_gets_a_stream_in_order_witness:
  "\<exists>(v :: token_bucket service) es. RoundCompleteEvent 2 \<in> set es \<and> session_wire (sy_sessions v 0) = map go_of_event es
     \<and> list_all wf_event es \<and> in_order ({}, False, False) (map Feed es)"
proof -
  let ?orch = "new_orchestrator (\<lambda>_ _. True) ''glm'' 4"
  note start = example_message
  obtain b where b: "debates ?orch (js ''a'') DefaultPanel 2 (Run DefaultPanel 2) b" "oc_point b = Returned" "\<not> oc_done b"
    by (rule some_debate [OF _ _ start, of ?orch]) (simp_all add: answers_def new_orchestrator_def)
  have sent: "go_RoundComplete 2 \<in> set (oc_wire b)"
    using session_reach [OF start b(1)] b(2,3) by (simp add: debate_inv_def heard_inv_def rounds_on_wire_def)
  from example_hosts [where g = "\<lparr>gc_sem = 1, gc_dailyLimit = 3, gc_trustProxy = False\<rparr>", OF _ _ _ session_hosts [OF start b(1)]]
  obtain v where v: "(service_step rate_reference \<lparr>gc_sem = 1, gc_dailyLimit = 3, gc_trustProxy = False\<rparr> ?orch)\<^sup>*\<^sup>*
      (start_service (new_limiter 1 3 600) example_usage) v" "session_wire (sy_sessions v 0) = oc_wire b"
    by (fastforce simp: session_wire_def)
  from every_client_gets_a_stream_in_order [OF v(1)] obtain es where es: "session_wire (sy_sessions v 0) = map go_of_event es"
    "list_all wf_event es" "in_order ({}, False, False) (map Feed es)" by blast
  from sent v(2) es(1) have "go_RoundComplete 2 \<in> go_of_event ` set es" by (metis set_map)
  then obtain e where "e \<in> set es" "go_of_event e = go_RoundComplete 2" by (metis imageE)
  moreover from this(2) have "e = RoundCompleteEvent 2" by (cases e) (simp_all add: go_constructors)
  ultimately show ?thesis using es by blast
qed

text \<open>C18. Every request is answered, once its client has spoken. Whatever has happened on the server,
  with the requests it has it works for finitely many steps only, whatever the schedule, the clients, the
  models and the database make of them. And if the models' provider answers each request, and each of its
  streams ends, the server goes on by steps of its own, which need nothing of any client (a client that
  does not take in what is written to it is given up when \<open>writeTimeout\<close> has passed), until all that is left
  are handlers that wait for the first message of their clients: every other request is rejected or served,
  every slot but theirs is free, and every debate has returned, also those whose client has gone. Those
  handlers wait for ever, as their read has no deadline: with a client that never speaks the slot is not
  freed. Without such clients the server comes to rest.\<close>

theorem every_request_is_answered:
  assumes "(service_step pkg g orch)\<^sup>*\<^sup>* (start_service l u) v"
    and "\<And>req. \<exists>reply. or_provider orch req reply" "0 < or_limit orch"
  shows "wf {(v'', v'). working_step pkg g orch v' v''}
    \<and> ((\<exists>v'. own_step pkg g orch v v') \<or> waits_for_clients v)
    \<and> (\<forall>v'. own_step pkg g orch v v' \<longrightarrow> awaiting v \<subseteq> awaiting v')
    \<and> (awaiting v = {} \<longrightarrow> (\<exists>v'. own_step pkg g orch v v') \<or> at_rest v)"
proof -
  note ok = service.inv_reach [OF assms(1) service_ok_start]
  have "answers orch" using assms(2) by (simp add: answers_def)
  from works_or_waits [OF ok this assms(3)] idle_client_keeps_its_slot [OF ok] show ?thesis
    using working_wf waits_for_none by blast
qed

theorem every_request_is_answered_witness:
  "\<exists>v'. own_step rate_reference \<lparr>gc_sem = 1, gc_dailyLimit = 3, gc_trustProxy = False\<rparr>
    (new_orchestrator (\<lambda>_ _. True) ''glm'' 1)
    (example_debating \<lparr>gc_sem = 1, gc_dailyLimit = 3, gc_trustProxy = False\<rparr> example_reply) v'"
proof -
  let ?g = "\<lparr>gc_sem = 1, gc_dailyLimit = 3, gc_trustProxy = False\<rparr>"
  let ?orch = "new_orchestrator (\<lambda>_ _. True) ''glm'' 1"
  let ?v = "example_debating ?g example_reply"
  have "(service_step rate_reference ?g ?orch)\<^sup>*\<^sup>* (start_service (new_limiter 1 3 600) example_usage) ?v"
    by (rule example_debates) (simp_all add: new_orchestrator_def)
  from every_request_is_answered [OF this]
  have "(\<exists>v'. own_step rate_reference ?g ?orch ?v v') \<or> waits_for_clients ?v"
    by (simp add: new_orchestrator_def)
  moreover have "\<not> waits_for_clients ?v"
  proof
    assume waits: "waits_for_clients ?v"
    have "0 < length (requests ?v)" "hg_stage (requests ?v ! 0) = InNext" "0 \<notin> awaiting ?v"
      using example_in_next [of ?g]
      by (simp_all add: example_debating_def example_admitted_def start_service_def awaiting_def in_next_def asking_def)
    with waits show False by (auto simp: waits_for_clients_def)
  qed
  ultimately show ?thesis by blast
qed

text \<open>Whether the debate of a session is not cancelled, and its calls of the model.\<close>

definition going_on :: "ws_session \<Rightarrow> bool" where
  "going_on w \<longleftrightarrow> (case wss_debate w of None \<Rightarrow> False | Some (_, _, s) \<Rightarrow> \<not> oc_done s)"

definition session_calls :: "ws_session \<Rightarrow> nat" where
  "session_calls w = (case wss_debate w of None \<Rightarrow> 0 | Some (_, _, s) \<Rightarrow> model_calls s)"

lemma session_calls_bounded:
  assumes "session_ok (new_orchestrator provider model limit) w"
  shows "int (session_calls w) \<le> max 1 limit"
  using assms model_calls_bounded [of provider model limit]
  by (auto simp: session_ok_def session_calls_def dest: HandleSession_runs(1) split: option.splits)

lemma going_on_in_next:
  assumes "service_ok pkg g orch l u v" "going_on (sy_sessions v i)"
  shows "i < length (requests v) \<and> in_next (requests v ! i)"
proof -
  have "sy_sessions v i \<noteq> fresh_session" using assms(2) by (auto simp: going_on_def fresh_session_def)
  with assms(1) have i: "i < length (requests v)" "hg_stage (requests v ! i) \<in> {InNext, Finished}"
    by (auto simp: service_ok_def)
  have "session_ok orch (sy_sessions v i)" using assms(1) by (simp add: service_ok_def)
  with assms(2) have "wss_point (sy_sessions v i) \<noteq> SessionOver"
    by (auto simp: session_ok_def going_on_def split: option.splits)
  with i assms(1) have "hg_stage (requests v ! i) = InNext" by (auto simp: service_ok_def)
  with i show ?thesis by (simp add: in_next_def)
qed

text \<open>C19. The server's load on the model is bounded. With any configuration that loads, whatever the
  clients do and however their debates interleave, at no moment do the debates that are not cancelled
  have more calls of the model than four for each session the configuration allows.\<close>

theorem upstream_is_bounded:
  assumes "Load ps env = Inr cfg"
    and "(service_step pkg (main_gate cfg) (main_orchestrator unmarshal new_request net cfg))\<^sup>*\<^sup>* (start_service l u) v"
  shows "int (\<Sum>i | i < length (requests v) \<and> going_on (sy_sessions v i). session_calls (sy_sessions v i))
    \<le> 4 * cf_MaxConcurrentSessions cfg"
proof -
  note ok = service.inv_reach [OF assms(2) service_ok_start]
  have "session_calls (sy_sessions v i) \<le> 4" for i
    using ok session_calls_bounded [of _ _ "int (min maxConcurrency (length DefaultPanel))"]
    by (fastforce simp: service_ok_def main_orchestrator_def length_panel maxConcurrency_def)
  then have "(\<Sum>i | i < length (requests v) \<and> in_next (requests v ! i). session_calls (sy_sessions v i))
      \<le> 4 * length (filter in_next (requests v))"
    by (intro sum_of_those) simp
  moreover have "(\<Sum>i | i < length (requests v) \<and> going_on (sy_sessions v i). session_calls (sy_sessions v i))
      \<le> (\<Sum>i | i < length (requests v) \<and> in_next (requests v ! i). session_calls (sy_sessions v i))"
    by (intro sum_mono2) (auto dest: going_on_in_next [OF ok])
  moreover have "length (filter in_next (requests v)) \<le> nat (cf_MaxConcurrentSessions cfg)"
    using service_ok_gate [OF ok] by (simp add: admission_inv_def main_gate_def)
  moreover have "1 \<le> cf_MaxConcurrentSessions cfg"
    using config_is_sane [OF assms(1)] by simp
  ultimately show ?thesis by linarith
qed

theorem upstream_is_bounded_witness:
  "let v = example_debating (main_gate example_config) (Inl ''bad url'') in
   sv_slots (sy_gate v) = 1 \<and> session_calls (sy_sessions v 0) = 1 \<and>
   int (\<Sum>i | i < length (requests v) \<and> going_on (sy_sessions v i). session_calls (sy_sessions v i)) \<le> 4 * 6"
proof -
  let ?g = "main_gate example_config"
  let ?orch = "main_orchestrator (\<lambda>_. None) (\<lambda>_. Some ''bad url'') (\<lambda>_ _. False) example_config"
  have g: "gc_sem ?g = 6" "gc_dailyLimit ?g = 20" "\<not> gc_trustProxy ?g"
    by (simp_all add: main_gate_def example_config_def)
  have "(service_step rate_reference ?g ?orch)\<^sup>*\<^sup>* (start_service (new_limiter 1 3 600) example_usage)
      (example_debating ?g (Inl ''bad url''))"
    by (rule example_debates)
      (simp_all add: g main_orchestrator_def new_orchestrator_def maxConcurrency_def length_panel zai_stream.no_request)
  note bounded = upstream_is_bounded [OF example_loads this]
  have "sv_slots (sy_gate (example_debating ?g (Inl ''bad url''))) = 1"
    using example_in_next [of ?g] by (simp add: g example_debating_def example_admitted_def)
  moreover have "session_calls (sy_sessions (example_debating ?g (Inl ''bad url'')) 0) = 1"
    by (simp add: example_debating_def session_calls_def asking_def example_numbers(1))
  moreover have "cf_MaxConcurrentSessions example_config = 6" by (simp add: example_config_def)
  ultimately show ?thesis using bounded by (simp add: Let_def)
qed

text \<open>The debates that are cancelled are not in the bound, and would break it: when a write fails, the
  handler returns and frees its slot, while the goroutines of its debate, and their calls of the model, are
  still to find out. So a service with one slot and pools of one can have two calls running.\<close>

definition example_again :: "gate_config \<Rightarrow> token_bucket server" where
  "example_again g = arrival g \<lparr>rq_RemoteAddr = runes ''10.0.0.1:5000'', rq_XForwardedFor = []\<rparr> (release 0 (example_served g))"

lemma cancelled_calls_outlive_their_slot:
  fixes v0 :: "token_bucket service"
  defines "g \<equiv> \<lparr>gc_sem = 1, gc_dailyLimit = 3, gc_trustProxy = False\<rparr>"
    and "orch \<equiv> new_orchestrator (\<lambda>_ _. True) ''glm'' 1"
    and "v0 \<equiv> start_service (new_limiter 1 3 600) example_usage"
  shows "\<exists>v. (service_step rate_reference g orch)\<^sup>*\<^sup>* v0 v
    \<and> sv_slots (sy_gate v) = 1 \<and> (\<Sum>i<length (requests v). session_calls (sy_sessions v i)) = 2"
proof -
  let ?R = "service_step rate_reference g orch"
  let ?v1 = "example_debating g example_reply"
  let ?v2 = "?v1\<lparr>sy_sessions := (sy_sessions ?v1)(0 := asking SessionOver example_left)\<rparr>"
  let ?v3 = "?v2\<lparr>sy_gate := release 0 (example_served g)\<rparr>"
  let ?v4 = "?v3\<lparr>sy_gate := example_again g\<rparr>"
  let ?v5 = "?v4\<lparr>sy_gate := admission rate_reference g ''2026-01-01'' 1 (example_again g)\<rparr>"
  let ?v6 = "?v5\<lparr>sy_sessions := (sy_sessions ?v5)(1 := asking AtEvents (example_calling example_reply))\<rparr>"
  have g: "gc_sem g = 1" "gc_dailyLimit g = 3" "\<not> gc_trustProxy g" by (simp_all add: g_def)
  have orch: "or_provider orch req reply" "0 < or_limit orch" for req reply
    by (simp_all add: orch_def new_orchestrator_def)
  have v1: "sy_gate ?v1 = example_served g" "sy_sessions ?v1 0 = asking AtEvents (example_calling example_reply)"
    by (simp_all add: example_debating_def example_admitted_def)
  have served: "length (sv_requests (example_served g)) = 1" "hg_stage (sv_requests (example_served g) ! 0) = InNext"
    using example_in_next [of g] by (simp_all add: g in_next_def)
  have again: "i < length (sv_requests (example_again g)) \<longleftrightarrow> i < 2" "hg_stage (sv_requests (example_again g) ! 1) = AtLimiter" for i
    using served(1) by (auto simp: example_again_def arrival_def release_def set_stage_def nth_append)
  have 1: "?R\<^sup>*\<^sup>* v0 ?v1" unfolding v0_def by (rule example_debates) (simp_all add: g orch)
  have 2: "?R\<^sup>*\<^sup>* ?v1 ?v2" by (rule session_lifts) (simp_all add: v1 served example_leaves)
  have 3: "?R ?v2 ?v3"
    using working_step.finishes [of 0 ?v2 rate_reference g orch] by (auto simp: v1 served asking_def intro: service_step.works)
  have 4: "?R ?v3 ?v4"
    using service_step.comes [of rate_reference g orch ?v3 "\<lparr>rq_RemoteAddr = runes ''10.0.0.1:5000'', rq_XForwardedFor = []\<rparr>"]
    by (simp add: example_again_def)
  have 5: "?R\<^sup>*\<^sup>* ?v4 ?v5"
    by (rule admission_lifts)
      (simp_all add: example_again_def arrival_def release_def example_served_def example_simps example_ip g)
  let ?gate = "admission rate_reference g ''2026-01-01'' 1 (example_again g)"
  have gate: "length (sv_requests ?gate) = 2" "hg_stage (sv_requests ?gate ! 1) = InNext" "sv_slots ?gate = 1"
    by (simp_all add: admission_def example_again_def arrival_def release_def example_served_def example_simps example_ip g)
  have 6: "?R\<^sup>*\<^sup>* ?v5 ?v6"
    using example_session [OF orch] by (intro session_lifts) (simp_all add: gate gate [unfolded One_nat_def] example_debating_def)
  have "?R\<^sup>*\<^sup>* v0 ?v6" using 1 2 3 4 5 6 by (meson rtranclp.rtrancl_into_rtrancl rtranclp_trans)
  moreover have "sv_slots (sy_gate ?v6) = 1" by (simp add: gate [unfolded One_nat_def])
  moreover have "(\<Sum>i<length (requests ?v6). session_calls (sy_sessions ?v6 i)) = 2"
    by (simp add: gate gate [unfolded One_nat_def] lessThan_Suc numeral_2_eq_2 session_calls_def asking_def example_numbers)
  ultimately show ?thesis by blast
qed

end
