(* ===== verification/Deployment.thy ===== *)
theory Deployment
  imports Service
begin

text \<open>
  The process around the service, over its whole life: \<open>store/store.go\<close>, which opens the database,
  \<open>ws/Echo.go\<close>, and \<open>cmd/server/main.go\<close> from its start to its exit, and from one process to the next
  that opens the same database. So the daily quota is a matter of many processes.
\<close>

section \<open>Opening the store\<close>

text \<open>The calls on \<open>database/sql\<close>, in order. What is on the disk is the table, or nothing yet. A call may
  fail; the statement that creates the table may fail before or after it took effect.\<close>

datatype db_call = SqlOpen string | SetMaxOpenConns nat | SetMaxIdleConns nat | PingDb | ExecSchema | CloseDb

datatype store_error = EmptyPath | OpenFailed | PingFailed | MigrateFailed

record sql_driver =
  dr_open :: bool
  dr_ping :: bool
  dr_exec :: db_outcome

definition busyTimeoutMS :: nat where "busyTimeoutMS = 5000"

fun go_itoa :: "nat \<Rightarrow> string" where
  "go_itoa n = (if n < 10 then [char_of (48 + n)] else go_itoa (n div 10) @ [char_of (48 + n mod 10)])"

declare go_itoa.simps [simp del]

definition buildDSN :: "string \<Rightarrow> string" where
  "buildDSN path =
    (let sep = (if CHR ''?'' \<in> set path then ''&'' else ''?'')
     in path @ sep @ ''_pragma=busy_timeout('' @ go_itoa busyTimeoutMS @ '')&_pragma=journal_mode(WAL)'')"

text \<open>\<open>CREATE TABLE IF NOT EXISTS\<close>.\<close>

definition create_table :: "usage option \<Rightarrow> usage" where
  "create_table disk = (case disk of None \<Rightarrow> Map.empty | Some u \<Rightarrow> u)"

definition migrate :: "db_outcome \<Rightarrow> usage option \<Rightarrow> (store_error + usage) \<times> usage option" where
  "migrate db disk =
    (case db of
       DbDone \<Rightarrow> (Inr (create_table disk), Some (create_table disk))
     | DbError written \<Rightarrow> (Inl MigrateFailed, if written then Some (create_table disk) else disk))"

definition store_Open :: "sql_driver \<Rightarrow> string \<Rightarrow> usage option \<Rightarrow> (store_error + usage) \<times> db_call list \<times> usage option" where
  "store_Open dr path disk =
    (if go_TrimSpace (runes path) = [] then (Inl EmptyPath, [], disk)
     else let calls = [SqlOpen (buildDSN path)] in
     if \<not> dr_open dr then (Inl OpenFailed, calls, disk)
     else let calls = calls @ [SetMaxOpenConns 1, SetMaxIdleConns 1, PingDb] in
     if \<not> dr_ping dr then (Inl PingFailed, calls @ [CloseDb], disk)
     else let calls = calls @ [ExecSchema] in
     case migrate (dr_exec dr) disk of
       (Inl e, disk') \<Rightarrow> (Inl e, calls @ [CloseDb], disk')
     | (Inr u, disk') \<Rightarrow> (Inr u, calls, disk'))"

text \<open>A database that was opened is used or closed again; nothing goes to the disk before the pool has been
  cut to one connection; and what was counted stays counted.\<close>

lemma open_leaks_nothing:
  assumes "store_Open dr path disk = (r, calls, disk')" "dr_open dr" "go_TrimSpace (runes path) \<noteq> []"
  shows "CloseDb \<in> set calls \<longleftrightarrow> (\<exists>e. r = Inl e)"
  using assms
  by (auto simp: store_Open_def migrate_def Let_def split: if_splits prod.splits sum.splits db_outcome.splits)

lemma one_connection_first:
  assumes "store_Open dr path disk = (r, calls, disk')"
  shows "PingDb \<in> set calls \<or> ExecSchema \<in> set calls \<Longrightarrow>
    \<exists>rest. calls = [SqlOpen (buildDSN path), SetMaxOpenConns 1, SetMaxIdleConns 1] @ rest"
  using assms
  by (auto simp: store_Open_def migrate_def Let_def split: if_splits prod.splits sum.splits db_outcome.splits)

lemma open_keeps_the_table:
  assumes "store_Open dr path disk = (r, calls, disk')"
  shows "create_table disk' = create_table disk" and "r = Inr u \<Longrightarrow> u = create_table disk"
  using assms
  by (auto simp: store_Open_def migrate_def create_table_def Let_def
      split: if_splits prod.splits sum.splits db_outcome.splits)

text \<open>A path with a query keeps it, and there is never a second one.\<close>

lemma buildDSN_one_query: "length (filter (\<lambda>c. c = CHR ''?'') (buildDSN path)) = max 1 (length (filter (\<lambda>c. c = CHR ''?'') path))"
proof -
  have "filter (\<lambda>c. c = CHR ''?'') (go_itoa busyTimeoutMS) = []"
    by (simp add: busyTimeoutMS_def go_itoa.simps char_of_def)
  moreover have "filter (\<lambda>c. c = CHR ''?'') path = [] \<longleftrightarrow> CHR ''?'' \<notin> set path" by (auto simp: filter_empty_conv)
  ultimately show ?thesis by (auto simp: buildDSN_def Let_def max_def Suc_le_eq)
qed

section \<open>The echo endpoint\<close>

text \<open>What each turn of the loop meets: a message or an error from \<open>Read\<close>, then whether \<open>Write\<close> succeeds.
  The result is what was written, and whether the loop is over.\<close>

fun HandleEcho :: "('m option \<times> bool) list \<Rightarrow> 'm list \<times> bool" where
  "HandleEcho [] = ([], False)"
| "HandleEcho ((None, _) # ts) = ([], True)"
| "HandleEcho ((Some m, False) # ts) = ([], True)"
| "HandleEcho ((Some m, True) # ts) = (case HandleEcho ts of (ms, over) \<Rightarrow> (m # ms, over))"

lemma echo_is_a_prefix: "map (\<lambda>m. (Some m, True)) (fst (HandleEcho ts)) = takeWhile (\<lambda>(m, ok). m \<noteq> None \<and> ok) ts"
  by (induction ts rule: HandleEcho.induct) (auto split: prod.split)

section \<open>The routes\<close>

text \<open>\<open>http.ServeMux\<close>: a pattern with \<open>GET\<close> matches \<open>HEAD\<close> as well, and these paths only themselves. A path
  that is not in canonical form is redirected to the one that is; \<open>path\<close> is in that form.\<close>

datatype endpoint = Healthz | Echo | Debates

definition mux :: "string \<Rightarrow> string \<Rightarrow> nat + endpoint" where
  "mux method path =
    (case map_of [(''/healthz'', Healthz), (''/ws/echo'', Echo), (''/ws'', Debates)] path of
       None \<Rightarrow> Inl 404
     | Some e \<Rightarrow> if method = ''GET'' \<or> method = ''HEAD'' then Inr e else Inl 405)"

section \<open>A process\<close>

text \<open>The process is not there yet or again; it serves, or shuts down; it has exited. \<open>dp_disk\<close> is the
  database on the disk, and \<open>dp_past\<close> the requests of the processes before, which only the properties
  look at.\<close>

datatype 'l process = Down | Up bool "'l service" | Exited

record 'l deployment =
  dp_disk :: "usage option"
  dp_process :: "'l process"
  dp_past :: "handling list"

text \<open>The limiter's rate is what \<open>Load\<close> read, when that is a number.\<close>

definition rate_of :: "jsnum \<Rightarrow> real \<Rightarrow> bool" where
  "rate_of x rps \<longleftrightarrow> (case x of JNum q \<Rightarrow> rps = of_rat q | _ \<Rightarrow> True)"

definition main_limiter :: "config \<Rightarrow> real \<Rightarrow> 'l limiter" where
  "main_limiter cfg rps = new_limiter rps (cf_RateLimitBurst cfg) (of_int (cf_RateLimitTTL cfg) / of_int SECOND)"

text \<open>However a process ends, what its statements wrote is on the disk; unless the path is one for which
  SQLite keeps the database in memory.\<close>

definition exits :: "bool \<Rightarrow> 'l service \<Rightarrow> 'l deployment \<Rightarrow> 'l deployment" where
  "exits durable v d = d\<lparr>dp_disk := (if durable then Some (sv_usage (sy_gate v)) else None),
     dp_process := Exited, dp_past := dp_past d @ requests v\<rparr>"

inductive process_step :: "'l rate_package \<Rightarrow> parsers \<Rightarrow> (string \<Rightarrow> string) \<Rightarrow> (string \<Rightarrow> bool) \<Rightarrow> (config \<Rightarrow> orchestrator)
    \<Rightarrow> 'l deployment \<Rightarrow> 'l deployment \<Rightarrow> bool"
  for pkg ps env durable orch_of where
  config_fails: "dp_process d = Down \<Longrightarrow> Load ps env = Inl e \<Longrightarrow>
    process_step pkg ps env durable orch_of d (d\<lparr>dp_process := Exited\<rparr>)"
| store_fails: "dp_process d = Down \<Longrightarrow> Load ps env = Inr cfg \<Longrightarrow>
    store_Open dr (cf_DBPath cfg) (dp_disk d) = (Inl e, calls, disk) \<Longrightarrow>
    process_step pkg ps env durable orch_of d (d\<lparr>dp_disk := disk, dp_process := Exited\<rparr>)"
| boots: "dp_process d = Down \<Longrightarrow> Load ps env = Inr cfg \<Longrightarrow> rate_of (cf_RateLimitRPS cfg) rps \<Longrightarrow>
    store_Open dr (cf_DBPath cfg) (dp_disk d) = (Inr u, calls, disk) \<Longrightarrow>
    process_step pkg ps env durable orch_of d
      (d\<lparr>dp_disk := disk, dp_process := Up False (start_service (main_limiter cfg rps) u)\<rparr>)"
| serves: "dp_process d = Up stopping v \<Longrightarrow> Load ps env = Inr cfg \<Longrightarrow>
    service_step pkg (main_gate cfg) (orch_of cfg) v v' \<Longrightarrow>
    process_step pkg ps env durable orch_of d (d\<lparr>dp_process := Up stopping v'\<rparr>)"
| listen_fails: "dp_process d = Up False v \<Longrightarrow> Load ps env = Inr cfg \<Longrightarrow>
    process_step pkg ps env durable orch_of d (exits (durable (cf_DBPath cfg)) v d)"
| signalled: "dp_process d = Up False v \<Longrightarrow> process_step pkg ps env durable orch_of d (d\<lparr>dp_process := Up True v\<rparr>)"
| shuts_down: "dp_process d = Up True v \<Longrightarrow> Load ps env = Inr cfg \<Longrightarrow>
    process_step pkg ps env durable orch_of d (exits (durable (cf_DBPath cfg)) v d)"
| killed: "dp_process d = Up stopping v \<Longrightarrow> Load ps env = Inr cfg \<Longrightarrow>
    process_step pkg ps env durable orch_of d (exits (durable (cf_DBPath cfg)) v d)"
| restarts: "dp_process d = Exited \<Longrightarrow> process_step pkg ps env durable orch_of d (d\<lparr>dp_process := Down\<rparr>)"

definition deploy :: "usage option \<Rightarrow> 'l deployment" where
  "deploy disk = \<lparr>dp_disk = disk, dp_process = Down, dp_past = []\<rparr>"

definition all_requests :: "'l deployment \<Rightarrow> handling list" where
  "all_requests d = dp_past d @ (case dp_process d of Up _ v \<Rightarrow> requests v | _ \<Rightarrow> [])"

section \<open>The quota outlives the process\<close>

text \<open>What \<open>hs\<close> has been let through is counted in \<open>u\<close>, above what \<open>u0\<close> had, and within the limit.\<close>

definition quota_kept :: "nat \<Rightarrow> usage \<Rightarrow> usage \<Rightarrow> handling list \<Rightarrow> bool" where
  "quota_kept limit u0 u hs \<longleftrightarrow> (\<forall>ip day.
     length (filter (within_quota ip day) hs) + used u0 ip day \<le> used u ip day \<and>
     length (filter (within_quota ip day) hs) \<le> limit - used u0 ip day)"

lemma quota_kept_Nil: "quota_kept limit u u []"
  by (simp add: quota_kept_def)

text \<open>Two stretches of time, one after the other, make one.\<close>

lemma quota_kept_trans:
  assumes "quota_kept limit u0 u1 hs" "quota_kept limit u1 u2 hs'"
  shows "quota_kept limit u0 u2 (hs @ hs')"
proof -
  have "length (filter (within_quota ip day) hs) + length (filter (within_quota ip day) hs') + used u0 ip day \<le> used u2 ip day
    \<and> length (filter (within_quota ip day) hs) + length (filter (within_quota ip day) hs') \<le> limit - used u0 ip day" for ip day
  proof -
    from assms have "length (filter (within_quota ip day) hs) + used u0 ip day \<le> used u1 ip day"
      "length (filter (within_quota ip day) hs) \<le> limit - used u0 ip day"
      "length (filter (within_quota ip day) hs') + used u1 ip day \<le> used u2 ip day"
      "length (filter (within_quota ip day) hs') \<le> limit - used u1 ip day"
      unfolding quota_kept_def by blast+
    then show ?thesis by linarith
  qed
  then show ?thesis by (simp add: quota_kept_def)
qed

lemma service_keeps_quota:
  "service_ok pkg g orch l u v \<Longrightarrow> quota_kept (nat (gc_dailyLimit g)) u (sv_usage (sy_gate v)) (requests v)"
  using service_ok_gate by (fastforce simp: admission_inv_def quota_kept_def)

definition deployment_ok :: "'l rate_package \<Rightarrow> config \<Rightarrow> orchestrator \<Rightarrow> usage \<Rightarrow> 'l deployment \<Rightarrow> bool" where
  "deployment_ok pkg cfg orch u0 d \<longleftrightarrow>
    (case dp_process d of
       Up _ v \<Rightarrow> \<exists>l u. service_ok pkg (main_gate cfg) orch l u v \<and> quota_kept (nat (cf_DailyQuota cfg)) u0 u (dp_past d)
     | _ \<Rightarrow> quota_kept (nat (cf_DailyQuota cfg)) u0 (create_table (dp_disk d)) (dp_past d))"

lemma deployment_ok_exits:
  assumes "deployment_ok pkg cfg orch u0 d" "dp_process d = Up stopping v"
  shows "deployment_ok pkg cfg orch u0 (exits True v d)"
proof -
  from assms obtain l u where "service_ok pkg (main_gate cfg) orch l u v" "quota_kept (nat (cf_DailyQuota cfg)) u0 u (dp_past d)"
    by (auto simp: deployment_ok_def)
  with quota_kept_trans [OF this(2)] service_keeps_quota [OF this(1)] show ?thesis
    by (simp add: deployment_ok_def exits_def create_table_def main_gate_def)
qed

lemma deployment_ok_step:
  assumes "process_step pkg ps env durable orch_of d d'" "deployment_ok pkg cfg (orch_of cfg) u0 d"
    and loads: "Load ps env = Inr cfg" and on_disk: "durable (cf_DBPath cfg)"
  shows "deployment_ok pkg cfg (orch_of cfg) u0 d'"
  using assms(1)
proof cases
  case config_fails
  with loads show ?thesis by simp
next
  case (store_fails cfg' dr e calls disk)
  with open_keeps_the_table(1) [OF store_fails(4)] assms(2) show ?thesis by (simp add: deployment_ok_def)
next
  case (boots cfg' rps dr u calls disk)
  with loads have "cfg' = cfg" by simp
  moreover have "u = create_table (dp_disk d)" using open_keeps_the_table(2) [OF boots(5)] by simp
  ultimately show ?thesis
    using assms(2) boots service_ok_start by (fastforce simp: deployment_ok_def)
next
  case (serves stopping v cfg' v')
  with loads have "cfg' = cfg" by simp
  with serves assms(2) service_ok_step [OF serves(4)] show ?thesis by (fastforce simp: deployment_ok_def)
next
  case (listen_fails v cfg')
  with loads on_disk deployment_ok_exits [OF assms(2) listen_fails(2)] show ?thesis by simp
next
  case (signalled v)
  with assms(2) show ?thesis by (simp add: deployment_ok_def)
next
  case (shuts_down v cfg')
  with loads on_disk deployment_ok_exits [OF assms(2) shuts_down(2)] show ?thesis by simp
next
  case (killed stopping v cfg')
  with loads on_disk deployment_ok_exits [OF assms(2) killed(2)] show ?thesis by simp
next
  case restarts
  with assms(2) show ?thesis by (simp add: deployment_ok_def)
qed

text \<open>So for an environment that loads and names a file.\<close>

definition deployment_safe :: "'l rate_package \<Rightarrow> parsers \<Rightarrow> (string \<Rightarrow> string) \<Rightarrow> (string \<Rightarrow> bool) \<Rightarrow> (config \<Rightarrow> orchestrator)
    \<Rightarrow> usage \<Rightarrow> 'l deployment \<Rightarrow> bool" where
  "deployment_safe pkg ps env durable orch_of u0 d \<longleftrightarrow>
    (\<forall>cfg. Load ps env = Inr cfg \<and> durable (cf_DBPath cfg) \<longrightarrow> deployment_ok pkg cfg (orch_of cfg) u0 d)"

interpretation deployment: step_system "process_step pkg ps env durable orch_of" "deployment_safe pkg ps env durable orch_of u0"
  by unfold_locales (auto simp: deployment_safe_def intro: deployment_ok_step)

lemma deployment_safe_deploy: "deployment_safe pkg ps env durable orch_of (create_table disk) (deploy disk)"
  by (simp add: deployment_safe_def deployment_ok_def deploy_def quota_kept_Nil)

lemma quota_kept_served:
  "quota_kept limit u0 u hs \<Longrightarrow> length (filter (served ip day) hs) \<le> limit - used u0 ip day"
  using served_le [of ip day hs] le_trans unfolding quota_kept_def by blast

section \<open>Properties\<close>

text \<open>C20. Quota and capacity hold for the life of the deployment, where the configured path is one for which
  SQLite keeps the database in a file (\<open>durable\<close>; a path for a database in memory is not). However often the server is stopped,
  killed and started again, whenever that happens, and however the handlers of all clients interleave: the
  debates an address is granted on a day, by all processes together, never exceed the daily quota, less what
  the database counted before; and the process that is up has no more debates than slots, and no more slots
  taken than configured.\<close>

theorem quota_survives_restarts:
  assumes "(process_step pkg ps env durable orch_of)\<^sup>*\<^sup>* (deploy disk) d"
    and "Load ps env = Inr cfg" "durable (cf_DBPath cfg)"
  shows "length (filter (served ip day) (all_requests d)) \<le> nat (cf_DailyQuota cfg) - used (create_table disk) ip day
    \<and> (\<forall>stopping v. dp_process d = Up stopping v \<longrightarrow> sv_slots (sy_gate v) = length (filter in_next (requests v))
         \<and> int (sv_slots (sy_gate v)) \<le> cf_MaxConcurrentSessions cfg)"
proof -
  from deployment.inv_reach [OF assms(1) deployment_safe_deploy] assms(2,3)
  have ok: "deployment_ok pkg cfg (orch_of cfg) (create_table disk) d" by (simp add: deployment_safe_def)
  show ?thesis
  proof (cases "dp_process d")
    case (Up stopping v)
    with ok obtain l u where s: "service_ok pkg (main_gate cfg) (orch_of cfg) l u v"
      and past: "quota_kept (nat (cf_DailyQuota cfg)) (create_table disk) u (dp_past d)"
      by (auto simp: deployment_ok_def)
    from service_keeps_quota [OF s] have "quota_kept (nat (cf_DailyQuota cfg)) u (sv_usage (sy_gate v)) (requests v)"
      by (simp add: main_gate_def)
    from quota_kept_served [OF quota_kept_trans [OF past this]] service_ok_gate [OF s] config_is_sane [OF assms(2)]
    show ?thesis by (auto simp: all_requests_def Up admission_inv_def main_gate_def)
  qed (use ok quota_kept_served in \<open>auto simp: deployment_ok_def all_requests_def\<close>)
qed

text \<open>A process serves one request, cannot listen any more and exits; the next one opens the database it
  left.\<close>

definition example_first :: "token_bucket deployment" where
  "example_first = \<lparr>dp_disk = Some example_usage,
     dp_process = Up False (start_service (new_limiter 1 3 600) example_usage), dp_past = []\<rparr>"

definition example_second :: "token_bucket deployment" where
  "example_second = (let u = sv_usage (example_served (main_gate example_config)) in
     \<lparr>dp_disk = Some u, dp_process = Up False (start_service (new_limiter 1 3 600) u),
      dp_past = sv_requests (example_served (main_gate example_config))\<rparr>)"

abbreviation example_parsers :: parsers where
  "example_parsers \<equiv> \<lparr>ps_Atoi = \<lambda>_. None, ps_ParseFloat = \<lambda>_. None, ps_ParseDuration = \<lambda>_. None, ps_ParseBool = \<lambda>_. None\<rparr>"

abbreviation example_process :: "token_bucket deployment \<Rightarrow> token_bucket deployment \<Rightarrow> bool" where
  "example_process \<equiv> process_step rate_reference example_parsers ((\<lambda>_. '''')(''ZAI_API_KEY'' := ''k''))
     (\<lambda>path. path = ''./council.db'') (\<lambda>_. new_orchestrator (\<lambda>_ _. True) ''glm'' 1)"

lemma example_opens:
  "store_Open \<lparr>dr_open = True, dr_ping = True, dr_exec = DbDone\<rparr> (cf_DBPath example_config) (Some u) =
    (Inr u, [SqlOpen (buildDSN ''./council.db''), SetMaxOpenConns 1, SetMaxIdleConns 1, PingDb, ExecSchema], Some u)"
  by (simp add: store_Open_def migrate_def create_table_def example_config_def go_TrimSpace_def trim_by_def runes_def
      go_is_space_def)

lemma example_limiter: "main_limiter example_config 1 = new_limiter 1 3 600"
  by (simp add: main_limiter_def example_config_def SECOND_def)

lemma example_boots:
  assumes "dp_process d = Down" "dp_disk d = Some u"
  shows "example_process d (d\<lparr>dp_process := Up False (start_service (new_limiter 1 3 600) u)\<rparr>)"
proof -
  have r: "rate_of (cf_RateLimitRPS example_config) 1" by (simp add: rate_of_def example_config_def)
  show ?thesis
    using process_step.boots [OF assms(1) example_loads r example_opens [of u, folded assms(2)]]
    by (simp add: example_limiter)
qed

lemma serves_lifts:
  assumes "(service_step pkg (main_gate cfg) (orch_of cfg))\<^sup>*\<^sup>* v v'" "dp_process d = Up stopping v" "Load ps env = Inr cfg"
  shows "(process_step pkg ps env durable orch_of)\<^sup>*\<^sup>* d (d\<lparr>dp_process := Up stopping v'\<rparr>)"
  using assms(1)
proof (induction rule: rtranclp_induct)
  case base
  from assms(2) have "d\<lparr>dp_process := Up stopping v\<rparr> = d" by simp
  then show ?case by simp
next
  case (step v1 v2)
  have "process_step pkg ps env durable orch_of (d\<lparr>dp_process := Up stopping v1\<rparr>)
      ((d\<lparr>dp_process := Up stopping v1\<rparr>)\<lparr>dp_process := Up stopping v2\<rparr>)"
    using step.hyps(2) assms(3) by (intro process_step.serves) simp_all
  with step.IH show ?case by simp
qed

lemma example_path: "cf_DBPath example_config = ''./council.db''"
  by (simp add: example_config_def)

lemma example_redeploys: "example_process\<^sup>*\<^sup>* (deploy (Some example_usage)) example_second"
proof -
  let ?g = "main_gate example_config"
  let ?d1 = "example_first\<lparr>dp_process := Up False (example_admitted ?g)\<rparr>"
  let ?d2 = "exits True (example_admitted ?g) ?d1"
  let ?d3 = "?d2\<lparr>dp_process := Down\<rparr>"
  have "example_process (deploy (Some example_usage)) example_first"
    using example_boots [of "deploy (Some example_usage)" example_usage] by (simp add: deploy_def example_first_def)
  moreover have "example_process\<^sup>*\<^sup>* example_first ?d1"
    by (rule serves_lifts [OF example_admits _ example_loads])
      (simp_all add: main_gate_def example_config_def example_first_def)
  moreover have "example_process ?d1 ?d2"
    using process_step.listen_fails [OF _ example_loads, of ?d1 "example_admitted ?g" rate_reference example_parsers
        "\<lambda>path. path = ''./council.db''"]
    by (simp add: example_path)
  moreover have "example_process ?d2 ?d3" by (rule process_step.restarts) (simp add: exits_def)
  moreover have "example_process ?d3 example_second"
    using example_boots [of ?d3 "sv_usage (example_served ?g)"]
    by (simp add: exits_def example_second_def example_first_def example_admitted_def Let_def)
  ultimately show ?thesis by (meson converse_rtranclp_into_rtranclp rtranclp.rtrancl_into_rtrancl rtranclp_trans)
qed

theorem quota_survives_restarts_witness:
  "length (dp_past example_second) = 1 \<and>
   length (filter (served (runes ''10.0.0.1'') ''2026-01-01'') (all_requests example_second)) \<le> 20 - 1"
proof -
  have "length (dp_past example_second) = 1"
    using example_in_next(2) [of "main_gate example_config"]
    by (simp add: example_second_def Let_def) (simp add: main_gate_def example_config_def)
  moreover have "cf_DailyQuota example_config = 20" by (simp add: example_config_def)
  ultimately show ?thesis
    using quota_survives_restarts [OF example_redeploys example_loads, of "runes ''10.0.0.1''" "''2026-01-01''"]
    by (simp add: example_path create_table_def example_usage_def used_def)
qed

end
