(* ===== verification/Rate_Control.thy ===== *)
theory Rate_Control
  imports Deployment
begin

text \<open>
  The rate of one client, over runs of the whole service: a run is recorded with the calls it makes of the
  limiter and their times, and what the limiter grants (\<open>Admission_Control\<close>) are the requests that get past
  it. The record restricts nothing: every run has one.
\<close>

section \<open>Runs with a record\<close>

definition at_limiter :: "handling \<Rightarrow> bool" where
  "at_limiter h \<longleftrightarrow> hg_stage h = AtLimiter"

text \<open>A step that is no call of the limiter: no request leaves it, and it stays as it is.\<close>

definition quiet_step :: "'l rate_package \<Rightarrow> gate_config \<Rightarrow> orchestrator \<Rightarrow> 'l service \<Rightarrow> 'l service \<Rightarrow> bool" where
  "quiet_step pkg g orch v v' \<longleftrightarrow> service_step pkg g orch v v' \<and> sv_limiter (sy_gate v') = sv_limiter (sy_gate v) \<and>
    (\<forall>i < length (requests v). at_limiter (requests v ! i) \<longrightarrow> at_limiter (requests v' ! i))"

inductive clocked_run :: "'l rate_package \<Rightarrow> gate_config \<Rightarrow> orchestrator \<Rightarrow> 'l service \<Rightarrow> limiter_call list \<Rightarrow> 'l service \<Rightarrow> bool"
  for pkg g orch v where
  not_yet: "clocked_run pkg g orch v [] v"
| asks_limiter: "clocked_run pkg g orch v cs v' \<Longrightarrow> i < length (requests v') \<Longrightarrow> at_limiter (requests v' ! i) \<Longrightarrow>
    clocked_run pkg g orch v (cs @ [Request now (hg_ip (requests v' ! i))]) (v'\<lparr>sy_gate := limiter_guard pkg now i (sy_gate v')\<rparr>)"
| janitor: "clocked_run pkg g orch v cs v' \<Longrightarrow> clocked_run pkg g orch v (cs @ [Tick tick now])
    (v'\<lparr>sy_gate := (sy_gate v')\<lparr>sv_limiter := sweep tick (sv_limiter (sy_gate v'))\<rparr>\<rparr>)"
| quiet: "clocked_run pkg g orch v cs v' \<Longrightarrow> quiet_step pkg g orch v' v'' \<Longrightarrow> clocked_run pkg g orch v cs v''"

lemma guard_step_quiet:
  assumes "guard_step pkg g s t"
  obtains (asks) i now where "i < length (sv_requests s)" "at_limiter (sv_requests s ! i)" "t = limiter_guard pkg now i s"
  | (other) "sv_limiter t = sv_limiter s"
      "\<And>i. i < length (sv_requests s) \<Longrightarrow> at_limiter (sv_requests s ! i) \<Longrightarrow> at_limiter (sv_requests t ! i)"
  using assms
proof cases
  case limits
  then show thesis by (auto simp: at_limiter_def intro: asks)
next
  case (counts i db day)
  then show thesis
    by (intro other) (auto simp: at_limiter_def nth_list_update quota_guard_requests(3) quota_guard_def set_stage_def split: prod.split)
next
  case (acquires i)
  then show thesis
    by (intro other) (auto simp: at_limiter_def nth_list_update semaphore_guard_def set_stage_def)
qed

lemma runs_are_recorded:
  assumes "(service_step pkg g orch)\<^sup>*\<^sup>* v v'"
  shows "\<exists>cs. clocked_run pkg g orch v cs v'"
  using assms
proof (induction rule: rtranclp_induct)
  case base
  show ?case using clocked_run.not_yet by blast
next
  case (step v1 v2)
  then obtain cs where run: "clocked_run pkg g orch v cs v1" by blast
  have quiet: ?case if "sv_limiter (sy_gate v2) = sv_limiter (sy_gate v1)"
    "\<And>i. i < length (requests v1) \<Longrightarrow> at_limiter (requests v1 ! i) \<Longrightarrow> at_limiter (requests v2 ! i)"
    using clocked_run.quiet [OF run] step.hyps(2) that by (auto simp: quiet_step_def)
  from step.hyps(2) show ?case
  proof cases
    case works
    then show ?thesis
    proof cases
      case (admits s)
      from admits(2) show ?thesis
      proof (cases rule: guard_step_quiet)
        case (asks i now)
        with clocked_run.asks_limiter [OF run] admits(1) show ?thesis by blast
      next
        case other
        with admits(1) show ?thesis by (intro quiet) simp_all
      qed
    next
      case (finishes i)
      then show ?thesis
        by (intro quiet) (auto simp: release_def set_stage_def at_limiter_def nth_list_update)
    qed (intro quiet; simp)
  next
    case (comes r)
    then show ?thesis by (intro quiet) (simp_all add: arrival_def nth_append)
  next
    case (ticks now)
    with clocked_run.janitor [OF run, of now now] show ?thesis by blast
  qed
qed

section \<open>Who got past the limiter\<close>

definition past_limiter :: "nat list \<Rightarrow> handling \<Rightarrow> bool" where
  "past_limiter ip h \<longleftrightarrow> hg_ip h = ip \<and> hg_stage h \<noteq> AtLimiter \<and> hg_stage h \<noteq> Rejected 429 ''rate limit exceeded''"

definition passed :: "nat list \<Rightarrow> 'l service \<Rightarrow> nat" where
  "passed ip v = length (filter (past_limiter ip) (requests v))"

lemma granted_append:
  "granted pkg ip l (cs @ ds) = granted pkg ip l cs + granted pkg ip (foldl (limiter_does pkg) l cs) ds"
  by (induction cs arbitrary: l) simp_all

lemma passed_asks:
  assumes "i < length (requests v)" "at_limiter (requests v ! i)"
  shows "sv_limiter (limiter_guard pkg now i (sy_gate v)) = limiter_does pkg (sv_limiter (sy_gate v)) (Request now (hg_ip (requests v ! i)))"
    and "passed ip (v\<lparr>sy_gate := limiter_guard pkg now i (sy_gate v)\<rparr>) =
      passed ip v + granted pkg ip (sv_limiter (sy_gate v)) [Request now (hg_ip (requests v ! i))]"
proof -
  obtain ok l where allow: "Allow pkg now (hg_ip (requests v ! i)) (sv_limiter (sy_gate v)) = (ok, l)" by fastforce
  let ?h = "(requests v ! i)\<lparr>hg_stage := if ok then AtQuota else Rejected 429 ''rate limit exceeded''\<rparr>"
  show "sv_limiter (limiter_guard pkg now i (sy_gate v)) = limiter_does pkg (sv_limiter (sy_gate v)) (Request now (hg_ip (requests v ! i)))"
    by (simp add: limiter_guard_def allow set_stage_def)
  show "passed ip (v\<lparr>sy_gate := limiter_guard pkg now i (sy_gate v)\<rparr>) =
      passed ip v + granted pkg ip (sv_limiter (sy_gate v)) [Request now (hg_ip (requests v ! i))]"
    using length_filter_update [OF assms(1), of "past_limiter ip" ?h] assms(2)
    by (auto simp: passed_def limiter_guard_def allow set_stage_def past_limiter_def at_limiter_def split: if_splits)
qed

text \<open>No other step lets a request past it, or takes one back.\<close>

lemma passed_update:
  assumes "requests v' = (requests v)[i := h]" "i < length (requests v)" "past_limiter ip h = past_limiter ip (requests v ! i)"
  shows "passed ip v' = passed ip v"
  using length_filter_update [OF assms(2), of "past_limiter ip" h] assms(1,3) by (simp add: passed_def split: if_splits)

lemma passed_quiet:
  assumes "quiet_step pkg g orch v v'"
  shows "passed ip v' = passed ip v"
proof -
  from assms have step: "service_step pkg g orch v v'"
    and stay: "\<And>i. i < length (requests v) \<Longrightarrow> at_limiter (requests v ! i) \<Longrightarrow> at_limiter (requests v' ! i)"
    by (auto simp: quiet_step_def)
  from step show ?thesis
  proof cases
    case works
    then show ?thesis
    proof cases
      case (admits s)
      from admits(2) show ?thesis
      proof cases
        case (limits i now)
        then have "\<not> at_limiter (requests v' ! i)"
          by (auto simp: admits(1) limiter_guard_def set_stage_def at_limiter_def split: prod.split)
        with stay limits show ?thesis by (auto simp: at_limiter_def)
      next
        case (counts i db day)
        then show ?thesis
          by (intro passed_update [OF _ counts(2)])
            (auto simp: admits(1) quota_guard_requests(3) past_limiter_def split: option.splits if_splits)
      next
        case (acquires i)
        then show ?thesis
          by (intro passed_update [OF _ acquires(2), where h = "(requests v ! i)\<lparr>hg_stage :=
                if sv_slots (sy_gate v) < gc_sem g then InNext else Rejected 503 ''server busy, try again shortly''\<rparr>"])
            (auto simp: admits(1) semaphore_guard_def set_stage_def past_limiter_def)
      qed
    next
      case (finishes i)
      then show ?thesis
        by (intro passed_update [OF _ finishes(2), where h = "(requests v ! i)\<lparr>hg_stage := Finished\<rparr>"])
          (auto simp: release_def set_stage_def past_limiter_def)
    qed (simp add: passed_def)
  qed (simp_all add: passed_def arrival_def past_limiter_def)
qed

lemma recorded:
  assumes "clocked_run pkg g orch v cs v'"
  shows "sv_limiter (sy_gate v') = foldl (limiter_does pkg) (sv_limiter (sy_gate v)) cs
    \<and> passed ip v' = passed ip v + granted pkg ip (sv_limiter (sy_gate v)) cs"
  using assms
proof (induction rule: clocked_run.induct)
  case (asks_limiter cs v' i now)
  then show ?case by (simp add: passed_asks granted_append)
next
  case (janitor cs v' tick now)
  then show ?case by (simp add: granted_append passed_def)
next
  case (quiet cs v' v'')
  then show ?case using passed_quiet [OF quiet.hyps(2)] by (simp add: quiet_step_def)
qed simp

section \<open>Properties\<close>

text \<open>C21. No client asks more of the server than its rate. With a configuration that loads and keeps an
  entry until its bucket is full again, and as the clock runs on: in any window of time, whatever the clients
  do and however their handlers and the janitor interleave, the requests of an address that get past the
  limiter are at most a burst and what the rate allows for the window. Being evicted for idleness gains a
  client nothing.\<close>

theorem service_rate_is_bounded:
  assumes "rate_documented pkg" "Load ps env = Inr cfg" "cf_RateLimitRPS cfg = JNum q"
    and "of_int (cf_RateLimitBurst cfg) * of_int SECOND \<le> of_rat q * real_of_int (cf_RateLimitTTL cfg)"
    and "clocked_run pkg g orch (start_service (main_limiter cfg (of_rat q)) u) cs v" "clocked_run pkg g orch v ds w"
    and "timely t (cs @ ds)" "t0 \<le> t1" "\<forall>c\<in>set ds. t0 \<le> call_time c \<and> call_time c \<le> t1"
  shows "real (passed ip w) \<le> real (passed ip v) + of_int (cf_RateLimitBurst cfg) + of_rat q * (t1 - t0)"
proof -
  let ?l = "main_limiter cfg (of_rat q)"
  note sane = config_is_sane [OF assms(2)]
  have q: "0 < real_of_rat q" using sane assms(3) by (simp add: float_le_def js_num_eq_def)
  have burst: "1 \<le> cf_RateLimitBurst cfg" using sane by simp
  have "real_of_int (cf_RateLimitBurst cfg) \<le> of_rat q * (of_int (cf_RateLimitTTL cfg) / of_int SECOND)"
    using assms(4) by (simp add: SECOND_def field_simps)
  note bounded = request_rate_is_bounded [OF assms(1) q burst this assms(7-9), of ip]
  have "sv_limiter (sy_gate v) = foldl (limiter_does pkg) ?l cs"
    using recorded [OF assms(5)] by (simp add: start_service_def start_server_def)
  with recorded [OF assms(6), of ip] bounded show ?thesis by (simp add: main_limiter_def)
qed

theorem service_rate_is_bounded_witness:
  "\<exists>(v :: token_bucket service) (w :: token_bucket service). passed (runes ''10.0.0.1'') v = 0 \<and> passed (runes ''10.0.0.1'') w = 1 \<and>
    real (passed (runes ''10.0.0.1'') w) \<le> real (passed (runes ''10.0.0.1'') v) + 3 + 1 * (2 - 1)"
proof -
  let ?g = "main_gate example_config" and ?orch = "new_orchestrator (\<lambda>_ _. True) ''glm'' 1"
  let ?start = "start_service (main_limiter example_config (of_rat 1)) example_usage :: token_bucket service"
  let ?v = "?start\<lparr>sy_gate := example_arrived\<rparr>"
  let ?w = "?v\<lparr>sy_gate := limiter_guard rate_reference 1 0 (sy_gate ?v)\<rparr>"
  have trust: "\<not> gc_trustProxy ?g" by (simp add: main_gate_def example_config_def)
  have v: "length (requests ?v) = 1" "requests ?v \<noteq> []"
    "requests ?v ! 0 = \<lparr>hg_ip = runes ''10.0.0.1'', hg_day = '''', hg_stage = AtLimiter\<rparr>"
    by (simp_all add: example_arrived_def example_ip)
  have "service_step rate_reference ?g ?orch ?start ?v"
    using service_step.comes [of rate_reference ?g ?orch ?start "\<lparr>rq_RemoteAddr = runes ''10.0.0.1:5000'', rq_XForwardedFor = []\<rparr>"]
    by (simp add: example_arrived_def example_start_def start_service_def start_server_def arrival_def example_limiter trust)
  then have "quiet_step rate_reference ?g ?orch ?start ?v"
    by (simp add: quiet_step_def example_limiter start_service_def start_server_def example_arrived_def example_start_def)
  then have run: "clocked_run rate_reference ?g ?orch ?start [] ?v" by (rule clocked_run.quiet [OF clocked_run.not_yet])
  have asks: "clocked_run rate_reference ?g ?orch ?v [Request 1 (runes ''10.0.0.1'')] ?w"
    using clocked_run.asks_limiter [OF clocked_run.not_yet, of 0 ?v rate_reference ?g ?orch 1] v
    by (auto simp: at_limiter_def)
  have none: "passed (runes ''10.0.0.1'') ?v = 0"
    by (simp add: passed_def example_arrived_def past_limiter_def)
  moreover have "passed (runes ''10.0.0.1'') ?w = 1"
    using passed_asks(2) [of 0 ?v "runes ''10.0.0.1''" rate_reference 1] v none
    by (simp add: at_limiter_def) (simp add: example_simps example_ip)
  moreover have "real (passed (runes ''10.0.0.1'') ?w)
      \<le> real (passed (runes ''10.0.0.1'') ?v) + of_int (cf_RateLimitBurst example_config) + of_rat 1 * (2 - 1)"
    by (rule service_rate_is_bounded [OF rate_reference_documented example_loads _ _ run asks, of 0 1 2])
      (simp_all add: example_config_def SECOND_def)
  moreover have "cf_RateLimitBurst example_config = 3" by (simp add: example_config_def)
  ultimately have "passed (runes ''10.0.0.1'') ?v = 0 \<and> passed (runes ''10.0.0.1'') ?w = 1 \<and>
      real (passed (runes ''10.0.0.1'') ?w) \<le> real (passed (runes ''10.0.0.1'') ?v) + 3 + 1 * (2 - 1)" by simp
  then show ?thesis by blast
qed

end
