(* ===== verification/Spec2Isabelle.thy ===== *)
theory Spec2Isabelle
  imports Scene_Graph App_Shell Markdown Focus Debug_View Fixtures Entry Rate_Control
begin

text \<open>
  Council is a debate between five personas: four panelists who speak in rounds, and a moderator
  who gives the verdict. A Go backend runs the language models and streams one JSON event per
  frame over a WebSocket; a React frontend (\<open>src/frontend/src\<close>) plays the debate on a 3D stage.
  The backend streams the panelists of a round concurrently, and the frontend turns that stream
  into a turn-taking one: a player records what arrives and reveals it one speaker at a time, at
  the pace of the reader. This development models the TypeScript of the frontend, and the Go of the
  backend (\<open>src/backend\<close>): the protocol, the orchestrator and the session, the provider that calls the
  language model, and what admits a client to a debate.

  \<^bold>\<open>How the parts interact.\<close> The question form calls \<open>ask\<close> of the hook \<open>useDebate\<close>, which
  disposes the previous WebSocket client, resets the player, and opens a socket that sends the
  question. Each frame of the socket is parsed (\<open>parseEvent\<close>) and fed to the player
  (\<open>DebatePlayer\<close>); the player's timers reveal its record through \<open>dispatch\<close>, and the inputs it
  dispatches are what \<open>debateReducer\<close> reduces. All views are functions of the reducer's state:
  the transcript, the stage's poses and camera, the controls, the cues.

  \<^bold>\<open>Theories, in the order of the code.\<close>

    \<^item> \<open>Prelude\<close>: JavaScript strings (lists of code units), the calls on \<open>Set\<close> and \<open>Array\<close> the
      source makes, and the interfaces of the development: \<open>step_machine\<close> (a state machine whose
      operations keep an invariant), \<open>step_system\<close> (the same for steps the environment chooses), \<open>text_store\<close> (the keyed, capped texts that both the player and
      the reducer keep) and \<open>chunker\<close> (a rule that reveals a text piece by piece).
    \<^item> \<open>Personas\<close>: \<open>design/tokens.ts\<close>, \<open>personas/registry.ts\<close>, \<open>data/topicPresets.ts\<close>.
    \<^item> \<open>Protocol\<close>: \<open>lib/protocol.ts\<close>, the schemas, \<open>parseEvent\<close> and \<open>buildAsk\<close>; and, beside them,
      what the backend marshals (\<open>go_marshal\<close>) and what it accepts (\<open>go_Validate\<close>).
    \<^item> \<open>Text_Reveal\<close>: \<open>lib/textReveal.ts\<close> and \<open>hooks/useSmoothText.ts\<close>; both text rules interpret
      \<open>chunker\<close>.
    \<^item> \<open>Ws_Client\<close>: \<open>lib/wsClient.ts\<close> over a store of sockets and clients, which interprets
      \<open>step_machine\<close>.
    \<^item> \<open>Debate_Reducer\<close>: \<open>state/debateReducer.ts\<close>; it interprets \<open>text_store\<close> (the cells of the
      transcript) and \<open>step_machine\<close>.
    \<^item> \<open>Debate_Player\<close>: the class of \<open>state/debatePlayer.ts\<close>, every method of it; it interprets
      \<open>text_store\<close> (the recorded texts) and \<open>step_machine\<close>.
    \<^item> \<open>Playback\<close>: player and reducer together.
    \<^item> \<open>Session\<close>: \<open>state/useDebate.ts\<close>, the hook over client, player and reducer, as a step relation
      (\<open>session_step\<close>, \<open>session_run\<close>).
    \<^item> \<open>Stage_Views\<close>: the pure derivations of \<open>three/\<close> (status, pose, bubble, seat, camera, shape),
      what \<open>StageScene\<close> gives each robot, and one animation frame of \<open>RobotPersona\<close>.
    \<^item> \<open>Stage_Hooks\<close>: \<open>useVerdictSpotlight\<close>, \<open>useStageFrameloop\<close> (it interprets \<open>step_machine\<close>),
      \<open>useMediaQuery\<close>.
    \<^item> \<open>Sound\<close>: \<open>lib/sound.ts\<close> and \<open>hooks/useSound.ts\<close>.
    \<^item> \<open>Dom\<close>, \<open>Transcript_Views\<close>, \<open>Control_Views\<close>: what the components of \<open>components/\<close> render, as
      trees of elements with their text, roles and handlers, and the form's own state.
    \<^item> \<open>App_Shell\<close>: \<open>StageLayout.tsx\<close>, \<open>MobileLayout.tsx\<close> and \<open>App.tsx\<close>: the whole page as a step
      relation (\<open>app_step\<close>, \<open>app_run\<close>) over clicks, commits, socket events and timers.
    \<^item> \<open>Camera_Director\<close>: the easing of the camera; \<open>Scene_Graph\<close>: the trees of the robots, the room, the
      labels and the canvas.
    \<^item> \<open>Markdown\<close>, \<open>Verdict_Dialog\<close>, \<open>Debug_View\<close>: the renderers of the verdict, the effects of the panel that
      shows it, and the developer's page.
    \<^item> \<open>Focus\<close>: where the focus of the page is, over the app and the panel's effects, as a step relation
      (\<open>focus_step\<close>); it interprets \<open>step_system\<close>.
    \<^item> \<open>Backend\<close>: \<open>protocol/persona.go\<close>, \<open>provider/provider.go\<close>, \<open>orchestrator/\<close> and \<open>ws/session.go\<close>: a
      debate as a step relation (\<open>run_step\<close>) over the goroutines of a round, their \<open>emit\<close>s, the session's
      writes, and cancellation.
    \<^item> \<open>Backend_Debate\<close>: what such a debate sends, that it ends, and what its requests say; it
      interprets \<open>step_system\<close>.
    \<^item> \<open>Go_Library\<close>: what the backend uses of Go's standard library to take texts apart.
    \<^item> \<open>Zai_Provider\<close>: \<open>provider/zai.go\<close> and \<open>provider/fake.go\<close>, which interpret \<open>stream_provider\<close>, the
      contract of a provider and what a debate over one sends.
    \<^item> \<open>Admission\<close>: \<open>httpx/clientip.go\<close>, \<open>ratelimit/\<close>, \<open>store/quota.go\<close>, \<open>config/config.go\<close>: the handlers of
      all clients as a step relation (\<open>server_step\<close>); \<open>Admission_Control\<close>: its capacity, quota and rates;
      it interprets \<open>step_system\<close>.
    \<^item> \<open>Service\<close>: the whole of \<open>ws/session.go\<close> (\<open>handler_step\<close>) and the server \<open>cmd/server/main.go\<close> puts
      together, as a step relation over its guards, the handlers of all requests and the goroutines of all
      debates (\<open>service_step\<close>; \<open>working_step\<close> without new requests); it interprets \<open>step_system\<close>.
    \<^item> \<open>Deployment\<close>: \<open>store/store.go\<close>, \<open>ws/Echo.go\<close> and \<open>main\<close> from its start to its exit, and from one
      process to the next over the same database (\<open>process_step\<close>); it interprets \<open>step_system\<close>.
    \<^item> \<open>Rate_Control\<close>: runs of the service with a record of its calls of the limiter (\<open>clocked_run\<close>).
    \<^item> \<open>Entry\<close>: \<open>main.tsx\<close>, which mounts the app, and \<open>StrictMode\<close>.
    \<^item> \<open>Fixtures\<close>: the event logs of \<open>test/fixtures/events.ts\<close>.
    \<^item> this theory: the whole way from the backend's models to the screen.

  \<^bold>\<open>State and operations.\<close> The fields of a class or the refs and states of a hook are a record
  (\<open>player\<close>, \<open>session\<close>, \<open>ws_world\<close>, \<open>sound_engine\<close>, \<open>app\<close>); a method is a function that returns the
  record updated, with what it dispatches, calls or sends as a list beside it. The player's one
  timer is the delay it was armed with; \<open>timer_fires\<close> is its callback. A socket's handlers are a
  flag (\<open>attached\<close>), as \<open>detach\<close> sets all four at once. An effect of React is a function run at a
  commit with the dependencies it had before. Persona texts are lists of UTF-16 code units, so
  that \<open>length\<close>, \<open>slice\<close> and \<open>charCodeAt\<close> mean what they do in the source.

  \<^bold>\<open>What the lemmas show.\<close> Protocol: what the backend sends the frontend accepts, unchanged, and
  nothing malformed passes (\<open>wire_roundtrip\<close>, \<open>parsed_event_wf\<close>). Player: it never stalls
  (\<open>player_never_stalls\<close>), its timers alone end the playback (\<open>playback_ends\<close>, by a measure on what
  is buffered), and the loop of \<open>skipToLive\<close> returns: \<open>drain_loop\<close> and the
  run of the timers are \<open>partial_function\<close>s, so that not returning is the value \<open>None\<close>, and both are
  proved to be \<open>Some\<close> of a result on every player the code can reach. Playback: one
  speaker at a time, nothing shown but received, no end before the last turn, the pace changes
  nothing else, and, as the contract of the whole, once a debate has been played out every round
  shows all that was received of it, whatever was clicked on the way
  (\<open>replay_is_complete\<close>). Session: that result from the wire to the screen, and that superseded or
  stopped sockets can do nothing. Views: the transcript, the stage and the controls agree with the
  state, the button that skips to live with the player as the last render saw it
  (\<open>controls_match_the_session\<close>); the robot that talks is framed, and lit brighter than the others once its light
  had a second to ease (\<open>stage_shows_the_speaker\<close>). App: a running debate always has something that will end it, cues sound once, and only
  with the user's consent, and Escape and the focus follow what is shown (\<open>escape_closes_what_is_shown\<close>). Backend: its stream is in the order the player needs under every schedule
  (\<open>backend_stream_is_in_order\<close>), every debate ends (\<open>every_debate_ends\<close>), and an undisturbed one is sent in full; joined with
  the session's result, what the backend's transcript holds is what the screen shows
  (\<open>debate_end_to_end\<close>). Provider: what the model's server streams is what the orchestrator reads
  (\<open>sse_answer_arrives\<close>). Admission: slots and quota hold under every interleaving of the clients
  (\<open>admission_is_bounded\<close>), and so does the rate of each client over any run of the whole service and in
  any window of time (\<open>service_rate_is_bounded\<close>; \<open>runs_are_recorded\<close>: every run is one it speaks of).
  Service: every client of a server at work gets a stream in order (\<open>every_client_gets_a_stream_in_order\<close>); with the requests it
  has the server works for finitely many steps, by a multiset of what is left of each, and steps it makes on
  its own (\<open>own_step\<close>: none that need the client to send, take in or close anything, \<open>needs_client\<close>) go on
  until the last is answered and the last debate returned, but for the handlers that wait for the first
  message of their client, whose read has no deadline (\<open>every_request_is_answered\<close>); and the calls of
  the model by debates that are not cancelled are bounded at every moment (\<open>upstream_is_bounded\<close>).
  Deployment: the daily quota holds across any number of restarts and crashes (\<open>quota_survives_restarts\<close>).

  \<^bold>\<open>What is assumed of code not under \<open>src/\<close>.\<close> \<open>JSON.parse\<close> is the parameter \<open>json_parse\<close>, zod's
  \<open>safeParse\<close> the parameter \<open>safe_parse\<close>; \<open>zod_documented\<close> states the documented meaning of the
  schemas' combinators and \<open>zod_reference\<close> shows it can hold. For \<open>App_Shell\<close> the verdict's
  Markdown and the canvas are the parameters \<open>md\<close> and \<open>canvas\<close>, of which \<open>no_handlers\<close> says they offer no
  control of their own; \<open>parts_have_no_handlers\<close> proves it of the page's, with the tree react-markdown
  makes of a text as parameter. \<open>three_documented\<close> states what three.js says of its vectors, \<open>damp_documented\<close>
  what it says of \<open>MathUtils.damp\<close>; \<open>update\<close> is
  its controls', which by \<open>controls_documented\<close> leave a camera within their limits where it is, once no drag
  glides on. \<open>encodes\<close> says that \<open>JSON.parse\<close> reads a frame as the object the backend marshalled;
  \<open>frames_fit\<close>, a restriction, that no frame of the debate is longer than the client takes: the
  backend bounds neither a delta nor the verdict, which is one frame. The URL of the socket is taken to be
  one \<open>new WebSocket\<close> accepts. React may render \<open>App\<close> at any time, and does when what its hooks hold has
  changed. A provider is
  a relation between requests and replies, any relation: a stream is a finite list of deltas that may
  end in an error. \<open>replay_is_complete\<close> assumes only the order of the stream, \<open>in_order\<close>: no token of a
  round after that round is complete, no round complete and no verdict once the session ended, nothing
  of the moderator after the verdict; the backend is proved to keep it. For the services, \<open>unmarshal\<close> is
  \<open>json.Unmarshal\<close> on a chunk, \<open>net\<close> what servers answer, \<open>parsers\<close> the functions of \<open>strconv\<close> and \<open>time\<close>,
  and \<open>rate_documented\<close> the documentation of \<open>golang.org/x/time/rate\<close>, which \<open>rate_reference\<close> keeps. The
  database carries out a statement or fails, before or after it wrote; its one statement is atomic.
  \<open>durable\<close> says for which paths SQLite keeps the database in a file, where a process that ends, however it
  does, leaves it. Of the WebSocket library only the outcomes are used: a handshake, a read or a write succeeds or
  fails, at any moment; for who is waited for, that a read without a deadline ends only by what its client does,
  that a write with one ends by then, and that the handshake, answered from the request, and the one small
  frame that answers an invalid request do not wait for the client. Of the provider and the database
  \<open>every_request_is_answered\<close> asks that they answer, and each stream ends.

  \<^bold>\<open>Bounds.\<close> The limits are the source's: 200,000 units per cell and turn, 50 errors, the rounds of
  the wire up to \<open>MAX_WIRE_ROUND\<close>, the frame limit of the client. No fuel is used. Numbers the
  source only adds, compares and clamps are \<open>int\<close>, \<open>nat\<close> or, where it divides, \<open>rat\<close> or \<open>real\<close>;
  none comes near 2^53 within those limits, and no floating-point rounding is modelled.

  \<^bold>\<open>What modelling showed.\<close> A panelist who fails in two buffered rounds is reported once
  (\<open>second_error_erases_the_first\<close>); \<open>ask\<close> disposes before it validates, so a rejected question
  freezes the running debate (\<open>rejected_ask_freezes_the_debate\<close>), which the form prevents
  (\<open>interface_never_freezes_a_debate\<close>); the frontend accepts a question of U+0085 only, which the
  backend rejects; the banner prefers an advisory error to the one that ended the session; the
  announcer voices the moderator's fatal error too; \<open>setRate(NaN)\<close> is not clamped; Shift+Tab from the
  verdict panel itself leaves its focus trap; a rate limit of NaN passes the configuration's check
  (\<open>nan_rate_is_accepted\<close>), a TTL shorter than the refilling of a bucket lets a client who waits to
  be evicted exceed its rate (\<open>eviction_can_refill\<close>), a session whose client is gone frees its slot before
  the calls of its debate are over (\<open>cancelled_calls_outlive_their_slot\<close>), and a client that connects and says
  nothing holds its slot for ever, so that a few of them lock everybody else out
  (\<open>idle_client_keeps_its_slot\<close>, \<open>idle_clients_lock_out\<close>); the button \<open>Go to live\<close> stays for the whole of the next
  round's streaming with nothing to go to (\<open>go_to_live_lingers\<close>), where the comment has one turn gap; a
  verdict of more than 256 Ki units never arrives (\<open>oversized_frame_is_dropped\<close>).

  \<^bold>\<open>Not modelled.\<close> Class names and styles; the lines that are logged; of the HTTP server, its timeouts, and the ten seconds \<open>main\<close> waits for it at most when it shuts down.
\<close>

section \<open>The page's parts\<close>

text \<open>What the app's properties ask of \<open>md\<close> and \<open>canvas\<close> holds of the components the page has there,
  whatever react-markdown makes of a verdict.\<close>

lemma parts_have_no_handlers: "no_handlers (Markdown parse) (\<lambda>s. doms (DebateStage sm h still s))"
  by (simp add: no_handlers_def markdown_no_handlers stage_no_handlers)

section \<open>From the backend to the screen\<close>

text \<open>The events among what the session's player is called with.\<close>

fun fed_events :: "player_call list \<Rightarrow> debate_event list" where
  "fed_events [] = []"
| "fed_events (Feed e # cs) = e # fed_events cs"
| "fed_events (_ # cs) = fed_events cs"

lemma set_fed_events: "e \<in> set (fed_events cs) \<longleftrightarrow> Feed e \<in> set cs"
  by (induction cs rule: fed_events.induct) auto

lemma wf_fed_events: "list_all by_wire cs \<Longrightarrow> list_all wf_event (fed_events cs)"
  by (induction cs rule: fed_events.induct) auto

lemma in_order_fed:
  "list_all by_wire cs \<Longrightarrow> in_order st (map Feed (fed_events cs)) \<Longrightarrow> in_order st cs"
  by (induction cs arbitrary: st rule: fed_events.induct) auto

lemma go_of_event_inj: "wf_event e \<Longrightarrow> wf_event e' \<Longrightarrow> go_of_event e = go_of_event e' \<Longrightarrow> e = e'"
  by (metis debateEventSchema_marshal option.inject)

lemma go_of_events_inj:
  "list_all wf_event es \<Longrightarrow> list_all wf_event es' \<Longrightarrow> map go_of_event es = map go_of_event es' \<Longrightarrow> es = es'"
  by (rule map_inj_on [where f = go_of_event])
    (simp_all add: list_all_iff inj_on_def, metis Un_iff go_of_event_inj)

text \<open>What the player is fed for a persona and round is what was said on the wire.\<close>

lemma said_Cons:
  "said who k (e # w) = (if ge_type e = ''token'' \<and> ge_persona e = who \<and> ge_round e = k then ge_delta e else []) @ said who k w"
  by (simp add: said_def)

lemma fed_said: "concat (fed p k cs) = said (persona_name p) k (map go_of_event (fed_events cs))"
proof (induction cs rule: fed_events.induct)
  case (2 e cs)
  then show ?case by (cases e) (auto simp: said_Cons go_constructors)
qed simp_all

lemma fed_round:
  assumes "fed p k cs \<noteq> []"
  shows "\<exists>e\<in>set (map go_of_event (fed_events cs)). ge_type e = ''token'' \<and> ge_persona e = persona_name p \<and> ge_round e = k"
  using assms
proof (induction cs rule: fed_events.induct)
  case (2 e cs)
  then show ?case by (cases e) (auto simp: go_constructors split: if_splits)
qed simp_all

text \<open>A provider that always says the same, and what a debate over it sends: its one text is what every
  answer and the verdict are.\<close>

definition terse :: orchestrator where
  "terse = new_orchestrator (\<lambda>_ reply. reply = Inr [delta_event (js ''hi'')]) ''none'' 6"

definition terse_event :: "go_event \<Rightarrow> bool" where
  "terse_event e \<longleftrightarrow> ge_type e \<noteq> ''error'' \<and> ge_error e = [] \<and> ge_delta e \<in> {[], js ''hi''}
     \<and> ge_verdict e = (if ge_type e = ''verdict'' then js ''hi'' else [])"

definition terse_call :: "stream_call \<Rightarrow> bool" where
  "terse_call c \<longleftrightarrow> sc_stream c = Some [delta_event (js ''hi'')] \<and> sc_text c = [] \<or> sc_stream c = Some [] \<and> sc_text c = js ''hi''"

definition terse_answers :: "nat set \<Rightarrow> persona_answer list \<Rightarrow> bool" where
  "terse_answers out ans \<longleftrightarrow> (\<forall>i < length ans. i \<in> out \<or> pa_Text (ans ! i) = js ''hi'')"

definition terse_inv :: "orchestration \<Rightarrow> bool" where
  "terse_inv s \<longleftrightarrow> list_all terse_event (oc_wire s) \<and> list_all (\<lambda>g. terse_answers {} (gr_Answers g)) (oc_transcript s)
   \<and> (case oc_point s of
        InRound r R \<Rightarrow> list_all terse_call (map snd (rr_running R))
          \<and> terse_answers (fst ` set (rr_waiting R) \<union> fst ` set (rr_running R)) (rr_answers R)
      | InModerator c \<Rightarrow> terse_call c
      | _ \<Rightarrow> True)"

lemma terse_answers_start: "terse_answers (fst ` set (rr_waiting (start_round ps))) (rr_answers (start_round ps))"
proof -
  have "fst ` set (enumerate 0 ps) = {0..<length ps}" by (metis add_0 map_fst_enumerate set_map set_upt)
  then show ?thesis by (simp add: terse_answers_def start_round_def)
qed

lemma terse_start: "or_provider terse req reply \<Longrightarrow> terse_call (stream_start p r m reply)"
  by (simp add: terse_def new_orchestrator_def stream_start_def terse_call_def)

lemma terse_emits: "terse_call c \<Longrightarrow> terse_event (stream_emits c)"
  by (auto simp: terse_call_def terse_event_def stream_emits_def delta_event_def go_constructors)

lemma terse_resumes:
  "terse_call c \<Longrightarrow> case stream_resumes emitted c of Inl c' \<Rightarrow> terse_call c' | Inr t \<Rightarrow> t = js ''hi''"
  by (auto simp: terse_call_def stream_resumes_def delta_event_def Let_def)

lemma terse_emit:
  assumes "emit d ev s = Some (s', b)" "terse_event ev" "list_all terse_event (oc_wire s)"
  shows "list_all terse_event (oc_wire s')" "oc_transcript s' = oc_transcript s"
  by (cases rule: emit_cases [OF assms(1)]; use assms in simp)+

lemma terse_answers_update:
  assumes "terse_answers out ans" "pa_Text x = js ''hi''" "out \<subseteq> insert i out'"
  shows "terse_answers out' (ans[i := x])"
  unfolding terse_answers_def
proof (intro allI impI)
  fix k
  assume "k < length (ans[i := x])"
  with assms show "k \<in> out' \<or> pa_Text (ans[i := x] ! k) = js ''hi''"
    by (cases "k = i") (auto simp: terse_answers_def)
qed

lemma terse_round:
  assumes "list_all terse_call (map snd (rr_running R))" "j < length (rr_running R)"
    and "terse_answers (fst ` set (rr_waiting R) \<union> fst ` set (rr_running R)) (rr_answers R)"
  shows "list_all terse_call (map snd (rr_running (resume_panelist j emitted R)))
    \<and> terse_answers (fst ` set (rr_waiting (resume_panelist j emitted R)) \<union> fst ` set (rr_running (resume_panelist j emitted R)))
        (rr_answers (resume_panelist j emitted R))"
proof -
  obtain i c where j: "rr_running R ! j = (i, c)" by fastforce
  with assms(1,2) have "terse_call c" by (force simp: list_all_length)
  note resumes = terse_resumes [OF this, of emitted]
  have split: "rr_running R = take j (rr_running R) @ (i, c) # drop (Suc j) (rr_running R)"
    using id_take_nth_drop [OF assms(2)] by (simp add: j)
  let ?rest = "take j (rr_running R) @ drop (Suc j) (rr_running R)"
  from split have running: "set (rr_running R) = insert (i, c) (set ?rest)"
    by (metis Un_insert_right list.simps(15) set_append)
  show ?thesis
  proof (cases "stream_resumes emitted c")
    case (Inl c')
    have "map fst ((rr_running R)[j := (i, c')]) = map fst (rr_running R)"
      using assms(2) j by (simp add: map_update list_update_same_conv)
    then have "fst ` set ((rr_running R)[j := (i, c')]) = fst ` set (rr_running R)" by (metis set_map)
    moreover have "list_all terse_call (map snd ((rr_running R)[j := (i, c')]))"
      using assms(1) resumes Inl by (auto simp: list_all_iff dest!: set_update_subset_insert [THEN subsetD])
    ultimately show ?thesis using assms(3) by (simp add: resume_panelist_def j Inl)
  next
    case (Inr t)
    have "terse_answers (fst ` set (rr_waiting R) \<union> fst ` set ?rest)
        ((rr_answers R)[i := \<lparr>pa_PersonaID = gp_ID (sc_persona c), pa_Name = gp_Name (sc_persona c), pa_Text = t\<rparr>])"
      by (rule terse_answers_update [OF assms(3)]) (use resumes Inr running in auto)
    moreover have "list_all terse_call (map snd ?rest)" using assms(1) running by (auto simp: list_all_iff)
    ultimately show ?thesis by (simp add: resume_panelist_def j Inr)
  qed
qed

lemma terse_step:
  assumes inv: "terse_inv s" and step: "run_step terse question ps n s t"
  shows "terse_inv t"
  using step
proof (cases rule: run_step_cases)
  case (starts r R i p ws reply)
  with inv terse_start show ?thesis by (auto simp: terse_inv_def terse_answers_def)
next
  case (speaks r R j d s' b)
  from inv speaks(2) have R: "list_all terse_call (map snd (rr_running R))"
    "terse_answers (fst ` set (rr_waiting R) \<union> fst ` set (rr_running R)) (rr_answers R)" by (simp_all add: terse_inv_def)
  with speaks(3) have "terse_event (stream_emits (snd (rr_running R ! j)))" by (simp add: terse_emits list_all_length)
  from terse_emit [OF speaks(4) this] inv terse_round [OF R(1) speaks(3) R(2)] speaks(1) show ?thesis
    by (simp add: terse_inv_def)
next
  case (completes r d s' b)
  have "terse_event (go_RoundComplete r)" by (simp add: terse_event_def go_constructors)
  moreover have "rr_running (start_round ps) = []" by (simp add: start_round_def)
  ultimately show ?thesis using terse_emit [OF completes(3)] inv completes(1) terse_answers_start [of ps]
    by (simp add: terse_inv_def next_round_def)
next
  case (judges c d s' b)
  from inv judges(2) have c: "terse_call c" by (simp add: terse_inv_def)
  from terse_emit [OF judges(3) terse_emits [OF c]] terse_resumes [OF c, of b] inv judges(1) show ?thesis
    by (cases "stream_resumes b c") (simp_all add: terse_inv_def)
qed (use inv terse_start in \<open>auto simp: terse_inv_def Append_def\<close>)

interpretation terseness: step_system "run_step terse question ps n" terse_inv for question ps n
  by unfold_locales (rule terse_step)

lemma terse_inv_Run: "terse_inv (Run ps n)"
  using terse_answers_start [of ps] by (simp add: terse_inv_def Run_def next_round_def) (simp add: start_round_def)

text \<open>A wire format that keeps every event.\<close>

fun plain_enc :: "debate_event \<Rightarrow> jstr" where
  "plain_enc (PersonaDoneEvent p r) = [0, word_of_nat (persona_rank p), word_of_nat r]"
| "plain_enc (RoundCompleteEvent r) = [1, word_of_nat r]"
| "plain_enc (VerdictEvent v) = 2 # v"
| "plain_enc (TokenEvent p r d) = 3 # word_of_nat (persona_rank p) # word_of_nat r # d"
| "plain_enc (ErrorEvent e) = 4 # (case ee_persona e of None \<Rightarrow> 5 | Some p \<Rightarrow> word_of_nat (persona_rank p)) # ee_error e"

definition plain_persona :: "code_unit \<Rightarrow> string" where
  "plain_persona u = (if u = 5 then '''' else persona_name (PERSONA_IDS ! unat u))"

definition plain_parse :: "jstr \<Rightarrow> json option" where
  "plain_parse t = Some (go_marshal
    (if hd t = 0 then go_PersonaDone (plain_persona (t ! 1)) (unat (t ! 2))
     else if hd t = 1 then go_RoundComplete (unat (t ! 1))
     else if hd t = 2 then go_Verdict (tl t)
     else if hd t = 3 then go_Token (plain_persona (t ! 1)) (unat (t ! 2)) (drop 3 t)
     else go_Error (plain_persona (t ! 1)) (drop 2 t)))"

lemma plain_encodes:
  assumes "wf_event e"
  shows "plain_parse (plain_enc e) = Some (go_marshal (go_of_event e))"
proof -
  have small: "unat (word_of_nat r :: code_unit) = r" if "r \<le> MAX_WIRE_ROUND" for r
    using that by (simp add: unat_of_nat MAX_WIRE_ROUND_def MAX_ROUNDS_def)
  have rank: "plain_persona (word_of_nat (persona_rank p)) = persona_name p" for p
    by (cases p) (simp_all add: PERSONA_IDS_def plain_persona_def)
  have none: "plain_persona 5 = ''''" by (simp add: plain_persona_def)
  from assms show ?thesis
    by (cases e) (auto simp: plain_parse_def small rank none split: option.split)
qed

lemma terse_frames: "terse_event (go_of_event e) \<Longrightarrow> length (plain_enc e) \<le> 256 * 1024"
  by (cases e) (auto simp: terse_event_def go_constructors js_def split: option.splits)

text \<open>So a debate over it that is left alone ends with that text from everybody.\<close>

lemma terse_debate:
  assumes "HandleSession msg DefaultPanel = Inr (question, n, b0)" "debates terse question DefaultPanel n b0 b"
    and "oc_point b = Returned" "\<not> oc_done b"
  shows "list_all terse_event (oc_wire b)"
    and "\<And>i k. i < 4 \<Longrightarrow> k \<in> {1..n} \<Longrightarrow> pa_Text (gr_Answers (oc_transcript b ! (k - 1)) ! i) = js ''hi''"
    and "said ''moderator'' (n + 1) (oc_wire b) = js ''hi''"
proof -
  have "terse_inv b0" using HandleSession_runs(1) [OF assms(1)] terse_inv_Run by simp
  from terseness.inv_reach [OF assms(2) this]
  have inv: "list_all terse_event (oc_wire b)" "list_all (\<lambda>g. terse_answers {} (gr_Answers g)) (oc_transcript b)"
    by (simp_all add: terse_inv_def)
  then show "list_all terse_event (oc_wire b)" by simp
  from session_reach [OF assms(1,2)] assms(3,4) have h: "heard_at DefaultPanel n (oc_wire b) (oc_transcript b) Returned"
    by (simp add: debate_inv_def heard_inv_def)
  then have "go_Verdict (said ''moderator'' (n + 1) (oc_wire b)) \<in> set (oc_wire b)"
    using inv(1) by (auto simp: list_all_iff terse_event_def go_constructors)
  with inv(1) show "said ''moderator'' (n + 1) (oc_wire b) = js ''hi''"
    by (auto simp: list_all_iff terse_event_def go_constructors)
  fix i k :: nat
  assume i: "i < 4" and k: "k \<in> {1..n}"
  from h have t: "oc_transcript b = map (heard DefaultPanel (oc_wire b)) [1..<Suc n]" by simp
  with k have g: "oc_transcript b ! (k - 1) \<in> set (oc_transcript b)" "length (gr_Answers (oc_transcript b ! (k - 1))) = 4"
    by (auto simp: heard_def length_panel simp del: upt_Suc)
  with inv(2) i show "pa_Text (gr_Answers (oc_transcript b ! (k - 1)) ! i) = js ''hi''"
    by (auto simp: list_all_iff terse_answers_def)
qed

text \<open>One debate, of which nothing else is known.\<close>

lemma debate_to_screen:
  assumes "zod_documented sp" "session_run jp sp (useDebate m) before s" "buildAsk q r = AskOk msg"
    and backend: "HandleSession (go_read_ask msg) DefaultPanel = Inr (question, n, b0)"
      "debates orch question DefaultPanel n b0 b" "oc_point b = Returned" "\<not> oc_done b"
      "go_Error ''moderator'' (js ''stream failed'') \<notin> set (oc_wire b)"
    and "list_all by_wire cs" "encodes jp enc cs" "frames_fit enc cs" "map go_of_event (fed_events cs) = oc_wire b"
    and "sock = next_socket (se_world s)"
    and "session_run jp sp (ask q r s) (map (as_event enc sock) cs) s1"
    and "session_step jp sp s1 (Socket sock SockClose) s2"
    and "session_run jp sp s2 es s3" "list_all viewing es"
  shows "\<exists>p out. run_timers (se_player s3) [] = Some (p, out) \<and> isAtLive p
    \<and> (let st = foldl debateReducer (se_state s3) out in
       phase st = PhDone \<and> activeSpeakers st = []
       \<and> (\<forall>i < 4. \<forall>k \<in> {1..n}. cell (transcript st) (PANELISTS ! i) k
            = take 200000 (pa_Text (gr_Answers (oc_transcript b ! (k - 1)) ! i)))
       \<and> verdict st = said ''moderator'' (n + 1) (oc_wire b)
       \<and> cell (transcript st) Moderator (n + 1) = take 200000 (verdict st))"
proof -
  let ?v = "said ''moderator'' (n + 1) (oc_wire b)"
  note inv = session_reach [OF backend(1,2)]
  from inv backend(3,4) have h: "heard_at DefaultPanel n (oc_wire b) (oc_transcript b) Returned"
    by (simp add: debate_inv_def heard_inv_def)
  from inv obtain es where es: "oc_wire b = map go_of_event es" "list_all wf_event es"
    "in_order ({}, False, False) (map Feed es)" by (auto simp: debate_inv_def order_inv_def)
  have fed: "fed_events cs = es" using go_of_events_inj [OF wf_fed_events [OF assms(9)] es(2)] assms(12) es(1) by simp
  have order: "in_order ({}, False, False) cs" using in_order_fed [OF assms(9)] es(3) fed by simp
  have sent: "Feed e \<in> set cs" if "go_of_event e \<in> set (oc_wire b)" "wf_event e" for e
    using that es(1,2) fed by (auto simp: list_all_iff set_fed_events [symmetric] dest: go_of_event_inj)
  from h backend(5) have verdict: "Feed (VerdictEvent ?v) \<in> set cs" by (intro sent) simp_all
  have complete: "Feed (RoundCompleteEvent k) \<in> set cs" if "1 \<le> k" "k \<le> n" for k
    using h inv that by (intro sent) (simp_all add: rounds_on_wire_def debate_inv_def MAX_WIRE_ROUND_def)
  have mod: "j = n + 1" if "fed Moderator j cs \<noteq> []" for j
    using fed_round [OF that] inv assms(12) by (auto simp: debate_inv_def moderator_inv_def)
  have answer: "pa_Text (gr_Answers (oc_transcript b ! (k - 1)) ! i) = concat (fed (PANELISTS ! i) k cs)"
    if "i < 4" "k \<in> {1..n}" for i k
  proof -
    have "gp_ID (DefaultPanel ! i) = persona_name (PANELISTS ! i)"
      using that(1) arg_cong [OF panel_ids, of "\<lambda>l. l ! i"] by (simp add: length_panel length_PANELISTS)
    moreover have "oc_transcript b ! (k - 1) = heard DefaultPanel (oc_wire b) k"
    proof -
      from that(2) have "k - 1 < length [1..<Suc n]" "[1..<Suc n] ! (k - 1) = k" by (auto simp: nth_upt simp del: upt_Suc)
      with h show ?thesis by (simp del: upt_Suc)
    qed
    ultimately show ?thesis using that(1) by (simp add: fed_said assms(12) heard_def answer_heard_def length_panel)
  qed
  obtain p out where "run_timers (se_player s3) [] = Some (p, out)" "isAtLive p"
    and st: "let st = foldl debateReducer (se_state s3) out in
       phase st = PhDone \<and> verdict st = ?v \<and> activeSpeakers st = []
       \<and> (\<forall>x k. x \<noteq> Moderator \<and> 1 \<le> k \<and> k \<le> n \<longrightarrow> cell (transcript st) x k = take 200000 (concat (fed x k cs)))
       \<and> (\<forall>k. (\<forall>j. fed Moderator j cs \<noteq> [] \<longrightarrow> j = k) \<longrightarrow>
            cell (transcript st) Moderator k = take 200000 (concat (fed Moderator k cs)))"
    using wire_to_screen [OF assms(1-3,9-11) order verdict complete assms(13-17)] by blast
  moreover have "concat (fed Moderator (n + 1) cs) = ?v" by (simp add: fed_said assms(12))
  ultimately show ?thesis using mod by (auto simp: Let_def answer [unfolded One_nat_def])
qed

text \<open>C1. From the backend to the screen. A valid question is asked, whatever happened before; the
  server is at work on it and on any other requests, in any interleaving, and has run the debate it was
  asked for to its end, undisturbed, its moderator not failing; what the handler of this client writes
  arrives in that order, encoded as Go encodes it and none of it in a frame of more than the 256 * 1024
  units the client takes (\<open>frames_fit\<close>; the verdict is one frame, and the backend bounds it by nothing), and
  the socket closes; in the browser, timers, changes of speed and skips interleave at will, before the
  close and after it. When playback has come to rest the debate is done, nobody speaks, each panelist's
  cell of each round is the answer the backend's transcript holds (up to the cap of 200,000 units of a
  cell), and the verdict is what the moderator streamed, which up to that cap is its cell as well.\<close>

theorem debate_end_to_end:
  assumes "zod_documented sp" "session_run jp sp (useDebate m) before s" "buildAsk q r = AskOk msg"
    and server: "(service_step pkg g orch)\<^sup>*\<^sup>* (start_service l u) v"
      "HandleSession (go_read_ask msg) DefaultPanel = Inr (question, n, b0)"
      "wss_debate (sy_sessions v client) = Some (question, n, b)" "oc_point b = Returned" "\<not> oc_done b"
      "go_Error ''moderator'' (js ''stream failed'') \<notin> set (oc_wire b)"
    and "list_all by_wire cs" "encodes jp enc cs" "frames_fit enc cs" "map go_of_event (fed_events cs) = session_wire (sy_sessions v client)"
    and "sock = next_socket (se_world s)"
    and "session_run jp sp (ask q r s) (map (as_event enc sock) cs) s1"
    and "session_step jp sp s1 (Socket sock SockClose) s2"
    and "session_run jp sp s2 es s3" "list_all viewing es"
  shows "\<exists>p out. run_timers (se_player s3) [] = Some (p, out) \<and> isAtLive p
    \<and> (let st = foldl debateReducer (se_state s3) out in
       phase st = PhDone \<and> activeSpeakers st = []
       \<and> (\<forall>i < 4. \<forall>k \<in> {1..n}. cell (transcript st) (PANELISTS ! i) k
            = take 200000 (pa_Text (gr_Answers (oc_transcript b ! (k - 1)) ! i)))
       \<and> verdict st = said ''moderator'' (n + 1) (oc_wire b)
       \<and> cell (transcript st) Moderator (n + 1) = take 200000 (verdict st))"
proof -
  from service.inv_reach [OF server(1) service_ok_start] have "session_ok orch (sy_sessions v client)"
    by (simp add: service_ok_def)
  with server(3) obtain msg' s0 where s0: "HandleSession msg' DefaultPanel = Inr (question, n, s0)"
      "debates orch question DefaultPanel n s0 b"
    and wire: "session_wire (sy_sessions v client) = oc_wire b"
    by (auto simp: session_ok_def session_wire_def)
  have "s0 = b0" using HandleSession_runs(1) [OF s0(1)] HandleSession_runs(1) [OF server(2)] by simp
  with s0(2) have "debates orch question DefaultPanel n b0 b" by simp
  from debate_to_screen [OF assms(1-3) server(2) this server(4-6) assms(10-12) assms(13) [unfolded wire] assms(14-18)]
  show ?thesis .
qed

theorem debate_end_to_end_witness:
  "\<exists>(s3 :: session) p out. run_timers (se_player s3) [] = Some (p, out)
    \<and> (let st = foldl debateReducer (se_state s3) out in phase st = PhDone \<and> verdict st = js ''hi''
       \<and> (\<forall>i < 4. \<forall>k \<in> {1..2}. cell (transcript st) (PANELISTS ! i) k = js ''hi''))"
proof -
  let ?s = "useDebate False"
  note ok = ask_example
  have "go_read_ask \<lparr>ask_question = js ''a'', ask_rounds = None\<rparr> = \<lparr>cm_type = ''ask'', cm_question = [97], cm_rounds = 0\<rparr>"
    by (simp add: go_read_ask_def go_runes_def js_def is_high_surrogate_def)
  note start = example_message [folded this]
  obtain b where b: "debates terse (js ''a'') DefaultPanel 2 (Run DefaultPanel 2) b" "oc_point b = Returned" "\<not> oc_done b"
    by (rule some_debate [OF _ _ start, of terse]) (simp_all add: answers_def terse_def new_orchestrator_def)
  note said_hi = terse_debate [OF start b]
  from said_hi(1) have no_error: "go_Error ''moderator'' (js ''stream failed'') \<notin> set (oc_wire b)"
    by (auto simp: list_all_iff terse_event_def go_constructors)
  obtain es where es: "oc_wire b = map go_of_event es" "list_all wf_event es"
    using session_reach [OF start b(1)] by (auto simp: debate_inv_def order_inv_def)
  let ?cs = "map Feed es"
  have fed: "fed_events ?cs = es" by (induction es) simp_all
  have enc: "encodes plain_parse plain_enc ?cs"
    using es by (auto simp: encodes_def list_all_iff plain_encodes)
  have fit: "frames_fit plain_enc ?cs"
    using said_hi(1) es terse_frames by (auto simp: frames_fit_def list_all_iff)
  have wire: "list_all by_wire ?cs" using es(2) by (simp add: list_all_iff)
  have inv: "session_inv (ask (js ''a'') None ?s)" by (rule ask_inv [OF session_inv_init])
  obtain s1 where s1: "session_run plain_parse zod_reference (ask (js ''a'') None ?s) (map (as_event plain_enc 0) ?cs) s1"
    using session_run_exists [OF inv zod_reference_documented] by blast
  obtain s2 where s2: "session_step plain_parse zod_reference s1 (Socket 0 SockClose) s2"
    using session_step_exists [OF session_run_inv [OF s1 inv zod_reference_documented]] by blast
  obtain s3 where s3: "session_run plain_parse zod_reference s2 [ChooseRate (JNum 2), Timer, GoToLive] s3"
    using session_run_exists [OF session_inv_step [OF session_run_inv [OF s1 inv zod_reference_documented]
        zod_reference_documented s2] zod_reference_documented] by blast
  have first: "0 = next_socket (se_world ?s)" by (simp add: useDebate_def ws_init_def)
  from example_hosts [where g = "\<lparr>gc_sem = 1, gc_dailyLimit = 3, gc_trustProxy = False\<rparr>", OF _ _ _ session_hosts [OF start b(1)]]
  obtain v where v: "(service_step rate_reference \<lparr>gc_sem = 1, gc_dailyLimit = 3, gc_trustProxy = False\<rparr> terse)\<^sup>*\<^sup>*
      (start_service (new_limiter 1 3 600) example_usage) v"
    and host: "wss_debate (sy_sessions v 0) = Some (js ''a'', 2, b)" "session_wire (sy_sessions v 0) = oc_wire b"
    by (fastforce simp: session_wire_def)
  have "map go_of_event (fed_events ?cs) = session_wire (sy_sessions v 0)" using fed es(1) host(2) by simp
  from debate_end_to_end [OF zod_reference_documented session_run.stays ok v start host(1) b(2,3) no_error wire enc fit this first s1 s2 s3]
  obtain p out where "run_timers (se_player s3) [] = Some (p, out)"
    and st: "let st = foldl debateReducer (se_state s3) out in phase st = PhDone
       \<and> (\<forall>i < 4. \<forall>k \<in> {1..2}. cell (transcript st) (PANELISTS ! i) k
            = take 200000 (pa_Text (gr_Answers (oc_transcript b ! (k - 1)) ! i)))
       \<and> verdict st = said ''moderator'' (2 + 1) (oc_wire b)"
    by (auto simp: Let_def)
  moreover have "take 200000 (js ''hi'') = js ''hi''" by (simp add: js_def)
  ultimately show ?thesis using said_hi(2,3) by (auto simp: Let_def)
qed

end
